(* ===== verification/Prelude.thy ===== *)
theory Prelude
  imports Main "HOL-Library.Word"
begin

text \<open>
  The vocabulary every component of the development shares.

  \<^item> Machine integers. A Rust \<open>u8\<close>/\<open>u32\<close>/\<open>u64\<close>/\<open>u128\<close> is a word of that width; the
    \<open>checked_*\<close> and \<open>saturating_*\<close> methods of the standard library are definitions on
    words of any width, each with a lemma that says what it computes on the natural
    numbers (collection \<open>word_nat\<close>).
  \<^item> Storage-effecting, fallible code. A Rust function that reads and writes storage and
    returns \<open>Result<A, E>\<close> is a function \<open>'s \<Rightarrow> ('e + 'a) \<times> 's\<close>: on an error the state
    reached so far is returned too, because the Rust storage is not rolled back by \<open>?\<close>.
    The combinators \<open>ret\<close>, \<open>raise\<close>, \<open>bindE\<close>, \<open>getsE\<close>, \<open>modifyE\<close>, \<open>ensureE\<close>, \<open>ok_or\<close>
    and \<open>attempt\<close> are the control flow of such functions (collection \<open>monad\<close>).
  \<^item> Lemmas on finite sums over a map with default values, used for the issuance
    accounting of the currency components.
\<close>

named_theorems word_nat \<open>facts that move statements about words to the natural numbers\<close>
named_theorems monad \<open>the computation rules of the state-and-error combinators\<close>

type_synonym u8 = "8 word"
type_synonym u32 = "32 word"
type_synonym u64 = "64 word"
type_synonym u128 = "128 word"

section \<open>Rust integer methods\<close>

abbreviation max_value :: "'w::len word" where
  "max_value \<equiv> - 1"

definition checked_add :: "'w::len word \<Rightarrow> 'w word \<Rightarrow> 'w word option" where
  "checked_add a b = (if a \<le> a + b then Some (a + b) else None)"

definition checked_sub :: "'w::len word \<Rightarrow> 'w word \<Rightarrow> 'w word option" where
  "checked_sub a b = (if b \<le> a then Some (a - b) else None)"

definition checked_mul :: "'w::len word \<Rightarrow> 'w word \<Rightarrow> 'w word option" where
  "checked_mul a b = (if uint a * uint b < 2 ^ LENGTH('w) then Some (a * b) else None)"

definition checked_div :: "'w::len word \<Rightarrow> 'w word \<Rightarrow> 'w word option" where
  "checked_div a b = (if b = 0 then None else Some (a div b))"

definition saturating_add :: "'w::len word \<Rightarrow> 'w word \<Rightarrow> 'w word" where
  "saturating_add a b = (if a \<le> a + b then a + b else max_value)"

definition saturating_sub :: "'w::len word \<Rightarrow> 'w word \<Rightarrow> 'w word" where
  "saturating_sub a b = (if b \<le> a then a - b else 0)"

definition saturating_mul :: "'w::len word \<Rightarrow> 'w word \<Rightarrow> 'w word" where
  "saturating_mul a b = (if uint a * uint b < 2 ^ LENGTH('w) then a * b else max_value)"

lemma unat_max_value [word_nat]: "unat (max_value :: 'w::len word) = 2 ^ LENGTH('w) - 1"
proof -
  have "unat (0 - 1 :: 'w word) = 2 ^ LENGTH('w) - 1"
    by (subst unat_sub_if') simp
  then show ?thesis by simp
qed

lemma unat_less_power: "unat (a :: 'w::len word) < 2 ^ LENGTH('w)"
  by (rule unsigned_less)

lemma uint_mul_fits:
  "uint (a :: 'w::len word) * uint b < 2 ^ LENGTH('w) \<longleftrightarrow> unat a * unat b < 2 ^ LENGTH('w)"
proof -
  have "uint a * uint b = int (unat a * unat b)" by simp
  moreover have "(2::int) ^ LENGTH('w) = int (2 ^ LENGTH('w))" by simp
  ultimately show ?thesis by (simp only: of_nat_less_iff)
qed

lemma unat_min [word_nat]: "unat (min a b :: 'w::len word) = min (unat a) (unat b)"
  by (simp add: min_def word_le_nat_alt)

lemma unat_max [word_nat]: "unat (max a b :: 'w::len word) = max (unat a) (unat b)"
  by (simp add: max_def word_le_nat_alt)

lemma unat_saturating_add [word_nat]:
  "unat (saturating_add a b :: 'w::len word) = min (unat a + unat b) (2 ^ LENGTH('w) - 1)"
  by (auto simp: saturating_add_def no_olen_add_nat unat_word_ariths unat_max_value)

lemma unat_saturating_sub [word_nat]:
  "unat (saturating_sub a b :: 'w::len word) = unat a - unat b"
  by (auto simp: saturating_sub_def unat_sub word_le_nat_alt)

lemma unat_saturating_mul [word_nat]:
  "unat (saturating_mul a b :: 'w::len word) = min (unat a * unat b) (2 ^ LENGTH('w) - 1)"
  by (auto simp: saturating_mul_def uint_mul_fits unat_word_ariths unat_max_value)

lemma checked_add_eq_Some:
  "checked_add a b = Some c \<longleftrightarrow> unat (c :: 'w::len word) = unat a + unat b"
proof
  assume "checked_add a b = Some c"
  then show "unat c = unat a + unat b"
    by (auto simp: checked_add_def no_olen_add_nat unat_word_ariths split: if_splits)
next
  assume c: "unat c = unat a + unat b"
  then have fits: "unat a + unat b < 2 ^ LENGTH('w)" using unat_less_power [of c] by simp
  with c have "c = a + b" by (simp add: word_unat_eq_iff unat_word_ariths)
  with fits show "checked_add a b = Some c" by (simp add: checked_add_def no_olen_add_nat)
qed

lemma checked_add_eq_None:
  "checked_add a b = None \<longleftrightarrow> 2 ^ LENGTH('w) \<le> unat a + unat (b :: 'w::len word)"
  by (auto simp: checked_add_def no_olen_add_nat)

lemma checked_sub_eq_Some:
  "checked_sub a b = Some c \<longleftrightarrow> unat a = unat (c :: 'w::len word) + unat b"
proof
  assume "checked_sub a b = Some c"
  then show "unat a = unat c + unat b"
    by (auto simp: checked_sub_def unat_sub word_le_nat_alt split: if_splits)
next
  assume a: "unat a = unat c + unat b"
  then have le: "b \<le> a" by (simp add: word_le_nat_alt)
  then have "unat (a - b) = unat c" by (simp add: unat_sub a)
  with le show "checked_sub a b = Some c" by (simp add: checked_sub_def word_unat_eq_iff)
qed

lemma checked_sub_eq_None:
  "checked_sub a b = None \<longleftrightarrow> unat a < unat (b :: 'w::len word)"
  by (auto simp: checked_sub_def word_le_nat_alt)

lemma checked_mul_eq_Some:
  "checked_mul a b = Some c \<longleftrightarrow> unat (c :: 'w::len word) = unat a * unat b"
proof
  assume "checked_mul a b = Some c"
  then show "unat c = unat a * unat b"
    by (auto simp: checked_mul_def uint_mul_fits unat_word_ariths split: if_splits)
next
  assume c: "unat c = unat a * unat b"
  then have fits: "unat a * unat b < 2 ^ LENGTH('w)" using unat_less_power [of c] by simp
  with c have "c = a * b" by (simp add: word_unat_eq_iff unat_word_ariths)
  with fits show "checked_mul a b = Some c" by (simp add: checked_mul_def uint_mul_fits)
qed

lemmas checked_eqs =
  checked_add_eq_Some checked_add_eq_None checked_sub_eq_Some checked_sub_eq_None
  checked_mul_eq_Some

lemmas word_order_nat [word_nat] = word_le_nat_alt word_less_nat_alt

lemma saturating_add_exact:
  "unat a + unat b < 2 ^ LENGTH('w) \<Longrightarrow>
    unat (saturating_add a b :: 'w::len word) = unat a + unat b"
  by (simp add: unat_saturating_add)

lemma saturating_sub_self [simp]: "saturating_sub a a = 0"
  by (simp add: saturating_sub_def)

lemma saturating_sub_0 [simp]: "saturating_sub a 0 = a"
  by (simp add: saturating_sub_def)

lemma saturating_add_0 [simp]: "saturating_add a 0 = a"
  by (simp add: saturating_add_def)

section \<open>State and errors\<close>

type_synonym ('s, 'e, 'a) comp = "'s \<Rightarrow> ('e + 'a) \<times> 's"

definition ret :: "'a \<Rightarrow> ('s, 'e, 'a) comp" where
  "ret x s = (Inr x, s)"

definition raise :: "'e \<Rightarrow> ('s, 'e, 'a) comp" where
  "raise e s = (Inl e, s)"

definition bindE :: "('s, 'e, 'a) comp \<Rightarrow> ('a \<Rightarrow> ('s, 'e, 'b) comp) \<Rightarrow> ('s, 'e, 'b) comp" where
  "bindE m k s = (case m s of (Inl e, s') \<Rightarrow> (Inl e, s') | (Inr x, s') \<Rightarrow> k x s')"

definition getsE :: "('s \<Rightarrow> 'a) \<Rightarrow> ('s, 'e, 'a) comp" where
  "getsE f s = (Inr (f s), s)"

definition modifyE :: "('s \<Rightarrow> 's) \<Rightarrow> ('s, 'e, unit) comp" where
  "modifyE f s = (Inr (), f s)"

text \<open>A call of an infallible function that returns a value and the new state.\<close>

definition runE :: "('s \<Rightarrow> 'a \<times> 's) \<Rightarrow> ('s, 'e, 'a) comp" where
  "runE f s = (case f s of (x, s') \<Rightarrow> (Inr x, s'))"

text \<open>The \<open>ensure!(b, e)\<close> macro and \<open>Option::ok_or(e)?\<close>.\<close>

definition ensureE :: "bool \<Rightarrow> 'e \<Rightarrow> ('s, 'e, unit) comp" where
  "ensureE b e s = (if b then (Inr (), s) else (Inl e, s))"

definition ok_or :: "'a option \<Rightarrow> 'e \<Rightarrow> ('s, 'e, 'a) comp" where
  "ok_or x e s = (case x of Some v \<Rightarrow> (Inr v, s) | None \<Rightarrow> (Inl e, s))"

definition liftR :: "'e + 'a \<Rightarrow> ('s, 'e, 'a) comp" where
  "liftR r s = (r, s)"

text \<open>A caller that inspects the \<open>Result\<close> instead of propagating the error.\<close>

definition attempt :: "('s, 'e, 'a) comp \<Rightarrow> 's \<Rightarrow> ('e + 'a) \<times> 's" where
  "attempt m s = m s"

lemma bindE_ret [monad]: "bindE (ret x) k s = k x s"
  by (simp add: bindE_def ret_def)

lemma bindE_raise [monad]: "bindE (raise e) k s = (Inl e, s)"
  by (simp add: bindE_def raise_def)

lemma bindE_gets [monad]: "bindE (getsE f) k s = k (f s) s"
  by (simp add: bindE_def getsE_def)

lemma bindE_modify [monad]: "bindE (modifyE f) k s = k () (f s)"
  by (simp add: bindE_def modifyE_def)

lemma bindE_run [monad]: "bindE (runE f) k s = (case f s of (x, s') \<Rightarrow> k x s')"
  by (simp add: bindE_def runE_def split: prod.split)

lemma bindE_ensure [monad]:
  "bindE (ensureE b e) k s = (if b then k () s else (Inl e, s))"
  by (simp add: bindE_def ensureE_def)

lemma bindE_ok_or [monad]:
  "bindE (ok_or x e) k s = (case x of Some v \<Rightarrow> k v s | None \<Rightarrow> (Inl e, s))"
  by (simp add: bindE_def ok_or_def split: option.split)

lemma bindE_liftR [monad]:
  "bindE (liftR r) k s = (case r of Inl e \<Rightarrow> (Inl e, s) | Inr x \<Rightarrow> k x s)"
  by (simp add: bindE_def liftR_def split: sum.split)

lemmas comp_defs [monad] = ret_def raise_def getsE_def modifyE_def runE_def ensureE_def ok_or_def
  liftR_def attempt_def

text \<open>Inversion of a sequence that returned a value, or that failed.\<close>

lemma bindE_eq_Inr:
  "bindE m k s = (Inr y, t) \<longleftrightarrow> (\<exists>x s'. m s = (Inr x, s') \<and> k x s' = (Inr y, t))"
  by (auto simp: bindE_def split: prod.splits sum.splits)

lemma bindE_eq_Inl:
  "bindE m k s = (Inl e, t) \<longleftrightarrow>
     m s = (Inl e, t) \<or> (\<exists>x s'. m s = (Inr x, s') \<and> k x s' = (Inl e, t))"
  by (auto simp: bindE_def split: prod.splits sum.splits)

lemma bindE_step: "m s = (Inr x, s') \<Longrightarrow> bindE m k s = k x s'"
  by (simp add: bindE_def)

lemma bindE_fail: "m s = (Inl e, s') \<Longrightarrow> bindE m k s = (Inl e, s')"
  by (simp add: bindE_def)

lemma not_Inl_unit [simp]: "(\<forall>e. (r :: 'e + unit) \<noteq> Inl e) \<longleftrightarrow> r = Inr ()"
  by (cases r) auto

lemma not_Inr_unit: "(r :: 'e + unit) \<noteq> Inr () \<longleftrightarrow> (\<exists>e. r = Inl e)"
  by (cases r) auto

section \<open>Sums over the values of a map\<close>

definition msum :: "('v \<Rightarrow> nat) \<Rightarrow> ('k \<Rightarrow> 'v option) \<Rightarrow> nat" where
  "msum f m = (\<Sum>k\<in>dom m. f (the (m k)))"

abbreviation val0 :: "('v \<Rightarrow> nat) \<Rightarrow> 'v option \<Rightarrow> nat" where
  "val0 f \<equiv> case_option 0 f"

lemma finite_dom_upd [simp]: "finite (dom (m(k := v))) \<longleftrightarrow> finite (dom m)"
proof -
  have "finite (dom (m(k := v)) - {k}) \<longleftrightarrow> finite (dom m - {k})"
    by (rule arg_cong [of _ _ finite]) auto
  then show ?thesis by simp
qed

lemma msum_superset:
  assumes "finite A" "dom m \<subseteq> A"
  shows "msum f m = (\<Sum>k\<in>A. val0 f (m k))"
proof -
  have "(\<Sum>k\<in>A. val0 f (m k)) = (\<Sum>k\<in>dom m. val0 f (m k))"
    using assms by (intro sum.mono_neutral_right) (auto simp: domIff)
  also have "\<dots> = msum f m"
    unfolding msum_def by (rule sum.cong) auto
  finally show ?thesis by simp
qed

lemma msum_split:
  assumes "finite (dom m)"
  shows "msum f m = val0 f (m k) + msum f (m(k := None))"
proof -
  have fin: "finite (insert k (dom m))" using assms by simp
  have "msum f m = (\<Sum>l\<in>insert k (dom m). val0 f (m l))"
    using fin by (intro msum_superset) auto
  also have "\<dots> = val0 f (m k) + (\<Sum>l\<in>dom m - {k}. val0 f (m l))"
    using assms by (simp add: sum.insert_remove)
  also have "(\<Sum>l\<in>dom m - {k}. val0 f (m l)) = (\<Sum>l\<in>dom m - {k}. val0 f ((m(k := None)) l))"
    by (rule sum.cong) auto
  also have "\<dots> = msum f (m(k := None))"
    using assms by (intro msum_superset [symmetric]) (auto split: if_splits)
  finally show ?thesis .
qed

lemma msum_upd:
  assumes "finite (dom m)"
  shows "msum f (m(k := v)) + val0 f (m k) = msum f m + val0 f v"
proof -
  have "msum f (m(k := v)) = val0 f v + msum f (m(k := None))"
    using msum_split [of "m(k := v)" f k] assms by (simp del: dom_fun_upd)
  with msum_split [OF assms, of f k] show ?thesis by simp
qed

lemma msum_ge: "finite (dom m) \<Longrightarrow> val0 f (m k) \<le> msum f m"
  using msum_split [of m f k] by simp

lemma msum_ge2:
  assumes "finite (dom m)" "k \<noteq> l"
  shows "val0 f (m k) + val0 f (m l) \<le> msum f m"
proof -
  have "val0 f ((m(k := None)) l) \<le> msum f (m(k := None))"
    using msum_ge [of "m(k := None)" f l] assms(1) by (simp del: dom_fun_upd fun_upd_apply)
  with msum_split [OF assms(1), of f k] assms(2) show ?thesis by simp
qed

end
