(* ===== verification/Storage.thy ===== *)
theory Storage
  imports Prelude
begin

text \<open>
  The storage maps of a pallet (\<open>frame/support/src/storage/generator/map.rs\<close>).

  A storage map is a field of the runtime state, given by its read function \<open>rd\<close> and its
  update function \<open>upd\<close> (for a record field \<open>x\<close> these are \<open>x\<close> and \<open>x_update\<close>). Each of the
  \<open>mutate\<close> family reads the value, runs a closure that may itself read and write the rest of
  the state, and writes the closure's value over whatever the closure left there.
  The locale \<open>storage_map\<close> is the contract of a read and an update function; the runtime
  interprets it for each of its maps.
\<close>

section \<open>The operations\<close>

definition storage_get :: "('s \<Rightarrow> 'k \<Rightarrow> 'v option) \<Rightarrow> 'v \<Rightarrow> 'k \<Rightarrow> 's \<Rightarrow> 'v" where
  "storage_get rd dflt k s = (case rd s k of None \<Rightarrow> dflt | Some v \<Rightarrow> v)"

definition storage_try_mutate_exists ::
  "('s \<Rightarrow> 'k \<Rightarrow> 'v option) \<Rightarrow> ((('k \<Rightarrow> 'v option) \<Rightarrow> ('k \<Rightarrow> 'v option)) \<Rightarrow> 's \<Rightarrow> 's) \<Rightarrow>
   'k \<Rightarrow> ('v option \<Rightarrow> ('s, 'e, 'r \<times> 'v option) comp) \<Rightarrow> ('s, 'e, 'r) comp" where
  "storage_try_mutate_exists rd upd k f s =
     (case f (rd s k) s of
        (Inl e, s') \<Rightarrow> (Inl e, s')
      | (Inr (r, v), s') \<Rightarrow> (Inr r, upd (\<lambda>m. m(k := v)) s'))"

definition storage_try_mutate ::
  "('s \<Rightarrow> 'k \<Rightarrow> 'v option) \<Rightarrow> ((('k \<Rightarrow> 'v option) \<Rightarrow> ('k \<Rightarrow> 'v option)) \<Rightarrow> 's \<Rightarrow> 's) \<Rightarrow> 'v \<Rightarrow>
   'k \<Rightarrow> ('v \<Rightarrow> ('s, 'e, 'r \<times> 'v) comp) \<Rightarrow> ('s, 'e, 'r) comp" where
  "storage_try_mutate rd upd dflt k f s =
     (case f (storage_get rd dflt k s) s of
        (Inl e, s') \<Rightarrow> (Inl e, s')
      | (Inr (r, v), s') \<Rightarrow> (Inr r, upd (\<lambda>m. m(k \<mapsto> v)) s'))"

definition storage_mutate_exists ::
  "('s \<Rightarrow> 'k \<Rightarrow> 'v option) \<Rightarrow> ((('k \<Rightarrow> 'v option) \<Rightarrow> ('k \<Rightarrow> 'v option)) \<Rightarrow> 's \<Rightarrow> 's) \<Rightarrow>
   'k \<Rightarrow> ('v option \<Rightarrow> 's \<Rightarrow> ('r \<times> 'v option) \<times> 's) \<Rightarrow> 's \<Rightarrow> 'r \<times> 's" where
  "storage_mutate_exists rd upd k f s =
     (case f (rd s k) s of ((r, v), s') \<Rightarrow> (r, upd (\<lambda>m. m(k := v)) s'))"

definition storage_mutate ::
  "('s \<Rightarrow> 'k \<Rightarrow> 'v option) \<Rightarrow> ((('k \<Rightarrow> 'v option) \<Rightarrow> ('k \<Rightarrow> 'v option)) \<Rightarrow> 's \<Rightarrow> 's) \<Rightarrow> 'v \<Rightarrow>
   'k \<Rightarrow> ('v \<Rightarrow> 's \<Rightarrow> ('r \<times> 'v) \<times> 's) \<Rightarrow> 's \<Rightarrow> 'r \<times> 's" where
  "storage_mutate rd upd dflt k f s =
     (case f (storage_get rd dflt k s) s of ((r, v), s') \<Rightarrow> (r, upd (\<lambda>m. m(k \<mapsto> v)) s'))"

section \<open>The contract of a map\<close>

locale storage_map =
  fixes rd :: "'s \<Rightarrow> 'k \<Rightarrow> 'v option"
    and upd :: "(('k \<Rightarrow> 'v option) \<Rightarrow> ('k \<Rightarrow> 'v option)) \<Rightarrow> 's \<Rightarrow> 's"
  assumes rd_upd: "rd (upd g s) = g (rd s)"
    and upd_upd: "upd g (upd h s) = upd (\<lambda>m. g (h m)) s"
    and upd_same: "g (rd s) = rd s \<Longrightarrow> upd g s = s"
begin

lemma get_after_put:
  "storage_get rd dflt k (upd (\<lambda>m. m(l := v)) s) =
     (if k = l then (case v of None \<Rightarrow> dflt | Some x \<Rightarrow> x) else storage_get rd dflt k s)"
  by (simp add: storage_get_def rd_upd)

lemma try_mutate_exists_Ok:
  assumes "storage_try_mutate_exists rd upd k f s = (Inr r, t)"
  obtains v s' where "f (rd s k) s = (Inr (r, v), s')"
    and "t = upd (\<lambda>m. m(k := v)) s'"
  using assms by (auto simp: storage_try_mutate_exists_def split: prod.splits sum.splits)

lemma try_mutate_exists_Err:
  "storage_try_mutate_exists rd upd k f s = (Inl e, t) \<longleftrightarrow> f (rd s k) s = (Inl e, t)"
  by (auto simp: storage_try_mutate_exists_def split: prod.splits sum.splits)

lemma try_mutate_Ok:
  assumes "storage_try_mutate rd upd dflt k f s = (Inr r, t)"
  obtains v s' where "f (storage_get rd dflt k s) s = (Inr (r, v), s')"
    and "t = upd (\<lambda>m. m(k \<mapsto> v)) s'"
  using assms by (auto simp: storage_try_mutate_def split: prod.splits sum.splits)

lemma try_mutate_Err:
  "storage_try_mutate rd upd dflt k f s = (Inl e, t) \<longleftrightarrow>
     f (storage_get rd dflt k s) s = (Inl e, t)"
  by (auto simp: storage_try_mutate_def split: prod.splits sum.splits)

end

end
