(* ===== verification/Bridge_Errors.thy ===== *)
theory Bridge_Errors
  imports Prelude
begin

text \<open>
  The errors of the bridge messages pallet (\<open>bridges/modules/messages\<close>) and of the proofs it
  verifies, which are part of the runtime's dispatch error.
\<close>

datatype storage_proof_error =
    UnableToGenerateTrieProof | InvalidProof | UnsortedEntries | UnavailableKey | EmptyVal
  | DecodeError | UnusedKey | StorageRootMismatch | StorageValueUnavailable | DuplicateNodes

datatype header_chain_error = UnknownHeader | HC_StorageProof storage_proof_error

datatype verification_error =
    EmptyMessageProof
  | VE_HeaderChain header_chain_error
  | VE_InboundLaneStorage storage_proof_error
  | InvalidMessageWeight
  | MessagesCountMismatch
  | VE_MessageStorage storage_proof_error
  | MessageTooLarge
  | VE_OutboundLaneStorage storage_proof_error
  | VE_StorageProof storage_proof_error
  | VE_Other string

datatype lanes_manager_error =
    InboundLaneAlreadyExists | OutboundLaneAlreadyExists | UnknownInboundLane | UnknownOutboundLane
  | ClosedInboundLane | ClosedOutboundLane | LaneDispatcherInactive

datatype reception_confirmation_error =
    FailedToConfirmFutureMessages | EmptyUnrewardedRelayerEntry
  | NonConsecutiveUnrewardedRelayerEntries | TryingToConfirmMoreMessagesThanExpected

datatype owned_bridge_module_error = BM_Halted

datatype messages_error =
    NotOperatingNormally
  | LanesManager lanes_manager_error
  | MessageRejectedByPallet verification_error
  | TooManyMessagesInTheProof
  | InvalidMessagesProof
  | InvalidMessagesDeliveryProof
  | InvalidUnrewardedRelayersState
  | InsufficientDispatchWeight
  | ReceptionConfirmation reception_confirmation_error
  | BridgeModule owned_bridge_module_error

end
