(* ===== verification/Tokens.thy ===== *)
theory Tokens
  imports Bridge_Errors
begin

text \<open>
  The vocabulary of token operations: the enumerations of
  \<open>frame/support/src/traits/tokens/misc.rs\<close> with their conversions to dispatch results, the
  error types of \<open>sp_runtime\<close>, the data types of the balances pallet
  (\<open>frame/balances/src/types.rs\<close>), the event and error enumerations of the pallets, and the
  imbalances (credits and debts). \<open>T::Balance\<close> is \<open>u128\<close> and the hold, freeze and reserve
  identifiers, which are variant indices of an enumeration generated by the runtime, are
  natural numbers.
\<close>

type_synonym balance = u128

section \<open>Errors\<close>

datatype token_error =
    TE_FundsUnavailable | TE_OnlyProvider | TE_BelowMinimum | TE_CannotCreate
  | TE_UnknownAsset | TE_Frozen | TE_Unsupported | TE_CannotCreateHold
  | TE_NotExpendable | TE_Blocked

datatype arithmetic_error = AE_Underflow | AE_Overflow | AE_DivisionByZero

text \<open>The error enumeration of the balances pallet.\<close>

datatype balances_error =
    VestingBalance | LiquidityRestrictions | InsufficientBalance | ExistentialDeposit
  | Expendability | ExistingVestingSchedule | DeadAccount | TooManyReserves
  | TooManyHolds | TooManyFreezes | IssuanceDeactivated | DeltaZero

datatype transactional_error = LimitReached | NoLayer

text \<open>\<open>ModuleError\<close> carries the error of one pallet: the balances or the messages pallet.\<close>

datatype dispatch_error =
    DE_Other string
  | DE_CannotLookup
  | DE_BadOrigin
  | DE_Module balances_error
  | DE_Messages messages_error
  | DE_ConsumerRemaining
  | DE_NoProviders
  | DE_TooManyConsumers
  | DE_Token token_error
  | DE_Arithmetic arithmetic_error
  | DE_Transactional transactional_error
  | DE_Exhausted
  | DE_Corruption
  | DE_Unavailable
  | DE_RootNotAllowed

section \<open>Parameters and consequences of token operations\<close>

datatype provenance = Minted | Extant
datatype restriction = R_Free | R_OnHold
datatype preservation = Expendable | Protect | Preserve
datatype fortitude = Polite | Force
datatype precision = Exact | BestEffort
datatype existence_requirement = KeepAlive | AllowDeath
datatype balance_status = S_Free | S_Reserved

datatype withdraw_consequence =
    WC_BalanceLow | WC_WouldDie | WC_UnknownAsset | WC_Underflow | WC_Overflow
  | WC_Frozen | WC_ReducedToZero balance | WC_Success

fun withdraw_into_result :: "withdraw_consequence \<Rightarrow> bool \<Rightarrow> dispatch_error + balance" where
  "withdraw_into_result WC_BalanceLow keep_nonzero = Inl (DE_Token TE_FundsUnavailable)"
| "withdraw_into_result WC_WouldDie keep_nonzero = Inl (DE_Token TE_OnlyProvider)"
| "withdraw_into_result WC_UnknownAsset keep_nonzero = Inl (DE_Token TE_UnknownAsset)"
| "withdraw_into_result WC_Underflow keep_nonzero = Inl (DE_Arithmetic AE_Underflow)"
| "withdraw_into_result WC_Overflow keep_nonzero = Inl (DE_Arithmetic AE_Overflow)"
| "withdraw_into_result WC_Frozen keep_nonzero = Inl (DE_Token TE_Frozen)"
| "withdraw_into_result (WC_ReducedToZero result) keep_nonzero =
     (if keep_nonzero then Inl (DE_Token TE_NotExpendable) else Inr result)"
| "withdraw_into_result WC_Success keep_nonzero = Inr 0"

datatype deposit_consequence =
    DC_BelowMinimum | DC_CannotCreate | DC_UnknownAsset | DC_Overflow | DC_Success | DC_Blocked

fun deposit_into_result :: "deposit_consequence \<Rightarrow> dispatch_error + unit" where
  "deposit_into_result DC_BelowMinimum = Inl (DE_Token TE_BelowMinimum)"
| "deposit_into_result DC_CannotCreate = Inl (DE_Token TE_CannotCreate)"
| "deposit_into_result DC_UnknownAsset = Inl (DE_Token TE_UnknownAsset)"
| "deposit_into_result DC_Overflow = Inl (DE_Arithmetic AE_Overflow)"
| "deposit_into_result DC_Blocked = Inl (DE_Token TE_Blocked)"
| "deposit_into_result DC_Success = Inr ()"

lemma deposit_into_result_Inr: "deposit_into_result c = Inr u \<longleftrightarrow> c = DC_Success"
  by (cases c) auto

text \<open>The bit flags \<open>WithdrawReasons\<close>.\<close>

type_synonym withdraw_reasons = u8

definition TRANSACTION_PAYMENT :: withdraw_reasons where "TRANSACTION_PAYMENT = 1"
definition TRANSFER :: withdraw_reasons where "TRANSFER = 2"
definition RESERVE :: withdraw_reasons where "RESERVE = 4"
definition FEE :: withdraw_reasons where "FEE = 8"
definition TIP :: withdraw_reasons where "TIP = 16"

unbundle bit_operations_syntax

definition withdraw_reasons_all :: withdraw_reasons where
  "withdraw_reasons_all = TRANSACTION_PAYMENT OR TRANSFER OR RESERVE OR FEE OR TIP"

definition withdraw_reasons_contains :: "withdraw_reasons \<Rightarrow> withdraw_reasons \<Rightarrow> bool" where
  "withdraw_reasons_contains r other \<longleftrightarrow> r AND other = other"

definition withdraw_reasons_except :: "withdraw_reasons \<Rightarrow> withdraw_reasons" where
  "withdraw_reasons_except one = withdraw_reasons_all XOR one"

section \<open>The types of the balances pallet\<close>

datatype reasons = Reasons_Fee | Reasons_Misc | Reasons_All

definition reasons_from :: "withdraw_reasons \<Rightarrow> reasons" where
  "reasons_from r =
     (if r = TRANSACTION_PAYMENT then Reasons_Fee
      else if withdraw_reasons_contains r TRANSACTION_PAYMENT then Reasons_All
      else Reasons_Misc)"

definition reasons_bitor :: "reasons \<Rightarrow> reasons \<Rightarrow> reasons" where
  "reasons_bitor self other = (if self = other then self else Reasons_All)"

type_synonym lock_identifier = "u8 list"
type_synonym hold_reason = nat
type_synonym freeze_id = nat
type_synonym reserve_id = nat

record balance_lock =
  lock_id :: lock_identifier
  lock_amount :: balance
  lock_reasons :: reasons

record reserve_data =
  reserve_id :: reserve_id
  reserve_amount :: balance

text \<open>\<open>IdAmount\<close>: a hold or a freeze.\<close>

record id_amount =
  ia_id :: nat
  ia_amount :: balance

record account_data =
  free :: balance
  reserved :: balance
  frozen :: balance
  flags :: u128

definition IS_NEW_LOGIC :: u128 where
  "IS_NEW_LOGIC = 0x80000000000000000000000000000000"

definition extra_flags_default :: u128 where
  "extra_flags_default = IS_NEW_LOGIC"

definition old_logic :: u128 where
  "old_logic = 0"

definition set_new_logic :: "u128 \<Rightarrow> u128" where
  "set_new_logic f = f OR IS_NEW_LOGIC"

definition is_new_logic :: "u128 \<Rightarrow> bool" where
  "is_new_logic f \<longleftrightarrow> f AND IS_NEW_LOGIC = IS_NEW_LOGIC"

definition account_data_default :: account_data where
  "account_data_default = \<lparr>free = 0, reserved = 0, frozen = 0, flags = extra_flags_default\<rparr>"

definition usable :: "account_data \<Rightarrow> balance" where
  "usable a = saturating_sub (free a) (frozen a)"

definition total :: "account_data \<Rightarrow> balance" where
  "total a = saturating_add (free a) (reserved a)"

datatype adjustment_direction = Increase | Decrease

lemma is_new_logic_set: "is_new_logic (set_new_logic f)"
  unfolding is_new_logic_def set_new_logic_def
  by (simp add: bit_eq_iff bit_simps)

lemma is_new_logic_default [simp]: "is_new_logic extra_flags_default"
  by (simp add: is_new_logic_def extra_flags_default_def)

lemma not_new_logic_old [simp]: "\<not> is_new_logic old_logic"
  by (simp add: is_new_logic_def old_logic_def IS_NEW_LOGIC_def)

section \<open>Events\<close>

datatype 'a system_event = NewAccount 'a | KilledAccount 'a

datatype unexpected_kind = BalanceUpdated | FailedToMutateAccount

datatype 'a balances_event =
    Ev_Endowed 'a balance
  | Ev_DustLost 'a balance
  | Ev_Transfer 'a 'a balance
  | Ev_BalanceSet 'a balance
  | Ev_Reserved 'a balance
  | Ev_Unreserved 'a balance
  | Ev_ReserveRepatriated 'a 'a balance balance_status
  | Ev_Deposit 'a balance
  | Ev_Withdraw 'a balance
  | Ev_Slashed 'a balance
  | Ev_Minted 'a balance
  | Ev_MintedCredit balance
  | Ev_Burned 'a balance
  | Ev_BurnedDebt balance
  | Ev_Suspended 'a balance
  | Ev_Restored 'a balance
  | Ev_Upgraded 'a
  | Ev_Issued balance
  | Ev_Rescinded balance
  | Ev_Locked 'a balance
  | Ev_Unlocked 'a balance
  | Ev_Frozen 'a balance
  | Ev_Thawed 'a balance
  | Ev_TotalIssuanceForced balance balance
  | Ev_Held hold_reason 'a balance
  | Ev_BurnedHeld hold_reason 'a balance
  | Ev_TransferOnHold hold_reason 'a 'a balance
  | Ev_TransferAndHold hold_reason 'a 'a balance
  | Ev_Released hold_reason 'a balance
  | Ev_Unexpected unexpected_kind

datatype 'a runtime_event = System "'a system_event" | Balances "'a balances_event"

end
