(* ===== verification/Runtime.thy ===== *)
theory Runtime
  imports Storage Tokens
begin

text \<open>
  The state of a runtime made of the system pallet and the balances pallet, its events and
  its transactional layers.

  \<open>runtime\<close> holds the storage items of \<open>frame/system/src/lib.rs\<close> that accounts and events
  use and those of \<open>frame/balances/src/lib.rs\<close>, with the pallet configured as in the
  runtimes of the repository: \<open>AccountStore = System\<close> (an account's balances are the \<open>data\<close>
  of its \<open>AccountInfo\<close>). It is an extensible record, so that further pallets add their items.
  \<open>config\<close> holds the constants and hooks the two pallets take from their \<open>Config\<close> traits:
  the hooks are code of other crates and are parameters here.
\<close>

section \<open>State and configuration\<close>

record account_info =
  nonce :: u32
  consumers :: u32
  providers :: u32
  sufficients :: u32
  data :: account_data

definition account_info_default :: account_info where
  "account_info_default =
     \<lparr>nonce = 0, consumers = 0, providers = 0, sufficients = 0, data = account_data_default\<rparr>"

datatype phase = ApplyExtrinsic u32 | Finalization | Initialization

record 'a runtime =
  account_map :: "'a \<Rightarrow> account_info option"
  block_number :: u32
  execution_phase :: "phase option"
  event_count :: u32
  events :: "(phase \<times> 'a runtime_event) list"
  transaction_level :: u32
  total_issuance :: balance
  inactive_issuance :: balance
  locks_map :: "'a \<Rightarrow> balance_lock list option"
  reserves_map :: "'a \<Rightarrow> reserve_data list option"
  holds_map :: "'a \<Rightarrow> id_amount list option"
  freezes_map :: "'a \<Rightarrow> id_amount list option"

record ('a, 's) config =
  max_consumers :: u32
  on_new_account :: "'a \<Rightarrow> 's \<Rightarrow> 's"
  on_killed_account_hook :: "'a \<Rightarrow> 's \<Rightarrow> 's"
  existential_deposit :: balance
  max_locks :: u32
  max_reserves :: u32
  hold_variant_count :: nat
  freeze_variant_count :: nat
  dust_removal :: "balance \<Rightarrow> 's \<Rightarrow> 's"
  done_slash_handler :: "hold_reason \<Rightarrow> 'a \<Rightarrow> balance \<Rightarrow> 's \<Rightarrow> 's"

type_synonym ('a, 'm) cfg = "('a, ('a, 'm) runtime_scheme) config"

interpretation accounts: storage_map account_map account_map_update
  by unfold_locales (simp_all add: comp_def runtime.equality)

interpretation locks: storage_map locks_map locks_map_update
  by unfold_locales (simp_all add: comp_def runtime.equality)

interpretation reserves: storage_map reserves_map reserves_map_update
  by unfold_locales (simp_all add: comp_def runtime.equality)

interpretation holds: storage_map holds_map holds_map_update
  by unfold_locales (simp_all add: comp_def runtime.equality)

interpretation freezes: storage_map freezes_map freezes_map_update
  by unfold_locales (simp_all add: comp_def runtime.equality)

section \<open>Events\<close>

text \<open>
  \<open>deposit_event\<close> is \<open>deposit_event_indexed\<close> without topics: nothing is recorded at the
  genesis block, nor once the counter of the block is exhausted.
\<close>

definition deposit_event :: "'a runtime_event \<Rightarrow> ('a, 'm) runtime_scheme \<Rightarrow> ('a, 'm) runtime_scheme" where
  "deposit_event event s =
     (if block_number s = 0 then s
      else
        let phase = (case execution_phase s of None \<Rightarrow> Initialization | Some p \<Rightarrow> p)
        in case checked_add (event_count s) 1 of
             None \<Rightarrow> s
           | Some new_event_count \<Rightarrow>
               s\<lparr>event_count := new_event_count, events := events s @ [(phase, event)]\<rparr>)"

text \<open>
  \<open>core\<close> forgets the event record: two states with the same core differ only in what was
  logged. Every fact about balances, references and issuance is a fact about the core.
\<close>

definition core :: "('a, 'm) runtime_scheme \<Rightarrow> ('a, 'm) runtime_scheme" where
  "core s = s\<lparr>event_count := 0, events := []\<rparr>"

lemma core_deposit_event [simp]: "core (deposit_event ev s) = core s"
  by (simp add: core_def deposit_event_def Let_def split: option.split)

lemma core_core [simp]: "core (core s) = core s"
  by (simp add: core_def)

lemma core_fields [simp]:
  "account_map (core s) = account_map s"
  "total_issuance (core s) = total_issuance s"
  "inactive_issuance (core s) = inactive_issuance s"
  "locks_map (core s) = locks_map s"
  "reserves_map (core s) = reserves_map s"
  "holds_map (core s) = holds_map s"
  "freezes_map (core s) = freezes_map s"
  "transaction_level (core s) = transaction_level s"
  "block_number (core s) = block_number s"
  by (simp_all add: core_def)

lemma core_eqD:
  assumes "core s = core t"
  shows "account_map s = account_map t" "total_issuance s = total_issuance t"
    "inactive_issuance s = inactive_issuance t" "locks_map s = locks_map t"
    "reserves_map s = reserves_map t" "holds_map s = holds_map t"
    "freezes_map s = freezes_map t" "transaction_level s = transaction_level t"
    "block_number s = block_number t"
  using assms core_fields by metis+

lemma deposit_event_fields [simp]:
  "account_map (deposit_event ev s) = account_map s"
  "total_issuance (deposit_event ev s) = total_issuance s"
  "inactive_issuance (deposit_event ev s) = inactive_issuance s"
  "locks_map (deposit_event ev s) = locks_map s"
  "reserves_map (deposit_event ev s) = reserves_map s"
  "holds_map (deposit_event ev s) = holds_map s"
  "freezes_map (deposit_event ev s) = freezes_map s"
  "transaction_level (deposit_event ev s) = transaction_level s"
  "block_number (deposit_event ev s) = block_number s"
  using core_eqD [OF core_deposit_event [of ev s]] by simp_all

section \<open>Transactional layers\<close>

definition TRANSACTIONAL_LIMIT :: u32 where
  "TRANSACTIONAL_LIMIT = 255"

definition inc_transaction_level :: "(('a, 'm) runtime_scheme, unit, unit) comp" where
  "inc_transaction_level s =
     (let existing_levels = transaction_level s in
      if TRANSACTIONAL_LIMIT \<le> existing_levels then (Inl (), s)
      else (Inr (), s\<lparr>transaction_level := existing_levels + 1\<rparr>))"

definition dec_transaction_level :: "('a, 'm) runtime_scheme \<Rightarrow> ('a, 'm) runtime_scheme" where
  "dec_transaction_level s =
     (let existing_levels = transaction_level s in
      if existing_levels = 0 then s
      else if existing_levels = 1 then s\<lparr>transaction_level := 0\<rparr>
      else s\<lparr>transaction_level := existing_levels - 1\<rparr>)"

definition is_transactional :: "('a, 'm) runtime_scheme \<Rightarrow> bool" where
  "is_transactional s \<longleftrightarrow> 0 < transaction_level s"

datatype 'r transaction_outcome = Commit 'r | Rollback 'r

text \<open>
  \<open>with_transaction\<close>: the level is raised before the layer is opened, so a rollback keeps it,
  and the guard lowers it when it goes out of scope.
\<close>

definition with_transaction ::
  "(('a, 'm) runtime_scheme \<Rightarrow> (dispatch_error + 'r) transaction_outcome \<times> ('a, 'm) runtime_scheme) \<Rightarrow>
   (('a, 'm) runtime_scheme, dispatch_error, 'r) comp" where
  "with_transaction f s =
     (case inc_transaction_level s of
        (Inl _, s1) \<Rightarrow> (Inl (DE_Transactional LimitReached), s1)
      | (Inr _, s1) \<Rightarrow>
          (case f s1 of
             (Commit res, s2) \<Rightarrow> (res, dec_transaction_level s2)
           | (Rollback res, _) \<Rightarrow> (res, dec_transaction_level s1)))"

definition with_storage_layer ::
  "(('a, 'm) runtime_scheme, dispatch_error, 'r) comp \<Rightarrow>
   (('a, 'm) runtime_scheme, dispatch_error, 'r) comp" where
  "with_storage_layer f =
     with_transaction (\<lambda>s. case f s of
        (Inr x, s') \<Rightarrow> (Commit (Inr x), s') | (Inl e, s') \<Rightarrow> (Rollback (Inl e), s'))"

definition in_storage_layer ::
  "(('a, 'm) runtime_scheme, dispatch_error, 'r) comp \<Rightarrow>
   (('a, 'm) runtime_scheme, dispatch_error, 'r) comp" where
  "in_storage_layer f s = (if is_transactional s then f s else with_storage_layer f s)"

text \<open>A storage layer that fails leaves no trace.\<close>

lemma level_back:
  assumes "transaction_level u = transaction_level s + 1" "transaction_level s < TRANSACTIONAL_LIMIT"
  shows "dec_transaction_level u = u\<lparr>transaction_level := transaction_level s\<rparr>"
proof -
  have "transaction_level s + 1 \<noteq> 0"
    using assms(2) by (simp add: TRANSACTIONAL_LIMIT_def word_less_nat_alt word_unat_eq_iff unat_word_ariths)
  then show ?thesis using assms(1) by (auto simp: dec_transaction_level_def Let_def)
qed

lemma dec_inc_level:
  "transaction_level s < TRANSACTIONAL_LIMIT \<Longrightarrow>
    dec_transaction_level (s\<lparr>transaction_level := transaction_level s + 1\<rparr>) = s"
  using level_back [of "s\<lparr>transaction_level := transaction_level s + 1\<rparr>" s] by simp

lemma storage_layer_error: "with_storage_layer m s = (Inl e, t) \<Longrightarrow> t = s"
  by (auto simp: with_storage_layer_def with_transaction_def inc_transaction_level_def Let_def dec_inc_level
      not_le split: if_splits prod.splits sum.splits transaction_outcome.splits)

lemma storage_layer_Ok:
  assumes "with_storage_layer m s = (Inr x, t)"
  obtains u where "m (s\<lparr>transaction_level := transaction_level s + 1\<rparr>) = (Inr x, u)" "t = dec_transaction_level u"
    "transaction_level s < TRANSACTIONAL_LIMIT"
  using assms
  by (auto simp: with_storage_layer_def with_transaction_def inc_transaction_level_def Let_def not_le
      split: if_splits prod.splits sum.splits transaction_outcome.splits)

lemma storage_layer_run:
  assumes "m (s\<lparr>transaction_level := transaction_level s + 1\<rparr>) = (Inr x, u)"
    "transaction_level s < TRANSACTIONAL_LIMIT"
  shows "with_storage_layer m s = (Inr x, dec_transaction_level u)"
  using assms by (simp add: with_storage_layer_def with_transaction_def inc_transaction_level_def Let_def)

end
