(* ===== verification/Accounts.thy ===== *)
theory Accounts
  imports Runtime
begin

text \<open>
  Account references of the system pallet (\<open>frame/system/src/lib.rs\<close>): the provider, consumer
  and sufficient counters that decide when an account may be reaped, and the \<open>StoredMap\<close>
  through which the balances pallet keeps its data in an account.

  The section on contracts states, as locales, what the balances pallet relies on: the hooks
  of the configuration leave the storage of the two pallets alone (\<open>account_hooks\<close>).
\<close>

section \<open>Reading an account\<close>

definition account_get :: "'a \<Rightarrow> ('a, 'm) runtime_scheme \<Rightarrow> account_info" where
  "account_get who s = storage_get account_map account_info_default who s"

definition providers_of :: "'a \<Rightarrow> ('a, 'm) runtime_scheme \<Rightarrow> u32" where
  "providers_of who s = providers (account_get who s)"

definition sufficients_of :: "'a \<Rightarrow> ('a, 'm) runtime_scheme \<Rightarrow> u32" where
  "sufficients_of who s = sufficients (account_get who s)"

definition consumers_of :: "'a \<Rightarrow> ('a, 'm) runtime_scheme \<Rightarrow> u32" where
  "consumers_of who s = consumers (account_get who s)"

definition reference_count :: "'a \<Rightarrow> ('a, 'm) runtime_scheme \<Rightarrow> u32" where
  "reference_count who s =
     (let a = account_get who s in providers a + sufficients a)"

definition is_provider_required :: "'a \<Rightarrow> ('a, 'm) runtime_scheme \<Rightarrow> bool" where
  "is_provider_required who s \<longleftrightarrow> consumers (account_get who s) \<noteq> 0"

definition can_dec_provider :: "'a \<Rightarrow> ('a, 'm) runtime_scheme \<Rightarrow> bool" where
  "can_dec_provider who s \<longleftrightarrow>
     (let a = account_get who s in consumers a = 0 \<or> 1 < providers a)"

definition can_accrue_consumers :: "('a, 'm) cfg \<Rightarrow> 'a \<Rightarrow> u32 \<Rightarrow> ('a, 'm) runtime_scheme \<Rightarrow> bool" where
  "can_accrue_consumers cfg who amount s \<longleftrightarrow>
     (let a = account_get who s in
      case checked_add (consumers a) amount of
        Some c \<Rightarrow> 0 < providers a \<and> c \<le> max_consumers cfg
      | None \<Rightarrow> False)"

definition can_inc_consumer :: "('a, 'm) cfg \<Rightarrow> 'a \<Rightarrow> ('a, 'm) runtime_scheme \<Rightarrow> bool" where
  "can_inc_consumer cfg who s = can_accrue_consumers cfg who 1 s"

section \<open>Changing the references\<close>

datatype inc_ref_status = Created | Existed
datatype dec_ref_status = Reaped | Exists

definition on_created_account :: "('a, 'm) cfg \<Rightarrow> 'a \<Rightarrow> ('a, 'm) runtime_scheme \<Rightarrow> ('a, 'm) runtime_scheme" where
  "on_created_account cfg who s = deposit_event (System (NewAccount who)) (on_new_account cfg who s)"

definition on_killed_account :: "('a, 'm) cfg \<Rightarrow> 'a \<Rightarrow> ('a, 'm) runtime_scheme \<Rightarrow> ('a, 'm) runtime_scheme" where
  "on_killed_account cfg who s =
     deposit_event (System (KilledAccount who)) (on_killed_account_hook cfg who s)"

definition inc_providers :: "('a, 'm) cfg \<Rightarrow> 'a \<Rightarrow> ('a, 'm) runtime_scheme \<Rightarrow> inc_ref_status \<times> ('a, 'm) runtime_scheme" where
  "inc_providers cfg who =
     storage_mutate account_map account_map_update account_info_default who
       (\<lambda>a s. if providers a = 0 \<and> sufficients a = 0
              then ((Created, a\<lparr>providers := 1\<rparr>), on_created_account cfg who s)
              else ((Existed, a\<lparr>providers := saturating_add (providers a) 1\<rparr>), s))"

definition dec_providers :: "('a, 'm) cfg \<Rightarrow> 'a \<Rightarrow> (('a, 'm) runtime_scheme, dispatch_error, dec_ref_status) comp" where
  "dec_providers cfg who =
     storage_try_mutate_exists account_map account_map_update who
       (\<lambda>maybe_account s.
          case maybe_account of
            None \<Rightarrow> (Inr (Reaped, None), s)
          | Some account0 \<Rightarrow>
              let account = (if providers account0 = 0 then account0\<lparr>providers := 1\<rparr> else account0)
              in if providers account = 1 \<and> consumers account = 0 \<and> sufficients account = 0
                 then (Inr (Reaped, None), on_killed_account cfg who s)
                 else if providers account = 1 \<and> 0 < consumers account
                 then (Inl DE_ConsumerRemaining, s)
                 else (Inr (Exists, Some (account\<lparr>providers := providers account - 1\<rparr>)), s))"

definition inc_sufficients :: "('a, 'm) cfg \<Rightarrow> 'a \<Rightarrow> ('a, 'm) runtime_scheme \<Rightarrow> inc_ref_status \<times> ('a, 'm) runtime_scheme" where
  "inc_sufficients cfg who =
     storage_mutate account_map account_map_update account_info_default who
       (\<lambda>a s. if providers a + sufficients a = 0
              then ((Created, a\<lparr>sufficients := 1\<rparr>), on_created_account cfg who s)
              else ((Existed, a\<lparr>sufficients := saturating_add (sufficients a) 1\<rparr>), s))"

definition dec_sufficients :: "('a, 'm) cfg \<Rightarrow> 'a \<Rightarrow> ('a, 'm) runtime_scheme \<Rightarrow> dec_ref_status \<times> ('a, 'm) runtime_scheme" where
  "dec_sufficients cfg who =
     storage_mutate_exists account_map account_map_update who
       (\<lambda>maybe_account s.
          case maybe_account of
            None \<Rightarrow> ((Reaped, None), s)
          | Some account \<Rightarrow>
              if (sufficients account = 0 \<or> sufficients account = 1) \<and> providers account = 0
              then ((Reaped, None), on_killed_account cfg who s)
              else ((Exists, Some (account\<lparr>sufficients := saturating_sub (sufficients account) 1\<rparr>)), s))"

definition inc_consumers :: "('a, 'm) cfg \<Rightarrow> 'a \<Rightarrow> (('a, 'm) runtime_scheme, dispatch_error, unit) comp" where
  "inc_consumers cfg who =
     storage_try_mutate account_map account_map_update account_info_default who
       (\<lambda>a s. if 0 < providers a
              then if consumers a < max_consumers cfg
                   then (Inr ((), a\<lparr>consumers := saturating_add (consumers a) 1\<rparr>), s)
                   else (Inl DE_TooManyConsumers, s)
              else (Inl DE_NoProviders, s))"

definition inc_consumers_without_limit :: "'a \<Rightarrow> (('a, 'm) runtime_scheme, dispatch_error, unit) comp" where
  "inc_consumers_without_limit who =
     storage_try_mutate account_map account_map_update account_info_default who
       (\<lambda>a s. if 0 < providers a
              then (Inr ((), a\<lparr>consumers := saturating_add (consumers a) 1\<rparr>), s)
              else (Inl DE_NoProviders, s))"

definition dec_consumers :: "'a \<Rightarrow> ('a, 'm) runtime_scheme \<Rightarrow> ('a, 'm) runtime_scheme" where
  "dec_consumers who s =
     snd (storage_mutate account_map account_map_update account_info_default who
            (\<lambda>a s. if 0 < consumers a then (((), a\<lparr>consumers := consumers a - 1\<rparr>), s)
                   else (((), a), s)) s)"

definition inc_account_nonce :: "'a \<Rightarrow> ('a, 'm) runtime_scheme \<Rightarrow> ('a, 'm) runtime_scheme" where
  "inc_account_nonce who s =
     snd (storage_mutate account_map account_map_update account_info_default who
            (\<lambda>a s. (((), a\<lparr>nonce := nonce a + 1\<rparr>), s)) s)"

section \<open>The account store\<close>

definition store_get :: "'a \<Rightarrow> ('a, 'm) runtime_scheme \<Rightarrow> account_data" where
  "store_get k s = data (account_get k s)"

definition store_try_mutate_exists ::
  "'a \<Rightarrow> (account_data option \<Rightarrow> (('a, 'm) runtime_scheme, 'e, 'r \<times> account_data option) comp) \<Rightarrow>
   (('a, 'm) runtime_scheme, 'e, 'r) comp" where
  "store_try_mutate_exists k f s =
     (let account = account_get k s;
          is_default = (data account = account_data_default);
          some_data = (if is_default then None else Some (data account))
      in case f some_data s of
           (Inl e, s1) \<Rightarrow> (Inl e, s1)
         | (Inr (result, some_data'), s1) \<Rightarrow>
             (Inr result,
              if 0 < providers_of k s1 \<or> 0 < sufficients_of k s1
              then snd (storage_mutate account_map account_map_update account_info_default k
                     (\<lambda>a s. (((), a\<lparr>data := (case some_data' of None \<Rightarrow> account_data_default | Some d \<Rightarrow> d)\<rparr>), s)) s1)
              else s1\<lparr>account_map := (account_map s1)(k := None)\<rparr>))"

definition store_mutate ::
  "'a \<Rightarrow> (account_data \<Rightarrow> 'r \<times> account_data) \<Rightarrow> (('a, 'm) runtime_scheme, dispatch_error, 'r) comp" where
  "store_mutate k f =
     store_try_mutate_exists k
       (\<lambda>maybe_account s.
          case maybe_account of
            Some account \<Rightarrow> (case f account of (r, account') \<Rightarrow> (Inr (r, Some account'), s))
          | None \<Rightarrow> (case f account_data_default of (r, account') \<Rightarrow> (Inr (r, Some account'), s)))"

definition store_insert :: "'a \<Rightarrow> account_data \<Rightarrow> (('a, 'm) runtime_scheme, dispatch_error, unit) comp" where
  "store_insert k t = store_mutate k (\<lambda>_. ((), t))"

section \<open>Facts about single accounts\<close>

definition put_account ::
  "'a \<Rightarrow> account_info option \<Rightarrow> ('a, 'm) runtime_scheme \<Rightarrow> ('a, 'm) runtime_scheme" where
  "put_account who v s = s\<lparr>account_map := (account_map s)(who := v)\<rparr>"

lemma account_map_put [simp]: "account_map (put_account who v s) = (account_map s)(who := v)"
  by (simp add: put_account_def)

lemma put_account_fields [simp]:
  "total_issuance (put_account who v s) = total_issuance s"
  "inactive_issuance (put_account who v s) = inactive_issuance s"
  "locks_map (put_account who v s) = locks_map s"
  "reserves_map (put_account who v s) = reserves_map s"
  "holds_map (put_account who v s) = holds_map s"
  "freezes_map (put_account who v s) = freezes_map s"
  "transaction_level (put_account who v s) = transaction_level s"
  "block_number (put_account who v s) = block_number s"
  by (simp_all add: put_account_def)

lemma core_put [simp]: "core (put_account who v s) = put_account who v (core s)"
  by (rule runtime.equality) (simp_all add: put_account_def core_def)

lemma put_put [simp]: "put_account who v (put_account who w s) = put_account who v s"
  by (simp add: put_account_def)

lemma account_get_put:
  "account_get k (put_account who v s) =
     (if k = who then case v of None \<Rightarrow> account_info_default | Some a \<Rightarrow> a else account_get k s)"
  by (simp add: account_get_def storage_get_def)

lemma account_get_core [simp]: "account_get k (core s) = account_get k s"
  by (simp add: account_get_def storage_get_def)

lemma account_get_event [simp]: "account_get k (deposit_event ev s) = account_get k s"
  by (simp add: account_get_def storage_get_def)

lemma account_get_cong: "core s = core t \<Longrightarrow> account_get k s = account_get k t"
  by (metis account_get_core)

lemma upd_eq_put: "s\<lparr>account_map := (account_map s)(who := v)\<rparr> = put_account who v s"
  "account_map_update (\<lambda>m. m(who := v)) s = put_account who v s"
  by (simp_all add: put_account_def)

lemmas account_reads = providers_of_def sufficients_of_def consumers_of_def store_get_def

lemma dec_consumers_eq:
  "dec_consumers who s =
     put_account who (Some (let a = account_get who s in
       if 0 < consumers a then a\<lparr>consumers := consumers a - 1\<rparr> else a)) s"
  by (simp add: dec_consumers_def storage_mutate_def upd_eq_put account_get_def [symmetric] Let_def)

lemma inc_consumers_without_limit_eq:
  "inc_consumers_without_limit who s =
     (let a = account_get who s in
      if 0 < providers a
      then (Inr (), put_account who (Some (a\<lparr>consumers := saturating_add (consumers a) 1\<rparr>)) s)
      else (Inl DE_NoProviders, s))"
  by (simp add: inc_consumers_without_limit_def storage_try_mutate_def upd_eq_put
      account_get_def [symmetric] Let_def)

lemma inc_consumers_eq:
  "inc_consumers cfg who s =
     (let a = account_get who s in
      if 0 < providers a then
        if consumers a < max_consumers cfg
        then (Inr (), put_account who (Some (a\<lparr>consumers := saturating_add (consumers a) 1\<rparr>)) s)
        else (Inl DE_TooManyConsumers, s)
      else (Inl DE_NoProviders, s))"
  by (simp add: inc_consumers_def storage_try_mutate_def upd_eq_put
      account_get_def [symmetric] Let_def)

section \<open>The contract of the account hooks\<close>

text \<open>
  The hooks may deposit events, but change nothing else of the state: neither the accounts and
  balances nor the part of the state that stands for the other modules.
\<close>

locale account_hooks =
  fixes cfg :: "('a, 'm) cfg"
  assumes new_account_core: "core (on_new_account cfg who s) = core s"
    and killed_account_core: "core (on_killed_account_hook cfg who s) = core s"
begin

lemma created_core [simp]: "core (on_created_account cfg who s) = core s"
  by (simp add: on_created_account_def new_account_core)

lemma killed_core [simp]: "core (on_killed_account cfg who s) = core s"
  by (simp add: on_killed_account_def killed_account_core)

lemma inc_providers_core:
  "core (snd (inc_providers cfg who s)) =
     put_account who (Some (let a = account_get who s in
       a\<lparr>providers := saturating_add (providers a) 1\<rparr>)) (core s)"
  by (auto simp: inc_providers_def storage_mutate_def upd_eq_put account_get_def [symmetric]
      Let_def saturating_add_def)

lemma dec_providers_Ok:
  assumes "dec_providers cfg who s = (Inr r, s')"
  shows "(core s' = put_account who None (core s) \<and> r = Reaped \<and>
           (let a = account_get who s in
             account_map s who = None \<or>
             providers a \<le> 1 \<and> consumers a = 0 \<and> sufficients a = 0)) \<or>
         (\<exists>n. core s' = put_account who (Some ((account_get who s)\<lparr>providers := n\<rparr>)) (core s) \<and>
           r = Exists \<and> (0 < n \<or> consumers (account_get who s) = 0 \<and> 0 < sufficients (account_get who s)))"
proof (cases "account_map s who")
  case None
  with assms show ?thesis
    by (auto simp: dec_providers_def storage_try_mutate_exists_def upd_eq_put)
next
  case (Some a)
  then have a: "account_get who s = a" by (simp add: account_get_def storage_get_def)
  define b where "b = (if providers a = 0 then a\<lparr>providers := 1\<rparr> else a)"
  have same: "consumers b = consumers a" "sufficients b = sufficients a" "providers b \<noteq> 0"
    "\<And>n. b\<lparr>providers := n\<rparr> = a\<lparr>providers := n\<rparr>"
    by (auto simp: b_def)
  have eq: "dec_providers cfg who s =
      (if providers b = 1 \<and> consumers b = 0 \<and> sufficients b = 0
       then (Inr Reaped, put_account who None (on_killed_account cfg who s))
       else if providers b = 1 \<and> 0 < consumers b then (Inl DE_ConsumerRemaining, s)
       else (Inr Exists, put_account who (Some (b\<lparr>providers := providers b - 1\<rparr>)) s))"
    using Some by (simp add: dec_providers_def storage_try_mutate_exists_def upd_eq_put b_def Let_def)
  show ?thesis
  proof (cases "providers b = 1 \<and> consumers b = 0 \<and> sufficients b = 0")
    case True
    moreover from True have "providers a \<le> 1" by (auto simp: b_def split: if_splits)
    ultimately show ?thesis using assms eq same a by auto
  next
    case False
    with assms eq have not_err: "\<not> (providers b = 1 \<and> 0 < consumers b)"
      and s': "s' = put_account who (Some (b\<lparr>providers := providers b - 1\<rparr>)) s" "r = Exists"
      by (auto split: if_splits)
    have "0 < providers b - 1 \<or> consumers a = 0 \<and> 0 < sufficients a"
      using False not_err same by (metis diff_eq_diff_eq diff_self word_gt_0)
    with s' same a show ?thesis by auto
  qed
qed

lemma dec_providers_Err:
  assumes "dec_providers cfg who s = (Inl e, s')"
  shows "s' = s \<and> e = DE_ConsumerRemaining \<and> providers (account_get who s) \<le> 1 \<and>
    0 < consumers (account_get who s)"
proof (cases "account_map s who")
  case None
  with assms show ?thesis
    by (auto simp: dec_providers_def storage_try_mutate_exists_def)
next
  case (Some a)
  with assms show ?thesis
    by (auto simp: dec_providers_def storage_try_mutate_exists_def account_get_def storage_get_def
        Let_def split: if_splits)
qed

end

end
