(* ===== verification/Balances_Core.thy ===== *)
theory Balances_Core
  imports Accounts
begin

text \<open>
  The core of the balances pallet (\<open>frame/balances/src/lib.rs\<close>): reading an account, the
  upgrade of old accounts, and \<open>try_mutate_account\<close>, the one function through which every
  operation of the pallet changes an account. It keeps the account's provider and consumer
  references in step with its balances and removes dust.

  \<open>balances_ok\<close> is the invariant between the two pallets. The central result of this
  theory, \<open>try_mutate_account_Ok\<close>, says what a successful call leaves behind: exactly the
  account that the closure computed (or the default one, with the rest reported as dust),
  nothing else touched, and the invariant kept.
\<close>

section \<open>Reading an account\<close>

definition ed :: "('a, 'm) cfg \<Rightarrow> balance" where
  "ed cfg = existential_deposit cfg"

definition account :: "'a \<Rightarrow> ('a, 'm) runtime_scheme \<Rightarrow> account_data" where
  "account who s = store_get who s"

definition free_balance :: "'a \<Rightarrow> ('a, 'm) runtime_scheme \<Rightarrow> balance" where
  "free_balance who s = free (account who s)"

definition reserved_balance :: "'a \<Rightarrow> ('a, 'm) runtime_scheme \<Rightarrow> balance" where
  "reserved_balance who s = reserved (account who s)"

definition total_balance :: "'a \<Rightarrow> ('a, 'm) runtime_scheme \<Rightarrow> balance" where
  "total_balance who s = total (account who s)"

definition locks :: "'a \<Rightarrow> ('a, 'm) runtime_scheme \<Rightarrow> balance_lock list" where
  "locks who s = storage_get locks_map [] who s"

definition reserves :: "'a \<Rightarrow> ('a, 'm) runtime_scheme \<Rightarrow> reserve_data list" where
  "reserves who s = storage_get reserves_map [] who s"

section \<open>Dust\<close>

text \<open>\<open>handle_dust\<close> hands the dust, as a credit, to the configured handler.\<close>

definition handle_dust :: "('a, 'm) cfg \<Rightarrow> balance \<Rightarrow> ('a, 'm) runtime_scheme \<Rightarrow> ('a, 'm) runtime_scheme" where
  "handle_dust cfg dust s = dust_removal cfg dust s"

definition handle_raw_dust :: "('a, 'm) cfg \<Rightarrow> balance \<Rightarrow> ('a, 'm) runtime_scheme \<Rightarrow> ('a, 'm) runtime_scheme" where
  "handle_raw_dust cfg amount s = handle_dust cfg (min amount (saturating_sub (ed cfg) 1)) s"

section \<open>Upgrading an account\<close>

definition ensure_upgraded :: "('a, 'm) cfg \<Rightarrow> 'a \<Rightarrow> ('a, 'm) runtime_scheme \<Rightarrow> bool \<times> ('a, 'm) runtime_scheme" where
  "ensure_upgraded cfg who s =
     (let a = store_get who s in
      if is_new_logic (flags a) then (False, s)
      else
        let a1 = a\<lparr>flags := set_new_logic (flags a)\<rparr>;
            (a2, s2) =
              (if reserved a1 \<noteq> 0 \<and> frozen a1 = 0 then
                 let (a', s') =
                   (if providers_of who s = 0
                    then (a1\<lparr>free := max (free a1) (ed cfg)\<rparr>, snd (inc_providers cfg who s))
                    else (a1, s))
                 in (a', snd (inc_consumers_without_limit who s'))
               else (a1, s));
            s3 = snd (store_try_mutate_exists who
                   (\<lambda>_ s. (Inr ((), Some a2), s) :: (dispatch_error + unit \<times> account_data option) \<times> _) s2)
        in (True, deposit_event (Balances (Ev_Upgraded who)) s3))"

section \<open>Mutating an account\<close>

text \<open>
  The references an account needs, given what it did and does provide and consume (lines
  1078 to 1110 of the source). When the provider reference cannot be given up, the consumer
  change is reverted as far as possible.
\<close>

definition revert_consumers ::
  "('a, 'm) cfg \<Rightarrow> 'a \<Rightarrow> bool \<Rightarrow> bool \<Rightarrow> ('a, 'm) runtime_scheme \<Rightarrow> ('a, 'm) runtime_scheme" where
  "revert_consumers cfg who did_consume does_consume s =
     (let s1 = (if did_consume \<and> \<not> does_consume then snd (inc_consumers cfg who s) else s)
      in if \<not> did_consume \<and> does_consume then dec_consumers who s1 else s1)"

definition update_refs ::
  "('a, 'm) cfg \<Rightarrow> 'a \<Rightarrow> bool \<Rightarrow> bool \<Rightarrow> bool \<Rightarrow> bool \<Rightarrow> bool \<Rightarrow>
   (('a, 'm) runtime_scheme, dispatch_error, unit) comp" where
  "update_refs cfg who force_consumer_bump did_provide did_consume does_provide does_consume =
     bindE (modifyE (\<lambda>s. if \<not> did_provide \<and> does_provide then snd (inc_providers cfg who s) else s)) (\<lambda>_.
     bindE (modifyE (\<lambda>s. if did_consume \<and> \<not> does_consume then dec_consumers who s else s)) (\<lambda>_.
     bindE (\<lambda>s. if \<not> did_consume \<and> does_consume
                then if force_consumer_bump then inc_consumers_without_limit who s
                     else inc_consumers cfg who s
                else (Inr (), s)) (\<lambda>_.
     bindE (\<lambda>s. if does_consume \<and> consumers_of who s = 0 then inc_consumers cfg who s
                else (Inr (), s)) (\<lambda>_.
     (\<lambda>s. if did_provide \<and> \<not> does_provide
           then (case dec_providers cfg who s of
                   (Inr _, s') \<Rightarrow> (Inr (), s')
                 | (Inl e, s') \<Rightarrow> (Inl e, revert_consumers cfg who did_consume does_consume s'))
           else (Inr (), s))))))"

text \<open>
  \<open>try_mutate_account\<close>, with the closure it passes to the account store as a definition of
  its own (lines 1065 to 1139). The closure \<open>f\<close> receives the account and whether it is new, may
  itself use the storage, and returns its result with the changed account. \<open>drop_r\<close> is the
  drop glue of the closure's result type: when a reference cannot be taken after the closure
  has returned, the early return drops that result, which has an effect when it is an
  imbalance.
\<close>

definition mutate_closure ::
  "('a, 'm) cfg \<Rightarrow> ('r \<Rightarrow> ('a, 'm) runtime_scheme \<Rightarrow> ('a, 'm) runtime_scheme) \<Rightarrow> 'a \<Rightarrow> bool \<Rightarrow>
   (account_data \<Rightarrow> bool \<Rightarrow> (('a, 'm) runtime_scheme, dispatch_error, 'r \<times> account_data) comp) \<Rightarrow>
   account_data option \<Rightarrow>
   (('a, 'm) runtime_scheme, dispatch_error,
    (balance option \<times> balance option \<times> 'r) \<times> account_data option) comp" where
  "mutate_closure cfg drop_r who force_consumer_bump f maybe_account =
     (let is_new = (maybe_account = None);
          account0 = (case maybe_account of None \<Rightarrow> account_data_default | Some a \<Rightarrow> a);
          did_provide = (ed cfg \<le> free account0);
          did_consume = (\<not> is_new \<and> (reserved account0 \<noteq> 0 \<or> frozen account0 \<noteq> 0))
      in bindE (f account0 is_new) (\<lambda>(result, account).
         let does_provide = (ed cfg \<le> free account);
             does_consume = (reserved account \<noteq> 0 \<or> frozen account \<noteq> 0)
         in (\<lambda>s. case update_refs cfg who force_consumer_bump
                     did_provide did_consume does_provide does_consume s of
              (Inl e, s') \<Rightarrow> (Inl e, drop_r result s')
            | (Inr _, s') \<Rightarrow>
                (let maybe_endowed = (if is_new then Some (free account) else None);
                     (maybe_dust, new_account) =
                       (if free account < ed cfg \<and> \<not> does_consume
                        then (if free account = 0 then None else Some (free account), None)
                        else (None, Some account))
                 in (Inr ((maybe_endowed, maybe_dust, result), new_account), s')))))"

definition try_mutate_account ::
  "('a, 'm) cfg \<Rightarrow> ('r \<Rightarrow> ('a, 'm) runtime_scheme \<Rightarrow> ('a, 'm) runtime_scheme) \<Rightarrow> 'a \<Rightarrow> bool \<Rightarrow>
   (account_data \<Rightarrow> bool \<Rightarrow> (('a, 'm) runtime_scheme, dispatch_error, 'r \<times> account_data) comp) \<Rightarrow>
   (('a, 'm) runtime_scheme, dispatch_error, 'r \<times> balance option) comp" where
  "try_mutate_account cfg drop_r who force_consumer_bump f =
     bindE (runE (ensure_upgraded cfg who)) (\<lambda>_.
     bindE (store_try_mutate_exists who (mutate_closure cfg drop_r who force_consumer_bump f))
     (\<lambda>(maybe_endowed, maybe_dust, result).
     bindE (modifyE (\<lambda>s. case maybe_endowed of
         Some endowed \<Rightarrow> deposit_event (Balances (Ev_Endowed who endowed)) s | None \<Rightarrow> s)) (\<lambda>_.
     bindE (modifyE (\<lambda>s. case maybe_dust of
         Some amount \<Rightarrow> deposit_event (Balances (Ev_DustLost who amount)) s | None \<Rightarrow> s)) (\<lambda>_.
     ret (result, maybe_dust)))))"

abbreviation no_drop :: "'r \<Rightarrow> 's \<Rightarrow> 's" where
  "no_drop \<equiv> \<lambda>_ s. s"

definition mutate_account ::
  "('a, 'm) cfg \<Rightarrow> ('r \<Rightarrow> ('a, 'm) runtime_scheme \<Rightarrow> ('a, 'm) runtime_scheme) \<Rightarrow> 'a \<Rightarrow> bool \<Rightarrow>
   (account_data \<Rightarrow> 'r \<times> account_data) \<Rightarrow>
   (('a, 'm) runtime_scheme, dispatch_error, 'r \<times> balance option) comp" where
  "mutate_account cfg drop_r who force_consumer_bump f =
     try_mutate_account cfg drop_r who force_consumer_bump (\<lambda>a _. ret (f a))"

definition try_mutate_account_handling_dust ::
  "('a, 'm) cfg \<Rightarrow> ('r \<Rightarrow> ('a, 'm) runtime_scheme \<Rightarrow> ('a, 'm) runtime_scheme) \<Rightarrow> 'a \<Rightarrow> bool \<Rightarrow>
   (account_data \<Rightarrow> bool \<Rightarrow> (('a, 'm) runtime_scheme, dispatch_error, 'r \<times> account_data) comp) \<Rightarrow>
   (('a, 'm) runtime_scheme, dispatch_error, 'r) comp" where
  "try_mutate_account_handling_dust cfg drop_r who force_consumer_bump f =
     bindE (try_mutate_account cfg drop_r who force_consumer_bump f) (\<lambda>(r, maybe_dust).
     bindE (modifyE (\<lambda>s. case maybe_dust of Some dust \<Rightarrow> handle_raw_dust cfg dust s | None \<Rightarrow> s)) (\<lambda>_.
     ret r))"

definition mutate_account_handling_dust ::
  "('a, 'm) cfg \<Rightarrow> ('r \<Rightarrow> ('a, 'm) runtime_scheme \<Rightarrow> ('a, 'm) runtime_scheme) \<Rightarrow> 'a \<Rightarrow> bool \<Rightarrow>
   (account_data \<Rightarrow> 'r \<times> account_data) \<Rightarrow>
   (('a, 'm) runtime_scheme, dispatch_error, 'r) comp" where
  "mutate_account_handling_dust cfg drop_r who force_consumer_bump f =
     bindE (mutate_account cfg drop_r who force_consumer_bump f) (\<lambda>(r, maybe_dust).
     bindE (modifyE (\<lambda>s. case maybe_dust of Some dust \<Rightarrow> handle_raw_dust cfg dust s | None \<Rightarrow> s)) (\<lambda>_.
     ret r))"

section \<open>The invariant between the pallets\<close>

text \<open>
  An account that holds at least the existential deposit is provided for; an account with
  reserved or frozen funds is consumed, and a consumed account is provided for; an account
  that holds less than the existential deposit has reserved or frozen funds, or is the default
  (there is no dust); and every account is on the new reference-counting logic.
\<close>

definition account_ok :: "balance \<Rightarrow> account_info \<Rightarrow> bool" where
  "account_ok d a \<longleftrightarrow>
     is_new_logic (flags (data a)) \<and>
     (d \<le> free (data a) \<longrightarrow> providers a \<noteq> 0) \<and>
     (reserved (data a) \<noteq> 0 \<or> frozen (data a) \<noteq> 0 \<longrightarrow> consumers a \<noteq> 0) \<and>
     (consumers a \<noteq> 0 \<longrightarrow> providers a \<noteq> 0) \<and>
     (data a = account_data_default \<or> d \<le> free (data a) \<or> reserved (data a) \<noteq> 0 \<or> frozen (data a) \<noteq> 0)"

definition balances_ok :: "('a, 'm) cfg \<Rightarrow> ('a, 'm) runtime_scheme \<Rightarrow> bool" where
  "balances_ok cfg s \<longleftrightarrow>
     finite (dom (account_map s)) \<and> (\<forall>k. account_ok (ed cfg) (account_get k s))"

text \<open>\<open>only_account who s t\<close>: from \<open>s\<close> to \<open>t\<close> nothing changed but the account \<open>who\<close> and the log.\<close>

definition only_account :: "'a \<Rightarrow> ('a, 'm) runtime_scheme \<Rightarrow> ('a, 'm) runtime_scheme \<Rightarrow> bool" where
  "only_account who s t \<longleftrightarrow> core t = put_account who (account_map t who) (core s)"

lemma put_same [simp]: "put_account who (account_map s who) s = s"
  by (simp add: put_account_def)

lemma only_account_put:
  assumes "core t = put_account who v (core s)"
  shows "only_account who s t"
proof -
  from assms have "core t = core (put_account who v s)" by simp
  from core_eqD(1) [OF this] have "account_map t who = v" by simp
  with assms show ?thesis by (simp add: only_account_def)
qed

lemma only_account_core: "core t = core s \<Longrightarrow> only_account who s t"
  by (rule only_account_put [of _ _ "account_map s who"]) (metis core_fields(1) put_same)

lemma only_account_refl [simp]: "only_account who s s"
  by (rule only_account_core) simp

lemma only_account_trans:
  "only_account who s t \<Longrightarrow> only_account who t u \<Longrightarrow> only_account who s u"
  by (metis only_account_def only_account_put put_put)

lemma only_account_coreD:
  "only_account who s t \<Longrightarrow> core t = core (put_account who (account_map t who) s)"
  by (simp add: only_account_def)

lemma only_account_fields:
  assumes "only_account who s t"
  shows "total_issuance t = total_issuance s" "inactive_issuance t = inactive_issuance s"
    "locks_map t = locks_map s" "reserves_map t = reserves_map s" "holds_map t = holds_map s"
    "freezes_map t = freezes_map s" "transaction_level t = transaction_level s"
    "block_number t = block_number s"
  using core_eqD [OF only_account_coreD [OF assms]] by simp_all

lemma only_account_map:
  "only_account who s t \<Longrightarrow> account_map t = (account_map s)(who := account_map t who)"
  using core_eqD(1) [OF only_account_coreD] by fastforce

lemma only_account_other:
  assumes "only_account who s t" "k \<noteq> who"
  shows "account_get k t = account_get k s"
proof -
  have "account_map t k = account_map s k"
    using only_account_map [OF assms(1)] assms(2) by (metis fun_upd_other)
  then show ?thesis by (simp add: account_get_def storage_get_def)
qed

lemma account_get_of_put:
  "core t = put_account who v (core s) \<Longrightarrow>
     account_get who t = (case v of None \<Rightarrow> account_info_default | Some a \<Rightarrow> a)"
  by (metis account_get_core account_get_put)

lemma account_get_None: "account_map s who = None \<Longrightarrow> account_get who s = account_info_default"
  by (simp add: account_get_def storage_get_def)

lemma account_default [simp]: "data account_info_default = account_data_default"
  by (simp add: account_info_default_def)

lemma account_data_default_fields [simp]:
  "free account_data_default = 0" "reserved account_data_default = 0"
  "frozen account_data_default = 0" "flags account_data_default = extra_flags_default"
  by (simp_all add: account_data_default_def)

lemma account_info_default_fields [simp]:
  "consumers account_info_default = 0" "providers account_info_default = 0"
  "sufficients account_info_default = 0"
  by (simp_all add: account_info_default_def)

text \<open>What \<open>try_mutate_account\<close> stores for the account its closure computed, and the dust.\<close>

definition settle :: "('a, 'm) cfg \<Rightarrow> account_data \<Rightarrow> account_data" where
  "settle cfg a = (if free a < ed cfg \<and> reserved a = 0 \<and> frozen a = 0 then account_data_default else a)"

definition dust_of :: "('a, 'm) cfg \<Rightarrow> account_data \<Rightarrow> balance option" where
  "dust_of cfg a =
     (if free a < ed cfg \<and> reserved a = 0 \<and> frozen a = 0 \<and> free a \<noteq> 0 then Some (free a) else None)"

lemma ensure_upgraded_noop:
  "is_new_logic (flags (data (account_get who s))) \<Longrightarrow> ensure_upgraded cfg who s = (False, s)"
  by (simp add: ensure_upgraded_def store_get_def)

lemma store_try_mutate_exists_Ok:
  assumes "store_try_mutate_exists who f s = (Inr r, t)"
  obtains v s1 where "f (if account who s = account_data_default then None else Some (account who s)) s = (Inr (r, v), s1)"
    and "t = (let a = account_get who s1; d = (case v of None \<Rightarrow> account_data_default | Some d \<Rightarrow> d)
      in if 0 < providers a \<or> 0 < sufficients a then put_account who (Some (a\<lparr>data := d\<rparr>)) s1
         else put_account who None s1)"
proof -
  let ?ma = "if account who s = account_data_default then None else Some (account who s)"
  obtain res s1 where f: "f ?ma s = (res, s1)" by fastforce
  with assms obtain v where res: "res = Inr (r, v)"
    unfolding store_try_mutate_exists_def account_def store_get_def Let_def
    by (auto split: sum.splits)
  show ?thesis
  proof (rule that)
    show "f ?ma s = (Inr (r, v), s1)" using f res by simp
    show "t = (let a = account_get who s1; d = (case v of None \<Rightarrow> account_data_default | Some d \<Rightarrow> d)
      in if 0 < providers a \<or> 0 < sufficients a then put_account who (Some (a\<lparr>data := d\<rparr>)) s1
         else put_account who None s1)"
      using assms f res
      unfolding store_try_mutate_exists_def account_def store_get_def Let_def
      by (auto simp: storage_mutate_def account_reads upd_eq_put account_get_def [symmetric]
          split: if_splits)
  qed
qed

lemma mutate_closure_Ok:
  assumes "mutate_closure cfg drop_r who fb f ma s = (Inr ((me, md, r), v), t)"
    and "a = (case ma of None \<Rightarrow> account_data_default | Some a \<Rightarrow> a)"
  obtains a1 s1 u where "f a (ma = None) s = (Inr (r, a1), s1)"
    and "update_refs cfg who fb (ed cfg \<le> free a)
      (ma \<noteq> None \<and> (reserved a \<noteq> 0 \<or> frozen a \<noteq> 0)) (ed cfg \<le> free a1)
      (reserved a1 \<noteq> 0 \<or> frozen a1 \<noteq> 0) s1 = (Inr u, t)"
    and "md = dust_of cfg a1"
    and "(case v of None \<Rightarrow> account_data_default | Some d \<Rightarrow> d) = settle cfg a1"
proof -
  have "case_option account_data_default (\<lambda>a. a) ma = a" using assms(2) by simp
  note run = assms(1) [unfolded mutate_closure_def Let_def bindE_eq_Inr this]
  from run obtain a1 s1 where f: "f a (ma = None) s = (Inr (r, a1), s1)"
    and rest: "(case update_refs cfg who fb (ed cfg \<le> free a)
      (ma \<noteq> None \<and> (reserved a \<noteq> 0 \<or> frozen a \<noteq> 0)) (ed cfg \<le> free a1)
      (reserved a1 \<noteq> 0 \<or> frozen a1 \<noteq> 0) s1 of
        (Inl e, s') \<Rightarrow> (Inl e, drop_r r s')
      | (Inr u, s') \<Rightarrow>
          (case if free a1 < ed cfg \<and> \<not> (reserved a1 \<noteq> 0 \<or> frozen a1 \<noteq> 0)
                then (if free a1 = 0 then None else Some (free a1), None) else (None, Some a1) of
             (maybe_dust, na) \<Rightarrow> (Inr ((if ma = None then Some (free a1) else None, maybe_dust, r), na), s')))
      = (Inr ((me, md, r), v), t)"
    by (force split: prod.splits sum.splits)
  from rest obtain u where
    refs: "update_refs cfg who fb (ed cfg \<le> free a)
      (ma \<noteq> None \<and> (reserved a \<noteq> 0 \<or> frozen a \<noteq> 0)) (ed cfg \<le> free a1)
      (reserved a1 \<noteq> 0 \<or> frozen a1 \<noteq> 0) s1 = (Inr u, t)"
    and v: "(md, v) = (if free a1 < ed cfg \<and> \<not> (reserved a1 \<noteq> 0 \<or> frozen a1 \<noteq> 0)
      then (if free a1 = 0 then None else Some (free a1), None) else (None, Some a1))"
    by (cases "update_refs cfg who fb (ed cfg \<le> free a)
      (ma \<noteq> None \<and> (reserved a \<noteq> 0 \<or> frozen a \<noteq> 0)) (ed cfg \<le> free a1)
      (reserved a1 \<noteq> 0 \<or> frozen a1 \<noteq> 0) s1")
      (auto split: sum.splits if_splits)
  from v have "md = dust_of cfg a1"
    and "(case v of None \<Rightarrow> account_data_default | Some d \<Rightarrow> d) = settle cfg a1"
    by (auto simp: dust_of_def settle_def split: if_splits)
  with f refs that show ?thesis by blast
qed

locale balances_cfg = account_hooks cfg for cfg :: "('a, 'm) cfg" +
  assumes ed_pos: "ed cfg \<noteq> 0"
begin

lemma inc_providers_account:
  shows "only_account who s (snd (inc_providers cfg who s))"
    and "account_get who (snd (inc_providers cfg who s)) =
      (account_get who s)\<lparr>providers := saturating_add (providers (account_get who s)) 1\<rparr>"
  using inc_providers_core [of who s]
  by (auto intro: only_account_put simp: account_get_of_put Let_def)

lemma dec_providers_account:
  assumes "dec_providers cfg who s = (Inr r, t)"
  shows "only_account who s t"
    and "providers (account_get who t) = 0 \<longrightarrow> consumers (account_get who t) = 0"
    and "account_get who t = account_info_default \<and> consumers (account_get who s) = 0 \<or>
      (\<exists>n. account_get who t = (account_get who s)\<lparr>providers := n\<rparr>)"
  using dec_providers_Ok [OF assms]
  by (auto intro: only_account_put simp: account_get_of_put account_get_None Let_def)

lemma inc_consumers_account:
  assumes "inc_consumers cfg who s = (Inr u, t) \<or> inc_consumers_without_limit who s = (Inr u, t)"
  shows "only_account who s t"
    and "account_get who t =
      (account_get who s)\<lparr>consumers := saturating_add (consumers (account_get who s)) 1\<rparr>"
    and "providers (account_get who s) \<noteq> 0"
  using assms
  by (auto simp: inc_consumers_eq inc_consumers_without_limit_eq Let_def account_get_put
      intro: only_account_put split: if_splits)

lemma dec_consumers_account:
  shows "only_account who s (dec_consumers who s)"
    and "account_get who (dec_consumers who s) =
      (let a = account_get who s in if 0 < consumers a then a\<lparr>consumers := consumers a - 1\<rparr> else a)"
  by (auto simp: dec_consumers_eq account_get_put intro: only_account_put)

lemma saturating_inc_pos: "saturating_add (n :: u32) 1 \<noteq> 0"
proof -
  have "unat (saturating_add n 1) \<noteq> 0" by (simp add: unat_saturating_add)
  then show ?thesis by (metis unat_0)
qed

lemma update_refs_eq:
  "update_refs cfg who fb dp dc sp sc s =
    (let s1 = (if \<not> dp \<and> sp then snd (inc_providers cfg who s) else s);
         s2 = (if dc \<and> \<not> sc then dec_consumers who s1 else s1)
     in bindE (\<lambda>s. if \<not> dc \<and> sc
                then if fb then inc_consumers_without_limit who s else inc_consumers cfg who s
                else (Inr (), s)) (\<lambda>_.
        bindE (\<lambda>s. if sc \<and> consumers_of who s = 0 then inc_consumers cfg who s
                else (Inr (), s)) (\<lambda>_.
        (\<lambda>s. if dp \<and> \<not> sp
           then (case dec_providers cfg who s of
                   (Inr _, s') \<Rightarrow> (Inr (), s')
                 | (Inl e, s') \<Rightarrow> (Inl e, revert_consumers cfg who dc sc s'))
           else (Inr (), s)))) s2)"
  by (simp add: update_refs_def monad Let_def)

lemma revert_consumers_ok:
  assumes c: "0 < consumers (account_get who s)" "consumers (account_get who s) \<noteq> 0 \<longrightarrow> providers (account_get who s) \<noteq> 0"
  shows "only_account who s (revert_consumers cfg who dc sc s)"
    and "data (account_get who (revert_consumers cfg who dc sc s)) = data (account_get who s)"
    and "providers (account_get who (revert_consumers cfg who dc sc s)) \<noteq> 0"
    and "dc \<longrightarrow> consumers (account_get who (revert_consumers cfg who dc sc s)) \<noteq> 0"
  using c
  by (auto simp: revert_consumers_def Let_def inc_consumers_eq dec_consumers_eq account_get_put
      saturating_inc_pos intro: only_account_put)

text \<open>
  A failing \<open>update_refs\<close> may have raised the provider counter or changed the consumer
  counter, but the account's balances are untouched and still backed by references.
\<close>

lemma update_refs_Err:
  assumes run: "update_refs cfg who fb dp dc sp sc s = (Inl e, t)"
    and ok: "account_ok (ed cfg) (account_get who s)"
    and dp: "dp \<longleftrightarrow> ed cfg \<le> free (data (account_get who s))"
    and dc: "dc \<longleftrightarrow> reserved (data (account_get who s)) \<noteq> 0 \<or> frozen (data (account_get who s)) \<noteq> 0"
  shows "only_account who s t \<and> data (account_get who t) = data (account_get who s) \<and>
    account_ok (ed cfg) (account_get who t)"
proof -
  define s1 where "s1 = (if \<not> dp \<and> sp then snd (inc_providers cfg who s) else s)"
  define s2 where "s2 = (if dc \<and> \<not> sc then dec_consumers who s1 else s1)"
  have s1: "only_account who s s1" "data (account_get who s1) = data (account_get who s)"
    "account_ok (ed cfg) (account_get who s1)"
    using inc_providers_account [of who s] ok by (auto simp: s1_def account_ok_def saturating_inc_pos)
  have s2: "only_account who s s2" "data (account_get who s2) = data (account_get who s)"
    "\<not> dc \<longrightarrow> s2 = s1"
    using dec_consumers_account [of who s1] s1
    by (auto simp: s2_def Let_def intro: only_account_trans)
  have c2: "consumers (account_get who s2) \<noteq> 0 \<longrightarrow> providers (account_get who s2) \<noteq> 0"
    using dec_consumers_account [of who s1] s1(3) by (auto simp: s2_def Let_def account_ok_def split: if_splits)
  note run' = run [unfolded update_refs_eq Let_def s1_def [symmetric] s2_def [symmetric]]
  consider (inc) "\<not> dc" "t = s2"
    | (rest) s3 where "(if \<not> dc \<and> sc
        then if fb then inc_consumers_without_limit who s2 else inc_consumers cfg who s2
        else (Inr (), s2)) = (Inr (), s3)"
      "bindE (\<lambda>s. if sc \<and> consumers_of who s = 0 then inc_consumers cfg who s
          else (Inr (), s)) (\<lambda>_ s. if dp \<and> \<not> sp
           then (case dec_providers cfg who s of
                   (Inr _, s') \<Rightarrow> (Inr (), s')
                 | (Inl e, s') \<Rightarrow> (Inl e, revert_consumers cfg who dc sc s'))
           else (Inr (), s)) s3 = (Inl e, t)"
    using run' unfolding bindE_eq_Inl
    by (auto simp: inc_consumers_eq inc_consumers_without_limit_eq Let_def split: if_splits)
  then show ?thesis
  proof cases
    case inc
    with s1 s2 show ?thesis by simp
  next
    case rest
    have s3: "only_account who s s3" "data (account_get who s3) = data (account_get who s)"
      "sc \<longrightarrow> consumers (account_get who s3) \<noteq> 0"
      "consumers (account_get who s3) \<noteq> 0 \<longrightarrow> providers (account_get who s3) \<noteq> 0"
      using rest(1) s2 c2 s1(3) dc inc_consumers_account [of who s2 "()" s3]
      by (auto simp: saturating_inc_pos s2_def account_ok_def split: if_splits intro: only_account_trans)
    from rest(2) s3(3) obtain s4 where d: "dec_providers cfg who s3 = (Inl e, s4)"
      and t: "t = revert_consumers cfg who dc sc s4" and "dp"
      unfolding bindE_eq_Inl by (auto simp: consumers_of_def split: if_splits prod.splits sum.splits)
    from dec_providers_Err [OF d] have "s4 = s3" "0 < consumers (account_get who s3)" by auto
    note r = revert_consumers_ok [OF this(2) s3(4), of dc sc]
    with t \<open>s4 = s3\<close> s3(1,2) ok dc show ?thesis
      by (auto simp: account_ok_def intro: only_account_trans)
  qed
qed

text \<open>The stages of \<open>update_refs\<close>, each with what it does to the account's counters.\<close>

lemma update_refs_Ok:
  assumes run: "update_refs cfg who fb dp dc sp sc s = (Inr u, t)"
    and dp: "dp \<longrightarrow> providers (account_get who s) \<noteq> 0"
    and dc: "dc \<longrightarrow> consumers (account_get who s) \<noteq> 0"
    and cp: "consumers (account_get who s) \<noteq> 0 \<longrightarrow> providers (account_get who s) \<noteq> 0"
  shows "only_account who s t \<and> (sp \<longrightarrow> providers (account_get who t) \<noteq> 0) \<and>
    (sc \<longrightarrow> consumers (account_get who t) \<noteq> 0) \<and>
    (consumers (account_get who t) \<noteq> 0 \<longrightarrow> providers (account_get who t) \<noteq> 0)"
proof -
  define s1 where "s1 = (if \<not> dp \<and> sp then snd (inc_providers cfg who s) else s)"
  define s2 where "s2 = (if dc \<and> \<not> sc then dec_consumers who s1 else s1)"
  from run obtain s3 s4 where s3: "(if \<not> dc \<and> sc
      then if fb then inc_consumers_without_limit who s2 else inc_consumers cfg who s2
      else (Inr (), s2)) = (Inr (), s3)"
    and s4: "(if sc \<and> consumers_of who s3 = 0 then inc_consumers cfg who s3
      else (Inr (), s3)) = (Inr (), s4)"
    and t: "(if dp \<and> \<not> sp then (case dec_providers cfg who s4 of (Inr _, s') \<Rightarrow> (Inr (), s')
        | (Inl e, s') \<Rightarrow> (Inl e, revert_consumers cfg who dc sc s')) else (Inr (), s4)) = (Inr u, t)"
    unfolding update_refs_eq Let_def s1_def [symmetric] s2_def [symmetric] bindE_eq_Inr by auto
  define good where "good r \<longleftrightarrow> only_account who s r \<and>
    (consumers (account_get who r) \<noteq> 0 \<longrightarrow> providers (account_get who r) \<noteq> 0) \<and>
    (sp \<or> dp \<longrightarrow> providers (account_get who r) \<noteq> 0)" for r
  have g1: "good s1" "consumers (account_get who s1) = consumers (account_get who s)"
    using inc_providers_account [of who s] cp dp
    by (auto simp: good_def s1_def saturating_inc_pos)
  then have g2: "good s2" "dc \<and> sc \<longrightarrow> consumers (account_get who s2) \<noteq> 0"
    using dec_consumers_account [of who s1] dc
    by (auto simp: good_def s2_def Let_def word_gt_0 split: if_splits intro: only_account_trans)
  have g3: "good s3" "sc \<longrightarrow> consumers (account_get who s3) \<noteq> 0"
    using s3 g2 inc_consumers_account [of who s2 "()" s3]
    by (auto simp: good_def saturating_inc_pos split: if_splits intro: only_account_trans)
  then have "s4 = s3" using s4 by (auto simp: consumers_of_def split: if_splits)
  with g3 t show ?thesis
    using dec_providers_account [of who s4 _ t]
    by (auto simp: good_def split: if_splits prod.splits sum.splits intro: only_account_trans)
qed

lemma store_data_account:
  assumes "account_get who s = a"
    and "t = (if 0 < providers a \<or> 0 < sufficients a then put_account who (Some (a\<lparr>data := d\<rparr>)) s
              else put_account who None s)"
  shows "only_account who s t"
    and "account_get who t =
      (if 0 < providers a \<or> 0 < sufficients a then a\<lparr>data := d\<rparr> else account_info_default)"
  using assms by (auto simp: account_get_put intro: only_account_put)

lemma balances_ok_only_account:
  assumes "balances_ok cfg s" "only_account who s t" "account_ok (ed cfg) (account_get who t)"
  shows "balances_ok cfg t"
  unfolding balances_ok_def
proof
  show "finite (dom (account_map t))"
    using assms(1) only_account_map [OF assms(2)] by (metis balances_ok_def finite_dom_upd)
  show "\<forall>k. account_ok (ed cfg) (account_get k t)"
    using assms only_account_other [OF assms(2)] by (metis balances_ok_def)
qed

lemma store_data_ok:
  assumes "t = (if 0 < providers a \<or> 0 < sufficients a then put_account who (Some (a\<lparr>data := settle cfg d\<rparr>)) s
              else put_account who None s)"
    and "a = account_get who s" "is_new_logic (flags d)"
    and "ed cfg \<le> free d \<longrightarrow> providers a \<noteq> 0"
    and "reserved d \<noteq> 0 \<or> frozen d \<noteq> 0 \<longrightarrow> consumers a \<noteq> 0"
    and "consumers a \<noteq> 0 \<longrightarrow> providers a \<noteq> 0"
  shows "only_account who s t" "account who t = settle cfg d"
    "account_ok (ed cfg) (account_get who t)"
proof -
  note put = store_data_account [OF assms(2) [symmetric] assms(1)]
  show "only_account who s t" by (rule put(1))
  show "account who t = settle cfg d"
    using put(2) assms(4-) by (auto simp: account_def store_get_def settle_def word_gt_0)
  show "account_ok (ed cfg) (account_get who t)"
    using put(2) assms(3-) ed_pos by (auto simp: account_ok_def settle_def word_gt_0)
qed

lemma try_mutate_account_Ok:
  assumes run: "try_mutate_account cfg drop_r who fb f s = (Inr (r, md), t)"
    and new: "is_new_logic (flags (account who s))"
    and closure: "\<And>r1 a1 s1. f (account who s) (account who s = account_data_default) s = (Inr (r1, a1), s1) \<Longrightarrow>
      balances_ok cfg s1 \<and> account_get who s1 = account_get who s \<and> is_new_logic (flags a1)"
  obtains a1 s1 where "f (account who s) (account who s = account_data_default) s = (Inr (r, a1), s1)"
    and "md = dust_of cfg a1" and "account who t = settle cfg a1"
    and "only_account who s1 t" and "balances_ok cfg t"
proof -
  let ?a = "account who s"
  let ?ma = "if ?a = account_data_default then None else Some ?a"
  have "ensure_upgraded cfg who s = (False, s)"
    using new by (simp add: ensure_upgraded_noop account_def store_get_def)
  with run obtain me t1 where
    "store_try_mutate_exists who (mutate_closure cfg drop_r who fb f) s = (Inr (me, md, r), t1)"
    and t: "core t = core t1"
    by (auto simp: try_mutate_account_def monad bindE_eq_Inr split: option.splits)
  from store_try_mutate_exists_Ok [OF this(1)] obtain v s2 where
    m: "mutate_closure cfg drop_r who fb f ?ma s = (Inr ((me, md, r), v), s2)"
    and t1: "t1 = (let a = account_get who s2; d = (case v of None \<Rightarrow> account_data_default | Some d \<Rightarrow> d)
      in if 0 < providers a \<or> 0 < sufficients a then put_account who (Some (a\<lparr>data := d\<rparr>)) s2
         else put_account who None s2)" by blast
  have "?a = (case ?ma of None \<Rightarrow> account_data_default | Some a \<Rightarrow> a)" by simp
  have none: "(?ma = None) = (?a = account_data_default)" by simp
  from mutate_closure_Ok [OF m \<open>?a = _\<close>, unfolded none] obtain a1 s1 u where
    f: "f ?a (?a = account_data_default) s = (Inr (r, a1), s1)"
    and refs: "update_refs cfg who fb (ed cfg \<le> free ?a)
      (?a \<noteq> account_data_default \<and> (reserved ?a \<noteq> 0 \<or> frozen ?a \<noteq> 0)) (ed cfg \<le> free a1)
      (reserved a1 \<noteq> 0 \<or> frozen a1 \<noteq> 0) s1 = (Inr u, s2)"
    and md: "md = dust_of cfg a1"
    and v: "(case v of None \<Rightarrow> account_data_default | Some d \<Rightarrow> d) = settle cfg a1"
    by blast
  from closure [OF f] have ok1: "balances_ok cfg s1" and same: "account_get who s1 = account_get who s"
    and flag: "is_new_logic (flags a1)" by auto
  from ok1 have "account_ok (ed cfg) (account_get who s1)" by (simp add: balances_ok_def)
  with same update_refs_Ok [OF refs] have refs': "only_account who s1 s2"
    "ed cfg \<le> free a1 \<longrightarrow> providers (account_get who s2) \<noteq> 0"
    "reserved a1 \<noteq> 0 \<or> frozen a1 \<noteq> 0 \<longrightarrow> consumers (account_get who s2) \<noteq> 0"
    "consumers (account_get who s2) \<noteq> 0 \<longrightarrow> providers (account_get who s2) \<noteq> 0"
    by (auto simp: account_ok_def account_def store_get_def)
  from t1 v have "t1 = (if 0 < providers (account_get who s2) \<or> 0 < sufficients (account_get who s2)
      then put_account who (Some ((account_get who s2)\<lparr>data := settle cfg a1\<rparr>)) s2
      else put_account who None s2)" by (simp add: Let_def)
  note stored = store_data_ok [OF this refl flag refs'(2-4)]
  have get: "account_get who t = account_get who t1" using t by (rule account_get_cong)
  have only: "only_account who s1 t"
    using refs'(1) stored(1) only_account_core [OF t] by (metis only_account_trans)
  show ?thesis
  proof (rule that [OF f md _ only])
    show "account who t = settle cfg a1" using stored(2) get by (simp add: account_def store_get_def)
    show "balances_ok cfg t"
      using balances_ok_only_account [OF ok1 only] stored(3) get by simp
  qed
qed

lemma mutate_closure_Err:
  assumes "mutate_closure cfg drop_r who fb f ma s = (Inl e, t)"
    and "a = (case ma of None \<Rightarrow> account_data_default | Some a \<Rightarrow> a)"
  obtains (closure) "f a (ma = None) s = (Inl e, t)"
  | (refs) r a1 s1 s2 where "f a (ma = None) s = (Inr (r, a1), s1)"
    and "update_refs cfg who fb (ed cfg \<le> free a)
      (ma \<noteq> None \<and> (reserved a \<noteq> 0 \<or> frozen a \<noteq> 0)) (ed cfg \<le> free a1)
      (reserved a1 \<noteq> 0 \<or> frozen a1 \<noteq> 0) s1 = (Inl e, s2)"
    and "t = drop_r r s2"
proof -
  have "case_option account_data_default (\<lambda>a. a) ma = a" using assms(2) by simp
  note run = assms(1) [unfolded mutate_closure_def Let_def bindE_eq_Inl this]
  then consider "f a (ma = None) s = (Inl e, t)"
    | r a1 s1 where "f a (ma = None) s = (Inr (r, a1), s1)"
      "(case update_refs cfg who fb (ed cfg \<le> free a)
        (ma \<noteq> None \<and> (reserved a \<noteq> 0 \<or> frozen a \<noteq> 0)) (ed cfg \<le> free a1)
        (reserved a1 \<noteq> 0 \<or> frozen a1 \<noteq> 0) s1 of
          (Inl e, s') \<Rightarrow> (Inl e, drop_r r s')
        | (Inr u, s') \<Rightarrow>
          (case if free a1 < ed cfg \<and> \<not> (reserved a1 \<noteq> 0 \<or> frozen a1 \<noteq> 0)
                then (if free a1 = 0 then None else Some (free a1), None) else (None, Some a1) of
             (maybe_dust, na) \<Rightarrow> (Inr ((if ma = None then Some (free a1) else None, maybe_dust, r), na), s')))
      = (Inl e, t)" by force
  then show ?thesis
  proof cases
    case 1
    then show ?thesis by (rule closure)
  next
    case 2
    from refs [OF 2(1)] 2(2) show ?thesis
      by (cases "update_refs cfg who fb (ed cfg \<le> free a)
        (ma \<noteq> None \<and> (reserved a \<noteq> 0 \<or> frozen a \<noteq> 0)) (ed cfg \<le> free a1)
        (reserved a1 \<noteq> 0 \<or> frozen a1 \<noteq> 0) s1") (auto split: sum.splits if_splits)
  qed
qed

text \<open>
  A failing call has either failed in the closure, or in taking a reference: then no balance
  has changed, and the closure's result was dropped.
\<close>

lemma try_mutate_account_Err:
  assumes run: "try_mutate_account cfg drop_r who fb f s = (Inl e, t)"
    and new: "is_new_logic (flags (account who s))"
    and keeps: "\<And>r1 a1 s1. f (account who s) (account who s = account_data_default) s = (Inr (r1, a1), s1) \<Longrightarrow>
      balances_ok cfg s1 \<and> account_get who s1 = account_get who s"
  obtains (closure) "f (account who s) (account who s = account_data_default) s = (Inl e, t)"
  | (refs) r a1 s1 s2 where "f (account who s) (account who s = account_data_default) s = (Inr (r, a1), s1)"
    and "t = drop_r r s2" and "only_account who s1 s2" and "account who s2 = account who s1"
    and "balances_ok cfg s2"
proof -
  let ?a = "account who s"
  let ?ma = "if ?a = account_data_default then None else Some ?a"
  have "ensure_upgraded cfg who s = (False, s)"
    using new by (simp add: ensure_upgraded_noop account_def store_get_def)
  with run have "store_try_mutate_exists who (mutate_closure cfg drop_r who fb f) s = (Inl e, t)"
    by (auto simp: try_mutate_account_def monad bindE_eq_Inl split: option.splits)
  then have m: "mutate_closure cfg drop_r who fb f ?ma s = (Inl e, t)"
    unfolding store_try_mutate_exists_def account_def store_get_def Let_def
    by (auto split: prod.splits sum.splits)
  have a: "?a = (case ?ma of None \<Rightarrow> account_data_default | Some a \<Rightarrow> a)" by simp
  have none: "(?ma = None) = (?a = account_data_default)" by simp
  from m a show ?thesis
  proof (cases rule: mutate_closure_Err)
    case closure
    then show ?thesis using that(1) unfolding none by blast
  next
    case (refs r a1 s1 s2)
    then have f: "f ?a (?a = account_data_default) s = (Inr (r, a1), s1)" unfolding none by simp
    from keeps [OF this] have ok1: "balances_ok cfg s1" and same: "account_get who s1 = account_get who s"
      by auto
    from same have data: "data (account_get who s1) = ?a" by (simp add: account_def store_get_def)
    have "only_account who s1 s2 \<and> data (account_get who s2) = data (account_get who s1) \<and>
        account_ok (ed cfg) (account_get who s2)"
      by (rule update_refs_Err [OF refs(2)]) (use ok1 data in \<open>auto simp: balances_ok_def\<close>)
    with balances_ok_only_account [OF ok1] show ?thesis
      using that(2) [OF f refs(3)] unfolding account_def store_get_def by blast
  qed
qed

text \<open>
  Taking the references cannot fail when no new consumer reference is needed and a provider
  reference that is given up is not required.
\<close>

lemma dec_providers_total:
  assumes "can_dec_provider who s"
  shows "\<exists>r t. dec_providers cfg who s = (Inr r, t)"
proof (cases "account_map s who")
  case None
  then show ?thesis by (simp add: dec_providers_def storage_try_mutate_exists_def)
next
  case (Some a)
  then have "account_get who s = a" by (simp add: account_get_def storage_get_def)
  with assms have "consumers a = 0 \<or> 1 < providers a" by (simp add: can_dec_provider_def Let_def)
  with Some show ?thesis
    by (auto simp: dec_providers_def storage_try_mutate_exists_def Let_def)
qed

lemma update_refs_total:
  assumes sc: "sc \<longrightarrow> dc \<and> consumers (account_get who s) \<noteq> 0"
    and dp: "dp \<and> \<not> sp \<longrightarrow> can_dec_provider who s"
  shows "\<exists>t. update_refs cfg who fb dp dc sp sc s = (Inr (), t)"
proof -
  define s1 where "s1 = (if \<not> dp \<and> sp then snd (inc_providers cfg who s) else s)"
  define s2 where "s2 = (if dc \<and> \<not> sc then dec_consumers who s1 else s1)"
  have c1: "consumers (account_get who s1) = consumers (account_get who s)"
    using inc_providers_account [of who s] by (simp add: s1_def)
  have c2: "sc \<longrightarrow> consumers_of who s2 \<noteq> 0" using sc c1 by (simp add: s2_def consumers_of_def)
  have "dp \<and> \<not> sp \<longrightarrow> can_dec_provider who s2"
    using dp dec_consumers_account(2) [of who s1]
    by (auto simp: s2_def s1_def can_dec_provider_def Let_def)
  then have "dp \<and> \<not> sp \<longrightarrow> (\<exists>r t. dec_providers cfg who s2 = (Inr r, t))"
    using dec_providers_total by blast
  with c2 sc show ?thesis
    unfolding update_refs_eq Let_def s1_def [symmetric] s2_def [symmetric] by (auto simp: bindE_def)
qed

lemma try_mutate_account_succeeds:
  assumes ok: "balances_ok cfg s"
    and f: "f (account who s) (account who s = account_data_default) s = (Inr (r, a1), s1)"
    and same: "account_get who s1 = account_get who s"
    and cons: "reserved a1 \<noteq> 0 \<or> frozen a1 \<noteq> 0 \<longrightarrow> reserved (account who s) \<noteq> 0 \<or> frozen (account who s) \<noteq> 0"
    and prov: "ed cfg \<le> free (account who s) \<and> free a1 < ed cfg \<longrightarrow> can_dec_provider who s"
  shows "\<exists>md t. try_mutate_account cfg drop_r who fb f s = (Inr (r, md), t)"
proof -
  let ?a = "account who s"
  let ?ma = "if ?a = account_data_default then None else Some ?a"
  have acc: "account_ok (ed cfg) (account_get who s)" using ok by (simp add: balances_ok_def)
  then have up: "ensure_upgraded cfg who s = (False, s)"
    by (simp add: ensure_upgraded_noop account_ok_def)
  have ma: "(case ?ma of None \<Rightarrow> account_data_default | Some a \<Rightarrow> a) = ?a" "(?ma = None) = (?a = account_data_default)"
    by auto
  have sc: "(reserved a1 \<noteq> 0 \<or> frozen a1 \<noteq> 0) \<longrightarrow>
      (?a \<noteq> account_data_default \<and> (reserved ?a \<noteq> 0 \<or> frozen ?a \<noteq> 0)) \<and> consumers (account_get who s1) \<noteq> 0"
    using cons acc same by (auto simp: account_ok_def account_def store_get_def)
  have "ed cfg \<le> free ?a \<and> \<not> ed cfg \<le> free a1 \<longrightarrow> can_dec_provider who s1"
    using prov same by (simp add: can_dec_provider_def not_le)
  from update_refs_total [OF sc this] obtain t where refs: "update_refs cfg who fb (ed cfg \<le> free ?a)
      (?a \<noteq> account_data_default \<and> (reserved ?a \<noteq> 0 \<or> frozen ?a \<noteq> 0)) (ed cfg \<le> free a1)
      (reserved a1 \<noteq> 0 \<or> frozen a1 \<noteq> 0) s1 = (Inr (), t)" by blast
  have "\<exists>me md v t. mutate_closure cfg drop_r who fb f ?ma s = (Inr ((me, md, r), v), t)"
    unfolding mutate_closure_def Let_def ma
    using f refs by (simp add: bindE_def split: prod.split)
  then obtain me md v u where "mutate_closure cfg drop_r who fb f ?ma s = (Inr ((me, md, r), v), u)"
    by blast
  then have "\<exists>t. store_try_mutate_exists who (mutate_closure cfg drop_r who fb f) s = (Inr (me, md, r), t)"
    unfolding store_try_mutate_exists_def account_def store_get_def Let_def by simp
  then show ?thesis by (auto simp: try_mutate_account_def monad up bindE_def)
qed

lemma try_mutate_account_total:
  assumes ok: "balances_ok cfg s"
    and f: "f (account who s) (account who s = account_data_default) s = (Inr (r, a1), s)"
    and keeps: "reserved a1 = reserved (account who s)" "frozen a1 = frozen (account who s)"
    and prov: "ed cfg \<le> free (account who s) \<and> free a1 < ed cfg \<longrightarrow> can_dec_provider who s"
  shows "\<exists>md t. try_mutate_account cfg drop_r who fb f s = (Inr (r, md), t)"
  using try_mutate_account_succeeds [where f = f, OF ok f refl _ prov] keeps by simp

end

end
