(* ===== verification/Issuance.thy ===== *)
theory Issuance
  imports Balances_Core
begin

text \<open>
  The issuance accounting of the balances pallet: the sum of all balances, the imbalances that
  are outstanding, and the laws a dust handler has to obey.

  \<open>books cfg c d s\<close> says that the invariant of the accounts holds and that the sum of all free
  and reserved balances, together with outstanding credits \<open>c\<close>, is the total issuance together
  with outstanding debts \<open>d\<close>. With \<open>c = d = 0\<close> it is the invariant of the pallet between calls.
  The locale \<open>books_cfg\<close> is the contract of the configuration: its hooks are neutral, and its
  dust handler consumes exactly the credit it is given.
\<close>

section \<open>The sum of all balances\<close>

definition acct_total :: "account_data \<Rightarrow> nat" where
  "acct_total a = unat (free a) + unat (reserved a)"

definition bal_sum :: "('a, 'm) runtime_scheme \<Rightarrow> nat" where
  "bal_sum s = msum (\<lambda>a. acct_total (data a)) (account_map s)"

definition books :: "('a, 'm) cfg \<Rightarrow> nat \<Rightarrow> nat \<Rightarrow> ('a, 'm) runtime_scheme \<Rightarrow> bool" where
  "books cfg c d s \<longleftrightarrow> balances_ok cfg s \<and> bal_sum s + c = unat (total_issuance s) + d"

text \<open>What the balances of an account back: locks, freezes, holds and named reserves.\<close>

definition keeps_claims :: "('a, 'm) runtime_scheme \<Rightarrow> ('a, 'm) runtime_scheme \<Rightarrow> bool" where
  "keeps_claims s t \<longleftrightarrow>
     locks_map t = locks_map s \<and> freezes_map t = freezes_map s \<and>
     holds_map t = holds_map s \<and> reserves_map t = reserves_map s \<and>
     (\<forall>k. reserved (account k t) = reserved (account k s) \<and> frozen (account k t) = frozen (account k s))"

section \<open>Dropping an imbalance\<close>

text \<open>
  The drop handlers of the imbalances of the \<open>fungible\<close> traits (\<open>Credit\<close>, \<open>Debt\<close>), and of those
  of the \<open>Currency\<close> trait (\<open>NegativeImbalance\<close>, \<open>PositiveImbalance\<close>): they square the issuance.
\<close>

definition drop_credit :: "balance \<Rightarrow> ('a, 'm) runtime_scheme \<Rightarrow> ('a, 'm) runtime_scheme" where
  "drop_credit amount s =
     (if amount = 0 then s
      else deposit_event (Balances (Ev_BurnedDebt amount))
             (s\<lparr>total_issuance := saturating_sub (total_issuance s) amount\<rparr>))"

definition drop_debt :: "balance \<Rightarrow> ('a, 'm) runtime_scheme \<Rightarrow> ('a, 'm) runtime_scheme" where
  "drop_debt amount s =
     (if amount = 0 then s
      else deposit_event (Balances (Ev_MintedCredit amount))
             (s\<lparr>total_issuance := saturating_add (total_issuance s) amount\<rparr>))"

definition drop_negative :: "balance \<Rightarrow> ('a, 'm) runtime_scheme \<Rightarrow> ('a, 'm) runtime_scheme" where
  "drop_negative amount s =
     (if amount = 0 then s
      else deposit_event (Balances (Ev_Rescinded amount))
             (s\<lparr>total_issuance := saturating_sub (total_issuance s) amount\<rparr>))"

definition drop_positive :: "balance \<Rightarrow> ('a, 'm) runtime_scheme \<Rightarrow> ('a, 'm) runtime_scheme" where
  "drop_positive amount s =
     (if amount = 0 then s
      else deposit_event (Balances (Ev_Issued amount))
             (s\<lparr>total_issuance := saturating_add (total_issuance s) amount\<rparr>))"

section \<open>Arithmetic of imbalances\<close>

text \<open>The operations of the \<open>Imbalance\<close> trait on amounts, the same for both signs.\<close>

datatype same_or_other = SO_None | SO_Same balance | SO_Other balance

definition split :: "balance \<Rightarrow> balance \<Rightarrow> balance \<times> balance" where
  "split self amount = (let first = min self amount; second = self - first in (first, second))"

definition merge :: "balance \<Rightarrow> balance \<Rightarrow> balance" where
  "merge self other = saturating_add self other"

definition offset :: "balance \<Rightarrow> balance \<Rightarrow> same_or_other" where
  "offset a b = (if b < a then SO_Same (a - b) else if a < b then SO_Other (b - a) else SO_None)"

lemma split_conserves: "split self amount = (x, y) \<Longrightarrow> unat x + unat y = unat self \<and> x \<le> amount"
  by (auto simp: split_def Let_def min_def unat_sub word_le_nat_alt split: if_splits)

lemma split_merge: "split self amount = (x, y) \<Longrightarrow> merge x y = self"
  using unat_less_power [of self]
  by (auto dest!: split_conserves simp: merge_def word_unat_eq_iff unat_saturating_add)

text \<open>Offsetting a credit against a debt keeps their difference.\<close>

lemma offset_conserves:
  "(case offset c d of SO_None \<Rightarrow> unat c = unat d
    | SO_Same r \<Rightarrow> unat c = unat d + unat r
    | SO_Other r \<Rightarrow> unat d = unat c + unat r)"
  by (auto simp: offset_def unat_sub word_less_nat_alt word_le_nat_alt)

section \<open>Facts about the sum\<close>

lemma bal_sum_cong: "account_map s = account_map t \<Longrightarrow> bal_sum s = bal_sum t"
  by (simp add: bal_sum_def)

lemma balances_ok_cong: "account_map s = account_map t \<Longrightarrow> balances_ok cfg s = balances_ok cfg t"
  by (simp add: balances_ok_def account_get_def storage_get_def)

lemma account_cong: "account_map s = account_map t \<Longrightarrow> account k s = account k t"
  by (simp add: account_def store_get_def account_get_def storage_get_def)

lemma books_event [simp]: "books cfg c d (deposit_event ev s) = books cfg c d s"
  by (simp add: books_def bal_sum_def balances_ok_def)

lemma books_finite: "balances_ok cfg s \<Longrightarrow> finite (dom (account_map s))"
  by (simp add: balances_ok_def)

lemma books_new_logic: "balances_ok cfg s \<Longrightarrow> is_new_logic (flags (account who s))"
  by (simp add: balances_ok_def account_ok_def account_def store_get_def)

lemma val0_account: "val0 (\<lambda>a. acct_total (data a)) (account_map s who) = acct_total (account who s)"
  by (simp add: account_def store_get_def account_get_def storage_get_def acct_total_def
      split: option.split)

lemma bal_sum_only_account:
  assumes "finite (dom (account_map s))" "only_account who s t"
  shows "bal_sum t + acct_total (account who s) = bal_sum s + acct_total (account who t)"
  using msum_upd [OF assms(1), of "\<lambda>a. acct_total (data a)" who "account_map t who"]
    only_account_map [OF assms(2)]
  by (simp add: bal_sum_def val0_account [symmetric])

lemma account_le_sum: "finite (dom (account_map s)) \<Longrightarrow> acct_total (account who s) \<le> bal_sum s"
  using msum_ge [of "account_map s" "\<lambda>a. acct_total (data a)" who]
  by (simp add: bal_sum_def val0_account [symmetric])

lemma accounts_le_sum:
  "finite (dom (account_map s)) \<Longrightarrow> who \<noteq> who' \<Longrightarrow>
     acct_total (account who s) + acct_total (account who' s) \<le> bal_sum s"
  using msum_ge2 [of "account_map s" who who' "\<lambda>a. acct_total (data a)"]
  by (simp add: bal_sum_def val0_account [symmetric])

lemma settle_total: "acct_total (settle cfg a) + val0 unat (dust_of cfg a) = acct_total a"
  by (auto simp: settle_def dust_of_def acct_total_def)

lemma dust_lt_ed: "dust_of cfg a = Some x \<Longrightarrow> x < ed cfg \<and> x = free a \<and> reserved a = 0 \<and> frozen a = 0"
  by (auto simp: dust_of_def split: if_splits)

lemma keeps_claims_refl [simp]: "keeps_claims s s"
  by (simp add: keeps_claims_def)

lemma keeps_claims_trans: "keeps_claims s t \<Longrightarrow> keeps_claims t u \<Longrightarrow> keeps_claims s u"
  by (simp add: keeps_claims_def)

lemma keeps_claims_core: "core t = core s \<Longrightarrow> keeps_claims s t"
  using core_eqD [of t s] account_cong [of t s] by (simp add: keeps_claims_def)

lemma account_other: "only_account who s t \<Longrightarrow> k \<noteq> who \<Longrightarrow> account k t = account k s"
  by (simp add: account_def store_get_def only_account_other)

lemma keeps_claims_only:
  assumes "only_account who s t" "reserved (account who t) = reserved (account who s)"
    "frozen (account who t) = frozen (account who s)"
  shows "keeps_claims s t"
  using assms only_account_fields [OF assms(1)] account_other [OF assms(1)]
  unfolding keeps_claims_def by metis

lemma total_exact:
  assumes "books cfg c 0 s"
  shows "unat (total (account who s)) = acct_total (account who s)"
proof -
  have "acct_total (account who s) \<le> unat (total_issuance s)"
    using assms account_le_sum [OF books_finite, of cfg s who] by (simp add: books_def)
  with unat_less_power [of "total_issuance s"] show ?thesis
    by (simp add: total_def unat_saturating_add acct_total_def)
qed

section \<open>Imbalances balance the books\<close>

lemma drop_credit_books: "books cfg (unat amount + c) 0 s \<Longrightarrow> books cfg c 0 (drop_credit amount s)"
  by (auto simp: drop_credit_def books_def unat_saturating_sub bal_sum_def balances_ok_def
      account_get_def storage_get_def)

lemma drop_negative_books: "books cfg (unat amount + c) 0 s \<Longrightarrow> books cfg c 0 (drop_negative amount s)"
  by (auto simp: drop_negative_def books_def unat_saturating_sub bal_sum_def balances_ok_def
      account_get_def storage_get_def)

lemma drop_debt_books:
  "books cfg 0 (unat amount + d) s \<Longrightarrow> bal_sum s < 2 ^ 128 \<Longrightarrow> books cfg 0 d (drop_debt amount s)"
  by (auto simp: drop_debt_def books_def unat_saturating_add bal_sum_def balances_ok_def
      account_get_def storage_get_def)

lemma drop_positive_books:
  "books cfg 0 (unat amount + d) s \<Longrightarrow> bal_sum s < 2 ^ 128 \<Longrightarrow> books cfg 0 d (drop_positive amount s)"
  by (auto simp: drop_positive_def books_def unat_saturating_add bal_sum_def balances_ok_def
      account_get_def storage_get_def)

lemma drop_fields [simp]:
  "account_map (drop_credit amount s) = account_map s"
  "account_map (drop_debt amount s) = account_map s"
  "account_map (drop_negative amount s) = account_map s"
  "account_map (drop_positive amount s) = account_map s"
  by (simp_all add: drop_credit_def drop_debt_def drop_negative_def drop_positive_def)

lemma drop_claims [simp]:
  "keeps_claims s (drop_credit amount s)" "keeps_claims s (drop_debt amount s)"
  "keeps_claims s (drop_negative amount s)" "keeps_claims s (drop_positive amount s)"
  by (simp_all add: keeps_claims_def drop_credit_def drop_debt_def drop_negative_def drop_positive_def
      account_def store_get_def account_get_def storage_get_def)

section \<open>The contract of the configuration\<close>

locale books_cfg = balances_cfg cfg for cfg :: "('a, 'm) cfg" +
  assumes dust_books: "books cfg (unat amount + c) 0 s \<Longrightarrow> books cfg c 0 (dust_removal cfg amount s)"
    and dust_claims: "keeps_claims s (dust_removal cfg amount s)"
begin

text \<open>The closure of most calls neither reads nor writes storage.\<close>

lemma try_mutate_pure:
  assumes run: "try_mutate_account cfg drop_r who fb f s = (Inr (r, md), t)"
    and ok: "balances_ok cfg s"
    and pure: "f (account who s) (account who s = account_data_default) s = (res, s)"
    and flag: "\<forall>r1 a1. res = Inr (r1, a1) \<longrightarrow> is_new_logic (flags a1)"
  obtains a1 where "res = Inr (r, a1)"
    and "md = dust_of cfg a1" and "account who t = settle cfg a1"
    and "only_account who s t" and "balances_ok cfg t"
    and "bal_sum t + val0 unat md + acct_total (account who s) = bal_sum s + acct_total a1"
proof -
  from run books_new_logic [OF ok] obtain a1 s1 where
    f: "f (account who s) (account who s = account_data_default) s = (Inr (r, a1), s1)"
    and t: "md = dust_of cfg a1" "account who t = settle cfg a1" "only_account who s1 t" "balances_ok cfg t"
    by (rule try_mutate_account_Ok) (use pure flag ok in auto)
  with pure have "s1 = s" "res = Inr (r, a1)" by auto
  moreover have "bal_sum t + val0 unat md + acct_total (account who s) = bal_sum s + acct_total a1"
    using bal_sum_only_account [OF books_finite [OF ok] t(3) [unfolded \<open>s1 = s\<close>]] t(1,2)
      settle_total [of cfg a1] by simp
  ultimately show ?thesis using t that by blast
qed

lemma try_mutate_pure_Err:
  assumes run: "try_mutate_account cfg drop_r who fb f s = (Inl e, t)"
    and ok: "balances_ok cfg s"
    and pure: "f (account who s) (account who s = account_data_default) s = (res, s)"
    and no_drop: "\<forall>r a1. res = Inr (r, a1) \<longrightarrow> drop_r r = (\<lambda>s. s)"
  shows "only_account who s t" "account who t = account who s" "balances_ok cfg t" "bal_sum t = bal_sum s"
proof -
  let ?f = "f (account who s) (account who s = account_data_default) s"
  have keeps: "?f = (Inr (r1, a1), s1) \<Longrightarrow> balances_ok cfg s1 \<and> account_get who s1 = account_get who s"
    for r1 a1 s1 using pure ok by simp
  have "only_account who s t \<and> account who t = account who s \<and> balances_ok cfg t"
  proof (rule try_mutate_account_Err [OF run books_new_logic [OF ok] keeps])
    assume "?f = (Inl e, t)"
    then show ?thesis using pure ok by simp
  next
    fix r a1 s1 s2
    assume "?f = (Inr (r, a1), s1)" "t = drop_r r s2" "only_account who s1 s2"
      "account who s2 = account who s1" "balances_ok cfg s2"
    then show ?thesis using pure no_drop by simp
  qed
  then show "only_account who s t" "account who t = account who s" "balances_ok cfg t" by auto
  then show "bal_sum t = bal_sum s" using bal_sum_only_account [OF books_finite [OF ok], of who t] by simp
qed

lemma raw_dust: "x < ed cfg \<Longrightarrow> handle_raw_dust cfg x s = dust_removal cfg x s"
proof -
  assume x: "x < ed cfg"
  have "x \<le> saturating_sub (ed cfg) 1"
    using x by (simp add: word_le_nat_alt word_less_nat_alt unat_saturating_sub)
  then show ?thesis by (simp add: handle_raw_dust_def handle_dust_def min_def)
qed

end

section \<open>The default configuration\<close>

text \<open>
  \<open>TestDefaultConfig\<close> of the two pallets, with the existential deposit and the number of hold
  and freeze reasons, which a runtime sets, as arguments. The hooks are \<open>()\<close>: the dust handler
  \<open>()\<close> drops the credit it receives.
\<close>

definition test_default_config :: "balance \<Rightarrow> nat \<Rightarrow> nat \<Rightarrow> ('a, 'm) cfg" where
  "test_default_config d holds freezes =
     \<lparr>max_consumers = 16, on_new_account = (\<lambda>_ s. s), on_killed_account_hook = (\<lambda>_ s. s),
      existential_deposit = d, max_locks = 100, max_reserves = 100,
      hold_variant_count = holds, freeze_variant_count = freezes,
      dust_removal = drop_credit, done_slash_handler = (\<lambda>_ _ _ s. s)\<rparr>"

lemma test_default_books_cfg: "d \<noteq> 0 \<Longrightarrow> books_cfg (test_default_config d h f)"
  by unfold_locales
    (simp_all add: test_default_config_def ed_def drop_credit_books)

interpretation default_hooks: account_hooks "test_default_config d h f"
  by unfold_locales (simp_all add: test_default_config_def)

interpretation default_cfg: books_cfg "test_default_config 1 h f"
  by (rule test_default_books_cfg) simp

interpretation ed10_cfg: books_cfg "test_default_config 10 h f"
  by (rule test_default_books_cfg) simp

section \<open>Small concrete states\<close>

text \<open>Used to evaluate the operations on examples: an empty runtime and one with two accounts.\<close>

definition empty_runtime :: "nat runtime" where
  "empty_runtime =
     \<lparr>account_map = Map.empty, block_number = 1, execution_phase = None, event_count = 0, events = [],
      transaction_level = 0, total_issuance = 0, inactive_issuance = 0, locks_map = Map.empty,
      reserves_map = Map.empty, holds_map = Map.empty, freezes_map = Map.empty\<rparr>"

definition funded :: "balance \<Rightarrow> account_info" where
  "funded b =
     \<lparr>nonce = 0, consumers = 0, providers = 1, sufficients = 0,
      data = \<lparr>free = b, reserved = 0, frozen = 0, flags = extra_flags_default\<rparr>\<rparr>"

definition two_accounts :: "balance \<Rightarrow> balance \<Rightarrow> nat runtime" where
  "two_accounts x y =
     empty_runtime\<lparr>account_map := [1 \<mapsto> funded x, 2 \<mapsto> funded y], total_issuance := x + y\<rparr>"

lemma account_get_two:
  "account_get k (two_accounts x y) =
     (if k = 2 then funded y else if k = 1 then funded x else account_info_default)"
  by (simp add: account_get_def storage_get_def two_accounts_def)

lemma books_two_accounts:
  assumes "existential_deposit cfg \<le> x" "existential_deposit cfg \<le> y" "existential_deposit cfg \<noteq> 0"
    "unat x + unat y < 2 ^ 128"
  shows "books cfg 0 0 (two_accounts x y)"
proof -
  have "bal_sum (two_accounts x y) = unat x + unat y"
    by (simp add: bal_sum_def two_accounts_def msum_def funded_def acct_total_def)
  moreover have "unat (x + y) = unat x + unat y"
    using assms(4) by (simp add: unat_word_ariths)
  moreover have "balances_ok cfg (two_accounts x y)"
    using assms by (simp add: balances_ok_def account_get_two funded_def account_ok_def ed_def
        account_info_default_def) (simp add: two_accounts_def)
  ultimately show ?thesis by (simp add: books_def) (simp add: two_accounts_def)
qed

end
