(* ===== verification/Fungible.thy ===== *)
theory Fungible
  imports Issuance
begin

text \<open>
  The \<open>fungible\<close> traits of the balances pallet: \<open>Inspect\<close>, \<open>Unbalanced\<close>, \<open>Mutate\<close> and
  \<open>Balanced\<close>. The pallet's own methods (\<open>frame/balances/src/impl_fungible.rs\<close>) and the provided
  methods of the traits (\<open>frame/support/src/traits/tokens/fungible/regular.rs\<close>), which the
  pallet does not override, are composed as the trait resolution composes them. A \<open>Credit\<close> or a
  \<open>Debt\<close> is its amount, and its drop is an explicit step.
\<close>

section \<open>Inspect\<close>

definition active_issuance :: "('a, 'm) runtime_scheme \<Rightarrow> balance" where
  "active_issuance s = saturating_sub (total_issuance s) (inactive_issuance s)"

definition minimum_balance :: "('a, 'm) cfg \<Rightarrow> balance" where
  "minimum_balance cfg = existential_deposit cfg"

definition reducible_balance ::
  "('a, 'm) cfg \<Rightarrow> 'a \<Rightarrow> preservation \<Rightarrow> fortitude \<Rightarrow> ('a, 'm) runtime_scheme \<Rightarrow> balance" where
  "reducible_balance cfg who preservation force s =
     (let a = account who s;
          untouchable = (if force = Polite then saturating_sub (frozen a) (reserved a) else 0);
          untouchable' =
            (if preservation = Preserve
                \<or> preservation = Protect \<and> free a \<noteq> 0 \<and> providers_of who s = 1
                \<or> preservation = Expendable \<and> free a \<noteq> 0 \<and> \<not> can_dec_provider who s
             then max untouchable (existential_deposit cfg) else untouchable)
      in saturating_sub (free a) untouchable')"

definition can_deposit ::
  "('a, 'm) cfg \<Rightarrow> 'a \<Rightarrow> balance \<Rightarrow> provenance \<Rightarrow> ('a, 'm) runtime_scheme \<Rightarrow> deposit_consequence" where
  "can_deposit cfg who amount provenance s =
     (if amount = 0 then DC_Success
      else if provenance = Minted \<and> checked_add (total_issuance s) amount = None then DC_Overflow
      else
        let a = account who s in
        case checked_add (free a) amount of
          None \<Rightarrow> DC_Overflow
        | Some new_free \<Rightarrow>
            if new_free < existential_deposit cfg then DC_BelowMinimum
            else (case checked_add (reserved a) new_free of
                    Some _ \<Rightarrow> DC_Success
                  | None \<Rightarrow> DC_Overflow))"

definition can_withdraw ::
  "('a, 'm) cfg \<Rightarrow> 'a \<Rightarrow> balance \<Rightarrow> ('a, 'm) runtime_scheme \<Rightarrow> withdraw_consequence" where
  "can_withdraw cfg who amount s =
     (if amount = 0 then WC_Success
      else if checked_sub (total_issuance s) amount = None then WC_Underflow
      else
        let a = account who s in
        case checked_sub (free a) amount of
          None \<Rightarrow> WC_BalanceLow
        | Some new_free_balance \<Rightarrow>
            let liquid = reducible_balance cfg who Expendable Polite s in
            if liquid < amount then WC_Frozen
            else if new_free_balance < existential_deposit cfg \<and> \<not> can_dec_provider who s
            then WC_WouldDie
            else
              let success = (if new_free_balance < existential_deposit cfg
                             then WC_ReducedToZero new_free_balance else WC_Success);
                  new_total_balance = saturating_add new_free_balance (reserved a)
              in if new_total_balance < frozen a then WC_Frozen else success)"

section \<open>Unbalanced\<close>

definition write_balance ::
  "('a, 'm) cfg \<Rightarrow> 'a \<Rightarrow> balance \<Rightarrow> (('a, 'm) runtime_scheme, dispatch_error, balance option) comp" where
  "write_balance cfg who amount =
     bindE (getsE (reducible_balance cfg who Expendable Force)) (\<lambda>max_reduction.
     bindE (mutate_account cfg no_drop who False (\<lambda>a.
       let reduction = saturating_sub (free a) amount in
       if reduction \<le> max_reduction then (Inr (), a\<lparr>free := amount\<rparr>)
       else (Inl (DE_Module InsufficientBalance), a))) (\<lambda>(result, maybe_dust).
     bindE (liftR result) (\<lambda>_.
     ret maybe_dust)))"

definition set_total_issuance :: "balance \<Rightarrow> ('a, 'm) runtime_scheme \<Rightarrow> ('a, 'm) runtime_scheme" where
  "set_total_issuance amount s = s\<lparr>total_issuance := amount\<rparr>"

definition deactivate :: "balance \<Rightarrow> ('a, 'm) runtime_scheme \<Rightarrow> ('a, 'm) runtime_scheme" where
  "deactivate amount s =
     (let b = inactive_issuance s;
          active = saturating_sub (total_issuance s) b;
          increase = min amount active
      in s\<lparr>inactive_issuance := saturating_add b increase\<rparr>)"

definition reactivate :: "balance \<Rightarrow> ('a, 'm) runtime_scheme \<Rightarrow> ('a, 'm) runtime_scheme" where
  "reactivate amount s = s\<lparr>inactive_issuance := saturating_sub (inactive_issuance s) amount\<rparr>"

definition handle_maybe_dust ::
  "('a, 'm) cfg \<Rightarrow> balance option \<Rightarrow> ('a, 'm) runtime_scheme \<Rightarrow> ('a, 'm) runtime_scheme" where
  "handle_maybe_dust cfg maybe_dust s =
     (case maybe_dust of Some dust \<Rightarrow> handle_dust cfg dust s | None \<Rightarrow> s)"

definition decrease_balance ::
  "('a, 'm) cfg \<Rightarrow> 'a \<Rightarrow> balance \<Rightarrow> precision \<Rightarrow> preservation \<Rightarrow> fortitude \<Rightarrow>
   (('a, 'm) runtime_scheme, dispatch_error, balance) comp" where
  "decrease_balance cfg who amount precision preservation force =
     bindE (getsE (free_balance who)) (\<lambda>old_balance.
     bindE (getsE (reducible_balance cfg who preservation force)) (\<lambda>reducible.
     bindE (case precision of
              BestEffort \<Rightarrow> ret (min amount reducible)
            | Exact \<Rightarrow> bindE (ensureE (amount \<le> reducible) (DE_Token TE_FundsUnavailable)) (\<lambda>_. ret amount))
       (\<lambda>amount.
     bindE (ok_or (checked_sub old_balance amount) (DE_Token TE_FundsUnavailable)) (\<lambda>new_balance.
     bindE (write_balance cfg who new_balance) (\<lambda>maybe_dust.
     bindE (modifyE (handle_maybe_dust cfg maybe_dust)) (\<lambda>_.
     ret (saturating_sub old_balance new_balance)))))))"

definition increase_balance ::
  "('a, 'm) cfg \<Rightarrow> 'a \<Rightarrow> balance \<Rightarrow> precision \<Rightarrow> (('a, 'm) runtime_scheme, dispatch_error, balance) comp" where
  "increase_balance cfg who amount precision =
     bindE (getsE (free_balance who)) (\<lambda>old_balance.
     bindE (getsE (\<lambda>s. saturating_sub (total_balance who s) old_balance)) (\<lambda>reserved.
     bindE (case precision of
              BestEffort \<Rightarrow>
                ret (min (saturating_add old_balance amount) (saturating_sub max_value reserved))
            | Exact \<Rightarrow> ok_or (checked_add old_balance amount) (DE_Arithmetic AE_Overflow)) (\<lambda>new_balance.
     bindE (ok_or (checked_add new_balance reserved) (DE_Arithmetic AE_Overflow)) (\<lambda>_.
     if new_balance < minimum_balance cfg
     then (case precision of BestEffort \<Rightarrow> ret 0 | Exact \<Rightarrow> raise (DE_Token TE_BelowMinimum))
     else if new_balance = old_balance then ret 0
     else
       bindE (write_balance cfg who new_balance) (\<lambda>maybe_dust.
       bindE (modifyE (handle_maybe_dust cfg maybe_dust)) (\<lambda>_.
       ret (saturating_sub new_balance old_balance)))))))"

section \<open>Mutate\<close>

definition mint_into ::
  "('a, 'm) cfg \<Rightarrow> 'a \<Rightarrow> balance \<Rightarrow> (('a, 'm) runtime_scheme, dispatch_error, balance) comp" where
  "mint_into cfg who amount =
     bindE (getsE total_issuance) (\<lambda>issuance.
     bindE (ok_or (checked_add issuance amount) (DE_Arithmetic AE_Overflow)) (\<lambda>_.
     bindE (increase_balance cfg who amount Exact) (\<lambda>actual.
     bindE (modifyE (\<lambda>s. set_total_issuance (saturating_add (total_issuance s) actual) s)) (\<lambda>_.
     bindE (modifyE (deposit_event (Balances (Ev_Minted who amount)))) (\<lambda>_.
     ret actual)))))"

definition burn_from ::
  "('a, 'm) cfg \<Rightarrow> 'a \<Rightarrow> balance \<Rightarrow> preservation \<Rightarrow> precision \<Rightarrow> fortitude \<Rightarrow>
   (('a, 'm) runtime_scheme, dispatch_error, balance) comp" where
  "burn_from cfg who amount preservation precision force =
     bindE (getsE (\<lambda>s. min (reducible_balance cfg who preservation force s) amount)) (\<lambda>actual.
     bindE (ensureE (actual = amount \<or> precision = BestEffort) (DE_Token TE_FundsUnavailable)) (\<lambda>_.
     bindE (getsE total_issuance) (\<lambda>issuance.
     bindE (ok_or (checked_sub issuance actual) (DE_Arithmetic AE_Overflow)) (\<lambda>_.
     bindE (decrease_balance cfg who actual BestEffort preservation force) (\<lambda>actual.
     bindE (modifyE (\<lambda>s. set_total_issuance (saturating_sub (total_issuance s) actual) s)) (\<lambda>_.
     bindE (modifyE (deposit_event (Balances (Ev_Burned who actual)))) (\<lambda>_.
     ret actual)))))))"

definition shelve ::
  "('a, 'm) cfg \<Rightarrow> 'a \<Rightarrow> balance \<Rightarrow> (('a, 'm) runtime_scheme, dispatch_error, balance) comp" where
  "shelve cfg who amount =
     bindE (getsE (\<lambda>s. min (reducible_balance cfg who Expendable Polite s) amount)) (\<lambda>actual.
     bindE (ensureE (actual = amount) (DE_Token TE_FundsUnavailable)) (\<lambda>_.
     bindE (getsE total_issuance) (\<lambda>issuance.
     bindE (ok_or (checked_sub issuance actual) (DE_Arithmetic AE_Overflow)) (\<lambda>_.
     bindE (decrease_balance cfg who actual BestEffort Expendable Polite) (\<lambda>actual.
     bindE (modifyE (\<lambda>s. set_total_issuance (saturating_sub (total_issuance s) actual) s)) (\<lambda>_.
     bindE (modifyE (deposit_event (Balances (Ev_Suspended who actual)))) (\<lambda>_.
     ret actual)))))))"

definition restore ::
  "('a, 'm) cfg \<Rightarrow> 'a \<Rightarrow> balance \<Rightarrow> (('a, 'm) runtime_scheme, dispatch_error, balance) comp" where
  "restore cfg who amount =
     bindE (getsE total_issuance) (\<lambda>issuance.
     bindE (ok_or (checked_add issuance amount) (DE_Arithmetic AE_Overflow)) (\<lambda>_.
     bindE (increase_balance cfg who amount Exact) (\<lambda>actual.
     bindE (modifyE (\<lambda>s. set_total_issuance (saturating_add (total_issuance s) actual) s)) (\<lambda>_.
     bindE (modifyE (deposit_event (Balances (Ev_Restored who amount)))) (\<lambda>_.
     ret actual)))))"

definition transfer ::
  "('a, 'm) cfg \<Rightarrow> 'a \<Rightarrow> 'a \<Rightarrow> balance \<Rightarrow> preservation \<Rightarrow>
   (('a, 'm) runtime_scheme, dispatch_error, balance) comp" where
  "transfer cfg source dest amount preservation =
     bindE (getsE (can_withdraw cfg source amount)) (\<lambda>c.
     bindE (liftR (withdraw_into_result c (preservation \<noteq> Expendable))) (\<lambda>extra.
     bindE (getsE (can_deposit cfg dest amount Extant)) (\<lambda>d.
     bindE (liftR (deposit_into_result d)) (\<lambda>_.
     if source = dest \<or> amount = 0 then ret amount
     else
       bindE (decrease_balance cfg source amount Exact preservation Polite) (\<lambda>actual.
       bindE (increase_balance cfg dest actual Exact) (\<lambda>_.
       bindE (modifyE (deposit_event (Balances (Ev_Transfer source dest actual)))) (\<lambda>_.
       ret actual)))))))"

definition set_balance ::
  "('a, 'm) cfg \<Rightarrow> 'a \<Rightarrow> balance \<Rightarrow> ('a, 'm) runtime_scheme \<Rightarrow> balance \<times> ('a, 'm) runtime_scheme" where
  "set_balance cfg who amount s =
     (let b = free_balance who s in
      if amount < b
      then (case burn_from cfg who (b - amount) Expendable BestEffort Force s of
              (Inr d, s') \<Rightarrow> (saturating_sub b d, s') | (Inl _, s') \<Rightarrow> (b, s'))
      else (case mint_into cfg who (amount - b) s of
              (Inr d, s') \<Rightarrow> (saturating_add b d, s') | (Inl _, s') \<Rightarrow> (b, s')))"

section \<open>Balanced\<close>

definition rescind :: "balance \<Rightarrow> ('a, 'm) runtime_scheme \<Rightarrow> balance \<times> ('a, 'm) runtime_scheme" where
  "rescind amount s =
     (let old = total_issuance s;
          new = saturating_sub old amount;
          delta = old - new
      in (delta, deposit_event (Balances (Ev_Rescinded delta)) (set_total_issuance new s)))"

definition issue :: "balance \<Rightarrow> ('a, 'm) runtime_scheme \<Rightarrow> balance \<times> ('a, 'm) runtime_scheme" where
  "issue amount s =
     (let old = total_issuance s;
          new = saturating_add old amount;
          s1 = set_total_issuance new s;
          delta = new - old
      in (delta, if delta = 0 then s1 else deposit_event (Balances (Ev_Issued delta)) s1))"

definition pair :: "balance \<Rightarrow> (('a, 'm) runtime_scheme, dispatch_error, balance \<times> balance) comp" where
  "pair amount =
     bindE (runE (issue amount)) (\<lambda>issued.
     bindE (runE (rescind amount)) (\<lambda>rescinded.
     if issued \<noteq> rescinded \<or> issued \<noteq> amount
     then bindE (modifyE (\<lambda>s. drop_credit issued (drop_debt rescinded s))) (\<lambda>_.
          raise (DE_Other ''Failed to issue and rescind equal amounts''))
     else ret (rescinded, issued)))"

definition deposit ::
  "('a, 'm) cfg \<Rightarrow> 'a \<Rightarrow> balance \<Rightarrow> precision \<Rightarrow> (('a, 'm) runtime_scheme, dispatch_error, balance) comp" where
  "deposit cfg who value precision =
     bindE (increase_balance cfg who value precision) (\<lambda>increase.
     bindE (modifyE (deposit_event (Balances (Ev_Deposit who increase)))) (\<lambda>_.
     ret increase))"

definition withdraw ::
  "('a, 'm) cfg \<Rightarrow> 'a \<Rightarrow> balance \<Rightarrow> precision \<Rightarrow> preservation \<Rightarrow> fortitude \<Rightarrow>
   (('a, 'm) runtime_scheme, dispatch_error, balance) comp" where
  "withdraw cfg who value precision preservation force =
     bindE (decrease_balance cfg who value precision preservation force) (\<lambda>decrease.
     bindE (modifyE (deposit_event (Balances (Ev_Withdraw who decrease)))) (\<lambda>_.
     ret decrease))"

text \<open>
  \<open>resolve\<close> and \<open>settle\<close> give the credit or debt back when the account operation fails; the
  error is that imbalance. What the offset leaves over is dropped.
\<close>

definition resolve ::
  "('a, 'm) cfg \<Rightarrow> 'a \<Rightarrow> balance \<Rightarrow> (('a, 'm) runtime_scheme, balance, unit) comp" where
  "resolve cfg who credit s =
     (case deposit cfg who credit Exact s of
        (Inl _, s') \<Rightarrow> (Inl credit, s')
      | (Inr debt, s') \<Rightarrow>
          (Inr (), case offset credit debt of
                     SO_Same c \<Rightarrow> drop_credit c s'
                   | SO_Other d \<Rightarrow> drop_debt d s'
                   | SO_None \<Rightarrow> s'))"

definition settle_debt ::
  "('a, 'm) cfg \<Rightarrow> 'a \<Rightarrow> balance \<Rightarrow> preservation \<Rightarrow> (('a, 'm) runtime_scheme, balance, balance) comp" where
  "settle_debt cfg who debt preservation s =
     (case withdraw cfg who debt Exact preservation Polite s of
        (Inl _, s') \<Rightarrow> (Inl debt, s')
      | (Inr credit, s') \<Rightarrow>
          (case offset credit debt of
             SO_None \<Rightarrow> (Inr 0, s')
           | SO_Same dust \<Rightarrow> (Inr dust, s')
           | SO_Other rest \<Rightarrow> (Inl rest, s')))"

section \<open>What may be taken from an account\<close>

lemma reducible_le_free: "reducible_balance cfg who p f s \<le> free_balance who s"
  by (simp add: reducible_balance_def free_balance_def Let_def word_le_nat_alt unat_saturating_sub)

lemma reducible_polite:
  assumes "x \<le> reducible_balance cfg who p Polite s"
    and "unat (frozen (account who s)) \<le> acct_total (account who s)"
  shows "unat (frozen (account who s)) + unat x \<le> acct_total (account who s)"
  using assms
  by (auto simp: reducible_balance_def Let_def acct_total_def word_le_nat_alt unat_saturating_sub unat_max
      split: if_splits)

lemma reducible_preserve:
  assumes "x \<le> reducible_balance cfg who Preserve f s" "ed cfg \<le> free_balance who s"
  shows "unat (ed cfg) + unat x \<le> unat (free_balance who s)"
  using assms
  by (auto simp: reducible_balance_def Let_def free_balance_def ed_def word_le_nat_alt
      unat_saturating_sub unat_max)

lemma reducible_pos:
  assumes "amount \<le> reducible_balance cfg who p f s" "amount \<noteq> 0"
  shows "f = Polite \<longrightarrow>
      unat amount + (unat (frozen (account who s)) - unat (reserved (account who s))) \<le> unat (free (account who s))"
    and "p = Preserve \<or> p = Expendable \<and> \<not> can_dec_provider who s \<longrightarrow>
      unat amount + unat (existential_deposit cfg) \<le> unat (free (account who s))"
proof -
  define U where "U = unat (frozen (account who s)) - unat (reserved (account who s))"
  have pos: "0 < unat amount" using assms(2) by (simp add: unat_gt_0)
  have free: "free (account who s) \<noteq> 0"
    using assms reducible_le_free [of cfg who p f s] by (auto simp: free_balance_def)
  show "f = Polite \<longrightarrow>
      unat amount + (unat (frozen (account who s)) - unat (reserved (account who s))) \<le> unat (free (account who s))"
    using assms(1) pos unfolding U_def [symmetric]
    by (auto simp: reducible_balance_def Let_def word_le_nat_alt unat_saturating_sub unat_max U_def [symmetric]
        split: if_splits)
  show "p = Preserve \<or> p = Expendable \<and> \<not> can_dec_provider who s \<longrightarrow>
      unat amount + unat (existential_deposit cfg) \<le> unat (free (account who s))"
    using assms(1) pos free
    by (auto simp: reducible_balance_def Let_def word_le_nat_alt unat_saturating_sub unat_max
        split: if_splits)
qed

text \<open>Politeness and preservation only ever lower what may be taken.\<close>

lemma reducible_mono:
  "reducible_balance cfg who Preserve f s \<le> reducible_balance cfg who p f s"
  "reducible_balance cfg who p Polite s \<le> reducible_balance cfg who p Force s"
  by (auto simp: reducible_balance_def Let_def word_le_nat_alt unat_saturating_sub unat_max)

section \<open>The outcome of the account operations\<close>

lemma settle_claims: "reserved (settle cfg a) = reserved a" "frozen (settle cfg a) = frozen a"
  by (auto simp: settle_def)

text \<open>
  An operation that fails without a storage layer around it may leave reference counters
  changed, but neither a balance nor a claim: \<open>unharmed\<close>.
\<close>

definition unharmed :: "('a, 'm) cfg \<Rightarrow> ('a, 'm) runtime_scheme \<Rightarrow> ('a, 'm) runtime_scheme \<Rightarrow> bool" where
  "unharmed cfg s t \<longleftrightarrow>
     balances_ok cfg t \<and> keeps_claims s t \<and> bal_sum t = bal_sum s \<and>
     total_issuance t = total_issuance s \<and> (\<forall>k. free (account k t) = free (account k s))"

text \<open>The closure of \<open>write_balance\<close>, with the storage it has read.\<close>

definition write_closure ::
  "('a, 'm) cfg \<Rightarrow> 'a \<Rightarrow> balance \<Rightarrow> ('a, 'm) runtime_scheme \<Rightarrow> account_data \<Rightarrow> (dispatch_error + unit) \<times> account_data" where
  "write_closure cfg who amount s a =
     (if saturating_sub (free a) amount \<le> reducible_balance cfg who Expendable Force s
      then (Inr (), a\<lparr>free := amount\<rparr>) else (Inl (DE_Module InsufficientBalance), a))"

lemma write_balance_closure:
  "write_balance cfg who amount s =
     bindE (mutate_account cfg no_drop who False (write_closure cfg who amount s)) (\<lambda>(result, maybe_dust).
     bindE (liftR result) (\<lambda>_. ret maybe_dust)) s"
  by (simp add: write_balance_def bindE_gets write_closure_def [abs_def] Let_def)

context books_cfg
begin

lemma write_balance_Ok:
  assumes run: "write_balance cfg who amount s = (Inr md, t)" and ok: "balances_ok cfg s"
  shows "only_account who s t" "balances_ok cfg t" "md = dust_of cfg ((account who s)\<lparr>free := amount\<rparr>)"
    "account who t = settle cfg ((account who s)\<lparr>free := amount\<rparr>)"
    "bal_sum t + val0 unat md + unat (free (account who s)) = bal_sum s + unat amount"
proof -
  let ?f = "write_closure cfg who amount s"
  from run have m: "try_mutate_account cfg no_drop who False (\<lambda>a _. ret (?f a)) s = (Inr (Inr (), md), t)"
    by (auto simp: write_balance_closure mutate_account_def monad bindE_eq_Inr split: sum.splits)
  have flag: "\<forall>r1 a1. (Inr (?f (account who s)) :: dispatch_error + _) = Inr (r1, a1) \<longrightarrow> is_new_logic (flags a1)"
    using books_new_logic [OF ok, of who] by (simp add: write_closure_def)
  obtain a1 where f: "(Inr (?f (account who s)) :: dispatch_error + _) = Inr (Inr (), a1)"
    and t: "md = dust_of cfg a1" "account who t = settle cfg a1" "only_account who s t" "balances_ok cfg t"
      "bal_sum t + val0 unat md + acct_total (account who s) = bal_sum s + acct_total a1"
    by (rule try_mutate_pure [OF m ok ret_def flag])
  from f have a1: "a1 = (account who s)\<lparr>free := amount\<rparr>"
    by (simp add: write_closure_def split: if_splits)
  from t show "only_account who s t" "balances_ok cfg t"
    "md = dust_of cfg ((account who s)\<lparr>free := amount\<rparr>)"
    "account who t = settle cfg ((account who s)\<lparr>free := amount\<rparr>)"
    by (simp_all add: a1)
  from t(5) show "bal_sum t + val0 unat md + unat (free (account who s)) = bal_sum s + unat amount"
    by (simp add: a1 acct_total_def)
qed

lemma write_balance_no_dust:
  assumes "write_balance cfg who amount s = (Inr md, t)" "balances_ok cfg s" "ed cfg \<le> amount"
  shows "md = None" "account who t = (account who s)\<lparr>free := amount\<rparr>"
  using write_balance_Ok(3,4) [OF assms(1,2)] assms(3) by (auto simp: dust_of_def settle_def)

lemma unharmed_books: "unharmed cfg s t \<Longrightarrow> books cfg c d s \<Longrightarrow> books cfg c d t"
  by (simp add: unharmed_def books_def)

lemma unharmed_refl: "balances_ok cfg s \<Longrightarrow> unharmed cfg s s"
  by (simp add: unharmed_def)

lemma unharmed_only:
  assumes "only_account who s t" "balances_ok cfg t" "bal_sum t = bal_sum s"
    "free (account who t) = free (account who s)" "reserved (account who t) = reserved (account who s)"
    "frozen (account who t) = frozen (account who s)"
  shows "unharmed cfg s t"
proof -
  have "free (account k t) = free (account k s)" for k
    using assms(4) account_other [OF assms(1), of k] by (cases "k = who") simp_all
  then show ?thesis
    using assms(2,3) only_account_fields(1) [OF assms(1)] keeps_claims_only [OF assms(1,5,6)]
    by (simp add: unharmed_def)
qed

lemma settle_no_dust:
  assumes "balances_ok cfg s"
  shows "dust_of cfg (account who s) = None" "free (settle cfg (account who s)) = free (account who s)"
proof -
  have "account_ok (ed cfg) (account_get who s)" using assms by (simp add: balances_ok_def)
  then show "dust_of cfg (account who s) = None" "free (settle cfg (account who s)) = free (account who s)"
    by (auto simp: account_ok_def dust_of_def settle_def account_def store_get_def not_less)
qed

lemma write_balance_Err:
  assumes run: "write_balance cfg who amount s = (Inl e, t)" and ok: "balances_ok cfg s"
  shows "unharmed cfg s t"
proof -
  let ?f = "write_closure cfg who amount s"
  let ?m = "try_mutate_account cfg no_drop who False (\<lambda>a _. ret (?f a)) s"
  consider (refs) "?m = (Inl e, t)" | (inner) md where "?m = (Inr (Inl e, md), t)"
    using run by (auto simp: write_balance_closure mutate_account_def monad bindE_eq_Inl not_Inr_unit
        split: sum.splits)
  then show ?thesis
  proof cases
    case refs
    note err = try_mutate_pure_Err [OF refs ok ret_def, simplified]
    show ?thesis by (rule unharmed_only [OF err(1,3,4)]) (simp_all add: err(2))
  next
    case inner
    have flag: "\<forall>r1 a1. (Inr (?f (account who s)) :: dispatch_error + _) = Inr (r1, a1) \<longrightarrow> is_new_logic (flags a1)"
      using books_new_logic [OF ok, of who] by (simp add: write_closure_def)
    obtain a1 where f: "(Inr (?f (account who s)) :: dispatch_error + _) = Inr (Inl e, a1)"
      and t: "md = dust_of cfg a1" "account who t = settle cfg a1" "only_account who s t" "balances_ok cfg t"
        "bal_sum t + val0 unat md + acct_total (account who s) = bal_sum s + acct_total a1"
      by (rule try_mutate_pure [OF inner ok ret_def flag])
    from f have a1: "a1 = account who s" by (simp add: write_closure_def split: if_splits)
    show ?thesis
      by (rule unharmed_only [OF t(3,4)])
        (use t settle_no_dust [OF ok, of who] in \<open>auto simp: a1 settle_claims\<close>)
  qed
qed

lemma handle_maybe_dust_books:
  "books cfg (val0 unat md + c) 0 s \<Longrightarrow> books cfg c 0 (handle_maybe_dust cfg md s)"
  by (auto simp: handle_maybe_dust_def handle_dust_def dust_books split: option.split)

lemma handle_maybe_dust_claims: "keeps_claims s (handle_maybe_dust cfg md s)"
  by (auto simp: handle_maybe_dust_def handle_dust_def dust_claims split: option.split)

lemma decrease_balance_Ok:
  assumes run: "decrease_balance cfg who amount precision preservation force s = (Inr actual, t)"
    and ok: "balances_ok cfg s"
  obtains u where "only_account who s u" "balances_ok cfg u"
    "t = handle_maybe_dust cfg (dust_of cfg ((account who s)\<lparr>free := free_balance who s - actual\<rparr>)) u"
    "account who u = settle cfg ((account who s)\<lparr>free := free_balance who s - actual\<rparr>)"
    "bal_sum u + val0 unat (dust_of cfg ((account who s)\<lparr>free := free_balance who s - actual\<rparr>)) + unat actual = bal_sum s"
    "actual = (case precision of Exact \<Rightarrow> amount | BestEffort \<Rightarrow> min amount (reducible_balance cfg who preservation force s))"
    "actual \<le> reducible_balance cfg who preservation force s"
proof -
  let ?r = "reducible_balance cfg who preservation force s"
  let ?x = "case precision of Exact \<Rightarrow> amount | BestEffort \<Rightarrow> min amount ?r"
  from run obtain new md u where
    le: "?x \<le> ?r" and new: "checked_sub (free_balance who s) ?x = Some new"
    and w: "write_balance cfg who new s = (Inr md, u)"
    and t: "t = handle_maybe_dust cfg md u" "actual = saturating_sub (free_balance who s) new"
    by (cases precision)
      (auto simp: decrease_balance_def monad bindE_eq_Inr split: option.splits if_splits)
  from new have "unat actual = unat ?x"
    by (simp add: t(2) checked_sub_eq_Some unat_saturating_sub)
  then have actual: "actual = ?x" by (simp add: word_unat_eq_iff)
  with new have n: "new = free_balance who s - actual" by (auto simp: checked_sub_def split: if_splits)
  from new actual have "unat (free (account who s)) = unat new + unat actual"
    by (simp add: checked_sub_eq_Some free_balance_def)
  then have "bal_sum u + val0 unat md + unat actual = bal_sum s"
    using write_balance_Ok(5) [OF w ok] by simp
  then show ?thesis
    using write_balance_Ok(1-4) [OF w ok] t(1) le actual that unfolding n by simp
qed

lemma decrease_balance_books:
  assumes run: "decrease_balance cfg who amount precision preservation force s = (Inr actual, t)"
    and ok: "books cfg c 0 s"
  shows "books cfg (unat actual + c) 0 t" "keeps_claims s t"
proof -
  from ok have "balances_ok cfg s" by (simp add: books_def)
  from decrease_balance_Ok [OF run this] obtain u md where u: "only_account who s u" "balances_ok cfg u"
    "t = handle_maybe_dust cfg md u" "bal_sum u + val0 unat md + unat actual = bal_sum s"
    "account who u = settle cfg ((account who s)\<lparr>free := free_balance who s - actual\<rparr>)" by metis
  have "books cfg (val0 unat md + (unat actual + c)) 0 u"
    using u(2,4) ok only_account_fields(1) [OF u(1)] by (simp add: books_def)
  with u(3) show "books cfg (unat actual + c) 0 t" by (simp add: handle_maybe_dust_books)
  have "keeps_claims s u"
    using u(1) by (rule keeps_claims_only) (simp_all add: u(5) settle_claims)
  with u(3) show "keeps_claims s t" using handle_maybe_dust_claims keeps_claims_trans by metis
qed

lemma increase_balance_Ok:
  assumes run: "increase_balance cfg who amount precision s = (Inr actual, t)"
    and ok: "balances_ok cfg s" and fits: "acct_total (account who s) < 2 ^ 128"
  shows "only_account who s t" "balances_ok cfg t" "bal_sum t = bal_sum s + unat actual"
    "account who t = (account who s)\<lparr>free := free_balance who s + actual\<rparr>"
    "unat (free_balance who t) = unat (free_balance who s) + unat actual"
    "acct_total (account who t) < 2 ^ 128"
    "precision = Exact \<longrightarrow> actual = amount" "actual \<le> amount"
proof -
  let ?a = "account who s"
  have res: "saturating_sub (total_balance who s) (free ?a) = reserved ?a"
    using fits by (simp add: word_unat_eq_iff unat_saturating_sub unat_saturating_add total_balance_def
        free_balance_def total_def acct_total_def)
  let ?n = "if precision = Exact then checked_add (free ?a) amount
    else Some (min (saturating_add (free ?a) amount) (saturating_sub max_value (reserved ?a)))"
  from run obtain new x where n: "?n = Some new" and x: "checked_add new (reserved ?a) = Some x"
    and rest: "(if new < minimum_balance cfg
       then (case precision of BestEffort \<Rightarrow> ret 0 | Exact \<Rightarrow> raise (DE_Token TE_BelowMinimum))
       else if new = free ?a then ret 0
       else
         bindE (write_balance cfg who new) (\<lambda>maybe_dust.
         bindE (modifyE (handle_maybe_dust cfg maybe_dust)) (\<lambda>_.
         ret (saturating_sub new (free ?a))))) s = (Inr actual, t)"
    unfolding increase_balance_def bindE_gets free_balance_def res
    by (cases precision) (auto simp: monad split: option.splits)
  have fit: "unat new + unat (reserved ?a) < 2 ^ 128"
    using x unat_less_power [of x] by (simp add: checked_add_eq_Some)
  have le: "unat new \<le> unat (free ?a) + unat amount"
    using n by (auto simp: checked_add_eq_Some unat_min unat_saturating_add split: if_splits)
  have ge: "unat (free ?a) \<le> unat new"
    using n fits by (auto simp: checked_add_eq_Some unat_min unat_saturating_add unat_saturating_sub
        unat_max_value acct_total_def split: if_splits)
  consider (noop) "t = s" "actual = 0" "precision = Exact \<longrightarrow> amount = 0"
    | (wrote) md u where "write_balance cfg who new s = (Inr md, u)" "t = handle_maybe_dust cfg md u"
      "actual = saturating_sub new (free ?a)" "ed cfg \<le> new"
    using rest n by (cases precision) (auto simp: monad bindE_eq_Inr minimum_balance_def ed_def not_less
        checked_add_eq_Some unat_eq_zero split: if_splits)
  then have "only_account who s t \<and> balances_ok cfg t \<and> bal_sum t = bal_sum s + unat actual \<and>
    account who t = ?a\<lparr>free := free_balance who s + actual\<rparr> \<and>
    unat (free_balance who t) = unat (free_balance who s) + unat actual \<and>
    acct_total (account who t) < 2 ^ 128 \<and> (precision = Exact \<longrightarrow> actual = amount) \<and> actual \<le> amount"
  proof cases
    case noop
    with ok fits show ?thesis by (simp add: free_balance_def)
  next
    case wrote
    note w = write_balance_Ok [OF wrote(1) ok] write_balance_no_dust [OF wrote(1) ok wrote(4)]
    have a: "unat actual + unat (free ?a) = unat new"
      using ge by (simp add: wrote(3) unat_saturating_sub)
    have new: "new = free ?a + actual"
      using ge by (simp add: wrote(3) saturating_sub_def word_le_nat_alt)
    have t: "t = u" using wrote(2) w(6) by (simp add: handle_maybe_dust_def)
    have "precision = Exact \<longrightarrow> actual = amount"
      using n a by (auto simp: checked_add_eq_Some word_unat_eq_iff)
    moreover have "actual \<le> amount" using le a by (simp add: word_le_nat_alt)
    ultimately show ?thesis
      using w a fit unfolding t new by (simp add: free_balance_def acct_total_def)
  qed
  then show "only_account who s t" "balances_ok cfg t" "bal_sum t = bal_sum s + unat actual"
    "account who t = (account who s)\<lparr>free := free_balance who s + actual\<rparr>"
    "unat (free_balance who t) = unat (free_balance who s) + unat actual"
    "acct_total (account who t) < 2 ^ 128"
    "precision = Exact \<longrightarrow> actual = amount" "actual \<le> amount"
    by auto
qed

lemma decrease_balance_Err:
  assumes run: "decrease_balance cfg who amount precision preservation force s = (Inl e, t)"
    and ok: "balances_ok cfg s"
  shows "unharmed cfg s t"
proof -
  have "t = s \<or> (\<exists>n. write_balance cfg who n s = (Inl e, t))"
    using run by (cases precision)
      (auto simp: decrease_balance_def monad bindE_eq_Inl split: option.splits if_splits)
  then show ?thesis using ok unharmed_refl write_balance_Err by blast
qed

lemma increase_balance_Err:
  assumes run: "increase_balance cfg who amount precision s = (Inl e, t)"
    and ok: "balances_ok cfg s"
  shows "unharmed cfg s t"
proof -
  have "t = s \<or> (\<exists>n. write_balance cfg who n s = (Inl e, t))"
    using run by (cases precision)
      (auto simp: increase_balance_def monad bindE_eq_Inl split: option.splits if_splits)
  then show ?thesis using ok unharmed_refl write_balance_Err by blast
qed

lemma books_fits: "books cfg c 0 s \<Longrightarrow> acct_total (account who s) < 2 ^ 128"
  using account_le_sum [OF books_finite, of cfg s who] unat_less_power [of "total_issuance s"]
  by (simp add: books_def)

lemma increase_balance_books:
  assumes run: "increase_balance cfg who amount precision s = (Inr actual, t)"
    and ok: "books cfg c 0 s"
  shows "bal_sum t + c = unat (total_issuance t) + unat actual" "balances_ok cfg t"
    "keeps_claims s t" "total_issuance t = total_issuance s"
proof -
  from ok have b: "balances_ok cfg s" by (simp add: books_def)
  note inc = increase_balance_Ok [OF run b books_fits [OF ok]]
  show "total_issuance t = total_issuance s" using inc(1) by (rule only_account_fields)
  with inc(3) ok show "bal_sum t + c = unat (total_issuance t) + unat actual" by (simp add: books_def)
  show "balances_ok cfg t" by (rule inc(2))
  show "keeps_claims s t" using inc(1) by (rule keeps_claims_only) (simp_all add: inc(4))
qed

lemma books_total_issuance:
  assumes "balances_ok cfg s" "bal_sum s + c = unat i + d"
  shows "books cfg c d (set_total_issuance i s)"
  using assms by (simp add: books_def set_total_issuance_def bal_sum_def balances_ok_def
      account_get_def storage_get_def)

lemma set_total_issuance_claims: "keeps_claims s (set_total_issuance i s)"
  by (simp add: keeps_claims_def set_total_issuance_def account_def store_get_def account_get_def
      storage_get_def)

text \<open>Minting and restoring; burning and shelving.\<close>

lemma increase_issuance_books:
  assumes ok: "books cfg c 0 s" and le: "unat (total_issuance s) + unat amount < 2 ^ 128"
    and run: "increase_balance cfg who amount Exact s = (Inr actual, u)"
    and t: "core t = core (set_total_issuance (saturating_add (total_issuance u) actual) u)"
  shows "books cfg c 0 t" "keeps_claims s t" "actual = amount"
    "unat (total_issuance t) = unat (total_issuance s) + unat amount"
    "account who t = (account who s)\<lparr>free := free_balance who s + amount\<rparr>"
    "k \<noteq> who \<Longrightarrow> account k t = account k s"
proof -
  have b: "balances_ok cfg s" using ok by (simp add: books_def)
  note inc = increase_balance_Ok [OF run b books_fits [OF ok]]
  note bk = increase_balance_books [OF run ok]
  have am: "actual = amount" using inc(7) by simp
  have i: "unat (saturating_add (total_issuance u) actual) = unat (total_issuance s) + unat amount"
    using le by (simp add: unat_saturating_add bk(4) am)
  have "books cfg c 0 (set_total_issuance (saturating_add (total_issuance u) actual) u)"
    by (rule books_total_issuance) (use bk(1,2,4) i am in simp_all)
  then show "books cfg c 0 t"
    using core_eqD(1,2) [OF t] by (simp add: books_def cong: bal_sum_cong balances_ok_cong)
  show "keeps_claims s t"
    using bk(3) set_total_issuance_claims keeps_claims_core [OF t] keeps_claims_trans by metis
  show "actual = amount" by (rule am)
  show "unat (total_issuance t) = unat (total_issuance s) + unat amount"
    using core_eqD(2) [OF t] i by (simp add: set_total_issuance_def)
  have acc: "account k t = account k u" for k
    using core_eqD(1) [OF t] by (intro account_cong) (simp add: set_total_issuance_def)
  show "account who t = (account who s)\<lparr>free := free_balance who s + amount\<rparr>"
    using inc(4) am by (simp add: acc)
  show "k \<noteq> who \<Longrightarrow> account k t = account k s"
    using account_other [OF inc(1)] by (simp add: acc)
qed

lemma decrease_issuance_books:
  assumes ok: "books cfg c 0 s"
    and run: "decrease_balance cfg who amount BestEffort preservation force s = (Inr actual, u)"
    and t: "core t = core (set_total_issuance (saturating_sub (total_issuance u) actual) u)"
  shows "books cfg c 0 t" "keeps_claims s t"
    "actual = min amount (reducible_balance cfg who preservation force s)"
proof -
  have b: "balances_ok cfg s" using ok by (simp add: books_def)
  note bk = decrease_balance_books [OF run ok]
  have "books cfg c 0 (set_total_issuance (saturating_sub (total_issuance u) actual) u)"
    by (rule books_total_issuance) (use bk(1) in \<open>auto simp: books_def unat_saturating_sub\<close>)
  then show "books cfg c 0 t"
    using core_eqD(1,2) [OF t] by (simp add: books_def cong: bal_sum_cong balances_ok_cong)
  show "keeps_claims s t"
    using bk(2) set_total_issuance_claims keeps_claims_core [OF t] keeps_claims_trans by metis
  show "actual = min amount (reducible_balance cfg who preservation force s)"
    by (rule decrease_balance_Ok [OF run b]) simp
qed

lemma mint_into_Ok:
  assumes run: "mint_into cfg who amount s = (Inr actual, t)" and ok: "books cfg c 0 s"
  shows "books cfg c 0 t" "keeps_claims s t" "actual = amount"
    "unat (total_issuance t) = unat (total_issuance s) + unat amount"
    "account who t = (account who s)\<lparr>free := free_balance who s + amount\<rparr>"
    "k \<noteq> who \<Longrightarrow> account k t = account k s"
proof -
  from run obtain u x where x: "checked_add (total_issuance s) amount = Some x"
    and u: "increase_balance cfg who amount Exact s = (Inr actual, u)"
    and t: "core t = core (set_total_issuance (saturating_add (total_issuance u) actual) u)"
    by (auto simp: mint_into_def monad bindE_eq_Inr split: option.splits)
  have "unat (total_issuance s) + unat amount < 2 ^ 128"
    using x unat_less_power [of x] by (simp add: checked_add_eq_Some)
  note inc = increase_issuance_books [OF ok this u t]
  show "books cfg c 0 t" "keeps_claims s t" "actual = amount"
    "unat (total_issuance t) = unat (total_issuance s) + unat amount"
    "account who t = (account who s)\<lparr>free := free_balance who s + amount\<rparr>"
    "k \<noteq> who \<Longrightarrow> account k t = account k s"
    by (rule inc; assumption)+
qed

lemma restore_Ok:
  assumes run: "restore cfg who amount s = (Inr actual, t)" and ok: "books cfg c 0 s"
  shows "books cfg c 0 t" "keeps_claims s t" "actual = amount"
    "unat (total_issuance t) = unat (total_issuance s) + unat amount"
proof -
  from run obtain u x where x: "checked_add (total_issuance s) amount = Some x"
    and u: "increase_balance cfg who amount Exact s = (Inr actual, u)"
    and t: "core t = core (set_total_issuance (saturating_add (total_issuance u) actual) u)"
    by (auto simp: restore_def monad bindE_eq_Inr split: option.splits)
  have "unat (total_issuance s) + unat amount < 2 ^ 128"
    using x unat_less_power [of x] by (simp add: checked_add_eq_Some)
  note inc = increase_issuance_books [OF ok this u t]
  show "books cfg c 0 t" "keeps_claims s t" "actual = amount"
    "unat (total_issuance t) = unat (total_issuance s) + unat amount"
    by (rule inc)+
qed

lemma burn_from_Ok:
  assumes run: "burn_from cfg who amount preservation precision force s = (Inr actual, t)"
    and ok: "books cfg c 0 s"
  shows "books cfg c 0 t" "keeps_claims s t"
    "actual = min (reducible_balance cfg who preservation force s) amount"
    "precision = Exact \<longrightarrow> actual = amount"
proof -
  let ?x = "min (reducible_balance cfg who preservation force s) amount"
  from run obtain u where exact: "?x = amount \<or> precision = BestEffort"
    and u: "decrease_balance cfg who ?x BestEffort preservation force s = (Inr actual, u)"
    and t: "core t = core (set_total_issuance (saturating_sub (total_issuance u) actual) u)"
    by (auto simp: burn_from_def monad bindE_eq_Inr split: option.splits if_splits)
  note dec = decrease_issuance_books [OF ok u t]
  show "books cfg c 0 t" "keeps_claims s t" by (rule dec)+
  show a: "actual = min (reducible_balance cfg who preservation force s) amount"
    using dec(3) by (simp add: min.commute)
  show "precision = Exact \<longrightarrow> actual = amount" using exact a by auto
qed

lemma shelve_Ok:
  assumes run: "shelve cfg who amount s = (Inr actual, t)" and ok: "books cfg c 0 s"
  shows "books cfg c 0 t" "keeps_claims s t" "actual = amount"
proof -
  from run obtain u where exact: "min (reducible_balance cfg who Expendable Polite s) amount = amount"
    and u: "decrease_balance cfg who amount BestEffort Expendable Polite s = (Inr actual, u)"
    and t: "core t = core (set_total_issuance (saturating_sub (total_issuance u) actual) u)"
    by (auto simp: shelve_def monad bindE_eq_Inr split: option.splits if_splits)
  note dec = decrease_issuance_books [OF ok u t]
  show "books cfg c 0 t" "keeps_claims s t" by (rule dec)+
  show "actual = amount" using dec(3) exact by (simp add: min.commute)
qed

lemma transfer_cases:
  assumes run: "transfer cfg source dest amount preservation s = (Inr actual, t)"
  obtains (noop) "source = dest \<or> amount = 0" "t = s" "actual = amount"
  | (moved) u v got where "source \<noteq> dest" "amount \<noteq> 0"
    "decrease_balance cfg source amount Exact preservation Polite s = (Inr actual, u)"
    "increase_balance cfg dest actual Exact u = (Inr got, v)" "core t = core v"
  using run
  by (auto simp: transfer_def monad bindE_eq_Inr split: if_splits sum.splits)

lemma transfer_books:
  assumes run: "transfer cfg source dest amount preservation s = (Inr actual, t)"
    and ok: "books cfg c 0 s"
  shows "books cfg c 0 t \<and> keeps_claims s t \<and> actual = amount"
  using run
proof (cases rule: transfer_cases)
  case noop
  with ok show ?thesis by simp
next
  case (moved u v got)
  from ok have "balances_ok cfg s" by (simp add: books_def)
  from decrease_balance_Ok [OF moved(3) this] have actual: "actual = amount" by force
  note dec = decrease_balance_books [OF moved(3) ok]
  have b: "balances_ok cfg u" using dec(1) by (simp add: books_def)
  note inc = increase_balance_books [OF moved(4) dec(1)]
    increase_balance_Ok(7) [OF moved(4) b books_fits [OF dec(1)]]
  have "books cfg c 0 v" using inc by (simp add: books_def)
  then have "books cfg c 0 t"
    using core_eqD(1,2) [OF moved(5)] by (simp add: books_def cong: bal_sum_cong balances_ok_cong)
  moreover have "keeps_claims s t"
    using dec(2) inc(3) keeps_claims_core [OF moved(5)] keeps_claims_trans by metis
  ultimately show ?thesis using actual by simp
qed

text \<open>The effect of a transfer that leaves no dust behind, account by account.\<close>

lemma transfer_effect:
  assumes run: "transfer cfg source dest amount preservation s = (Inr actual, t)"
    and ok: "books cfg c 0 s" and ne: "source \<noteq> dest" "amount \<noteq> 0"
    and no_dust: "dust_of cfg ((account source s)\<lparr>free := free_balance source s - amount\<rparr>) = None"
  shows "unat (free_balance source t) + unat amount = unat (free_balance source s) \<and>
    unat (free_balance dest t) = unat (free_balance dest s) + unat amount \<and>
    (\<forall>k. k \<noteq> source \<longrightarrow> k \<noteq> dest \<longrightarrow> account k t = account k s) \<and>
    total_issuance t = total_issuance s"
  using run
proof (cases rule: transfer_cases)
  case noop
  with ne show ?thesis by auto
next
  case (moved u v got)
  from ok have b: "balances_ok cfg s" by (simp add: books_def)
  from decrease_balance_Ok [OF moved(3) b] obtain w where w: "only_account source s w"
    "u = handle_maybe_dust cfg (dust_of cfg ((account source s)\<lparr>free := free_balance source s - actual\<rparr>)) w"
    "account source w = settle cfg ((account source s)\<lparr>free := free_balance source s - actual\<rparr>)"
    "actual = amount" "actual \<le> reducible_balance cfg source preservation Polite s" by force
  have u: "u = w" using w(2) no_dust by (simp add: w(4) handle_maybe_dust_def)
  have le: "amount \<le> free_balance source s"
    using w(4,5) reducible_le_free order_trans by metis
  note dec = decrease_balance_books [OF moved(3) ok]
  have bu: "balances_ok cfg u" using dec(1) by (simp add: books_def)
  note inc = increase_balance_Ok [OF moved(4) bu books_fits [OF dec(1)]]
  have t: "account k t = account k v" for k using core_eqD(1) [OF moved(5)] by (rule account_cong)
  have "free (account source w) = free_balance source s - amount"
    using no_dust w(3) w(4) by (auto simp: settle_def dust_of_def split: if_splits)
  moreover have "account source t = account source w"
    using account_other [OF inc(1), of source] ne(1) u t by simp
  ultimately have "free_balance source t = free_balance source s - amount" by (simp add: free_balance_def)
  with le have 1: "unat (free_balance source t) + unat amount = unat (free_balance source s)"
    by (simp add: unat_sub word_le_nat_alt)
  have "free_balance dest t = free_balance dest v" by (simp add: free_balance_def t)
  with inc(5,7) w(4) have 2: "unat (free_balance dest t) = unat (free_balance dest s) + unat amount"
    using account_other [OF w(1), of dest] ne(1) u by (simp add: free_balance_def)
  have 3: "account k t = account k s" if "k \<noteq> source" "k \<noteq> dest" for k
    using account_other [OF w(1) that(1)] account_other [OF inc(1) that(2)] u by (simp add: t)
  have 4: "total_issuance t = total_issuance s"
    using core_eqD(2) [OF moved(5)] only_account_fields(1) [OF w(1)] only_account_fields(1) [OF inc(1)] u
    by simp
  from 1 2 3 4 show ?thesis by blast
qed

lemma mint_into_Err:
  assumes "mint_into cfg who amount s = (Inl e, t)" "balances_ok cfg s"
  shows "unharmed cfg s t"
proof -
  have "t = s \<or> increase_balance cfg who amount Exact s = (Inl e, t)"
    using assms(1) by (auto simp: mint_into_def monad bindE_eq_Inl split: option.splits)
  then show ?thesis using assms(2) unharmed_refl increase_balance_Err by blast
qed

lemma burn_from_Err:
  assumes "burn_from cfg who amount pr pe f s = (Inl e, t)" "balances_ok cfg s"
  shows "unharmed cfg s t"
proof -
  have "t = s \<or> (\<exists>x. decrease_balance cfg who x BestEffort pr f s = (Inl e, t))"
    using assms(1) by (auto simp: burn_from_def monad bindE_eq_Inl split: option.splits if_splits)
  then show ?thesis using assms(2) unharmed_refl decrease_balance_Err by blast
qed

lemma set_balance_books:
  assumes run: "set_balance cfg who amount s = (b, t)" and ok: "books cfg c 0 s"
  shows "books cfg c 0 t \<and> keeps_claims s t"
proof -
  from ok have bal: "balances_ok cfg s" by (simp add: books_def)
  have harm: "unharmed cfg s t \<Longrightarrow> ?thesis" using unharmed_books [OF _ ok] by (simp add: unharmed_def)
  show ?thesis
  proof (cases "amount < free_balance who s")
    case True
    then obtain r where r: "burn_from cfg who (free_balance who s - amount) Expendable BestEffort Force s = (r, t)"
      using run by (auto simp: set_balance_def Let_def split: prod.splits sum.splits)
    show ?thesis
    proof (cases r)
      case (Inl e)
      with r show ?thesis using burn_from_Err [OF _ bal] harm by simp
    next
      case (Inr x)
      with r show ?thesis using burn_from_Ok(1,2) [OF _ ok] by simp
    qed
  next
    case False
    then obtain r where r: "mint_into cfg who (amount - free_balance who s) s = (r, t)"
      using run by (auto simp: set_balance_def Let_def split: prod.splits sum.splits)
    show ?thesis
    proof (cases r)
      case (Inl e)
      with r show ?thesis using mint_into_Err [OF _ bal] harm by simp
    next
      case (Inr x)
      with r show ?thesis using mint_into_Ok(1,2) [OF _ ok] by simp
    qed
  qed
qed

section \<open>Checks agree with effects\<close>

text \<open>\<open>write_balance\<close> succeeds exactly within its limit.\<close>

lemma write_balance_total:
  assumes ok: "balances_ok cfg s"
    and le: "saturating_sub (free_balance who s) amount \<le> reducible_balance cfg who Expendable Force s"
  shows "\<exists>md t. write_balance cfg who amount s = (Inr md, t)"
proof -
  have f: "write_closure cfg who amount s (account who s) = (Inr (), (account who s)\<lparr>free := amount\<rparr>)"
    using le by (simp add: write_closure_def free_balance_def)
  have prov: "can_dec_provider who s" if "ed cfg \<le> free (account who s)" "amount < ed cfg"
  proof (rule ccontr)
    assume "\<not> can_dec_provider who s"
    moreover have "free (account who s) \<noteq> 0" using that(1) ed_pos by auto
    ultimately have "unat (free (account who s)) - unat amount \<le> unat (free (account who s)) - unat (ed cfg)"
      using le by (simp add: reducible_balance_def Let_def free_balance_def word_le_nat_alt
          unat_saturating_sub unat_max ed_def)
    with that show False by (simp add: word_le_nat_alt word_less_nat_alt)
  qed
  have "\<exists>md t. try_mutate_account cfg no_drop who False (\<lambda>a _. ret (write_closure cfg who amount s a)) s
      = (Inr (Inr (), md), t)"
    by (rule try_mutate_account_total [OF ok, of _ _ _ "(account who s)\<lparr>free := amount\<rparr>"])
      (use f prov in \<open>simp_all add: ret_def\<close>)
  then show ?thesis by (auto simp: write_balance_closure mutate_account_def monad bindE_def)
qed

lemma word_eq_one: "x \<noteq> 0 \<Longrightarrow> \<not> 1 < x \<Longrightarrow> x = (1 :: u32)"
proof -
  assume "x \<noteq> 0" "\<not> 1 < x"
  then have "unat x \<noteq> 0" "unat x \<le> 1" by (simp_all add: word_less_nat_alt unat_eq_zero not_less)
  then have "unat x = unat (1 :: u32)" by simp
  then show ?thesis by (simp only: word_unat_eq_iff)
qed

lemma reducible_le_expendable:
  assumes "balances_ok cfg s"
  shows "reducible_balance cfg who p f s \<le> reducible_balance cfg who Expendable f s"
proof -
  have "account_ok (ed cfg) (account_get who s)" using assms by (simp add: balances_ok_def)
  then have "\<not> can_dec_provider who s \<longrightarrow> providers_of who s = 1"
    using word_eq_one by (simp add: account_ok_def can_dec_provider_def Let_def providers_of_def)
  note one = this
  define a where "a = account who s"
  define U where "U = (if f = Polite then saturating_sub (frozen a) (reserved a) else 0)"
  have red: "reducible_balance cfg who q f s = saturating_sub (free a)
      (if q = Preserve \<or> q = Protect \<and> free a \<noteq> 0 \<and> providers_of who s = 1
        \<or> q = Expendable \<and> free a \<noteq> 0 \<and> \<not> can_dec_provider who s
       then max U (existential_deposit cfg) else U)" for q
    by (simp add: reducible_balance_def Let_def a_def U_def)
  have mono: "saturating_sub (free a) (max U v) \<le> saturating_sub (free a) U" for v
    by (simp add: word_le_nat_alt unat_saturating_sub unat_max)
  show ?thesis
  proof (cases p)
    case Preserve
    then show ?thesis by (simp add: reducible_mono(1))
  next
    case Protect
    then show ?thesis using one mono unfolding red by simp
  qed simp
qed

lemma decrease_balance_total:
  assumes ok: "balances_ok cfg s" and le: "amount \<le> reducible_balance cfg who p f s"
  shows "\<exists>t. decrease_balance cfg who amount Exact p f s = (Inr amount, t)"
proof -
  have free: "amount \<le> free_balance who s" using le reducible_le_free order_trans by metis
  have "reducible_balance cfg who Expendable f s \<le> reducible_balance cfg who Expendable Force s"
    by (cases f) (simp_all add: reducible_mono(2))
  with le reducible_le_expendable [OF ok, of who p f]
  have "amount \<le> reducible_balance cfg who Expendable Force s" by (meson order_trans)
  moreover have "saturating_sub (free_balance who s) (free_balance who s - amount) = amount"
    using free by (simp add: saturating_sub_def word_sub_le)
  ultimately obtain md u where "write_balance cfg who (free_balance who s - amount) s = (Inr md, u)"
    using write_balance_total [OF ok, of who "free_balance who s - amount"] by auto
  with le free \<open>saturating_sub _ _ = amount\<close> show ?thesis
    by (simp add: decrease_balance_def monad checked_sub_def bindE_def)
qed

lemma increase_balance_total:
  assumes ok: "books cfg c 0 s" and dep: "can_deposit cfg who amount Extant s = DC_Success"
  shows "\<exists>t. increase_balance cfg who amount Exact s = (Inr amount, t) \<or> amount = 0"
proof (cases "amount = 0")
  case False
  let ?a = "account who s"
  from ok have bal: "balances_ok cfg s" by (simp add: books_def)
  have res: "saturating_sub (total_balance who s) (free_balance who s) = reserved ?a"
    using total_exact [OF ok, of who]
    by (simp add: word_unat_eq_iff unat_saturating_sub total_balance_def free_balance_def acct_total_def)
  from dep False obtain new x where new: "checked_add (free ?a) amount = Some new"
    and ed: "\<not> new < minimum_balance cfg" and x: "checked_add (reserved ?a) new = Some x"
    by (auto simp: can_deposit_def Let_def minimum_balance_def split: option.splits if_splits)
  have x': "checked_add new (reserved ?a) = Some x" using x by (simp add: checked_add_eq_Some)
  have n: "unat new = unat (free ?a) + unat amount" using new by (simp add: checked_add_eq_Some)
  then have "saturating_sub (free_balance who s) new = 0" "saturating_sub new (free_balance who s) = amount"
    by (simp_all add: word_unat_eq_iff unat_saturating_sub free_balance_def)
  moreover from this(1) obtain md u where "write_balance cfg who new s = (Inr md, u)"
    using write_balance_total [OF bal, of who new] by auto
  moreover have "new \<noteq> free_balance who s" using n False by (auto simp: free_balance_def unat_eq_zero)
  ultimately show ?thesis
    using new x' ed unfolding increase_balance_def bindE_gets res
    by (simp add: monad bindE_def free_balance_def)
qed simp

lemma can_withdraw_ok:
  assumes ok: "books cfg c 0 s" and le: "amount \<le> reducible_balance cfg who p Polite s" and p: "p \<noteq> Protect"
  shows "\<exists>x. withdraw_into_result (can_withdraw cfg who amount s) (p \<noteq> Expendable) = Inr x"
proof (cases "amount = 0")
  case False
  let ?a = "account who s"
  from ok have bal: "balances_ok cfg s" by (simp add: books_def)
  have free: "unat amount \<le> unat (free ?a)"
    using le reducible_le_free [of cfg who p Polite s] by (simp add: free_balance_def word_le_nat_alt)
  have "acct_total ?a \<le> unat (total_issuance s)"
    using ok account_le_sum [OF books_finite [OF bal], of who] by (simp add: books_def)
  with free have iss: "checked_sub (total_issuance s) amount \<noteq> None"
    by (simp add: checked_sub_eq_None acct_total_def del: not_None_eq)
  have sub: "checked_sub (free ?a) amount = Some (free ?a - amount)"
    using free by (simp add: checked_sub_def word_le_nat_alt)
  have liquid: "\<not> reducible_balance cfg who Expendable Polite s < amount"
    using le reducible_le_expendable [OF bal, of who p Polite] by simp
  note pos = reducible_pos [OF le False]
  have rest: "unat (free ?a - amount) + unat amount = unat (free ?a)"
    using free by (simp add: unat_sub word_le_nat_alt)
  have frozen: "\<not> saturating_add (free ?a - amount) (reserved ?a) < frozen ?a"
    using pos(1) rest unat_less_power [of "frozen ?a"] by (simp add: word_less_nat_alt unat_saturating_add)
  have die: "\<not> (free ?a - amount < existential_deposit cfg \<and> (\<not> can_dec_provider who s \<or> p = Preserve))"
    using pos(2) rest p by (cases p) (auto simp: word_less_nat_alt)
  have "can_withdraw cfg who amount s =
      (if free ?a - amount < existential_deposit cfg then WC_ReducedToZero (free ?a - amount) else WC_Success)"
    using False iss sub liquid frozen die by (auto simp: can_withdraw_def Let_def)
  with die p show ?thesis by (cases p) auto
qed (simp add: can_withdraw_def)

lemma transfer_total:
  assumes ok: "books cfg c 0 s" and le: "amount \<le> reducible_balance cfg source p Polite s"
    and p: "p \<noteq> Protect" and dep: "can_deposit cfg dest amount Extant s = DC_Success"
    and no_dust: "dust_of cfg ((account source s)\<lparr>free := free_balance source s - amount\<rparr>) = None"
  shows "\<exists>t. transfer cfg source dest amount p s = (Inr amount, t)"
proof (cases "source = dest \<or> amount = 0")
  case True
  with can_withdraw_ok [OF ok le p] dep show ?thesis by (auto simp: transfer_def monad)
next
  case False
  from ok have bal: "balances_ok cfg s" by (simp add: books_def)
  from decrease_balance_total [OF bal le] obtain u
    where dec: "decrease_balance cfg source amount Exact p Polite s = (Inr amount, u)" by blast
  from decrease_balance_Ok [OF dec bal] obtain w where w: "only_account source s w"
    "u = handle_maybe_dust cfg (dust_of cfg ((account source s)\<lparr>free := free_balance source s - amount\<rparr>)) w"
    by metis
  then have "only_account source s u" using no_dust by (simp add: handle_maybe_dust_def)
  then have "account dest u = account dest s" using False account_other [of source s u dest] by auto
  then have "can_deposit cfg dest amount Extant u = can_deposit cfg dest amount Extant s"
    by (simp add: can_deposit_def)
  with dep have "can_deposit cfg dest amount Extant u = DC_Success" by simp
  with increase_balance_total [OF decrease_balance_books(1) [OF dec ok]] False obtain v
    where "increase_balance cfg dest amount Exact u = (Inr amount, v)" by blast
  with can_withdraw_ok [OF ok le p] dep dec False show ?thesis
    by (auto simp: transfer_def monad bindE_def)
qed

lemma transfer_checks:
  assumes "transfer cfg source dest amount p s = (Inr actual, t)" "source \<noteq> dest" "amount \<noteq> 0"
  shows "amount \<le> reducible_balance cfg source p Polite s" "can_deposit cfg dest amount Extant s = DC_Success"
proof -
  from assms(1) show "amount \<le> reducible_balance cfg source p Polite s"
    by (cases rule: transfer_cases)
      (use assms in \<open>auto simp: decrease_balance_def monad bindE_eq_Inr split: if_splits\<close>)
  from assms show "can_deposit cfg dest amount Extant s = DC_Success"
    by (auto simp: transfer_def monad deposit_into_result_Inr split: sum.splits)
qed

section \<open>Credits and debts\<close>

text \<open>Issuing creates a credit for exactly what the issuance grew by; rescinding a debt.\<close>

lemma issue_books:
  assumes "issue amount s = (credit, t)" "books cfg c d s"
  shows "books cfg (unat credit + c) d t" "unat credit = min (unat amount) (2 ^ 128 - 1 - unat (total_issuance s))"
    "unat (total_issuance t) = unat (total_issuance s) + unat credit"
proof -
  define new where "new = saturating_add (total_issuance s) amount"
  have n: "unat new = min (unat (total_issuance s) + unat amount) (2 ^ 128 - 1)"
    by (simp add: new_def unat_saturating_add)
  have ge: "total_issuance s \<le> new"
    using n unat_less_power [of "total_issuance s"] by (simp add: word_le_nat_alt)
  have credit: "credit = new - total_issuance s" and t: "core t = core (set_total_issuance new s)"
    using assms(1) by (auto simp: issue_def Let_def new_def split: if_splits)
  have u: "unat credit + unat (total_issuance s) = unat new"
    using ge by (simp add: credit unat_sub word_le_nat_alt)
  have "books cfg (unat credit + c) d (set_total_issuance new s)"
    by (rule books_total_issuance) (use assms(2) u in \<open>auto simp: books_def\<close>)
  then show "books cfg (unat credit + c) d t"
    using core_eqD(1,2) [OF t] by (simp add: books_def cong: bal_sum_cong balances_ok_cong)
  show "unat credit = min (unat amount) (2 ^ 128 - 1 - unat (total_issuance s))"
    using u n unat_less_power [of "total_issuance s"] by simp
  show "unat (total_issuance t) = unat (total_issuance s) + unat credit"
    using core_eqD(2) [OF t] u by (simp add: set_total_issuance_def)
qed

lemma rescind_books:
  assumes "rescind amount s = (debt, t)" "books cfg c d s"
  shows "books cfg c (unat debt + d) t" "unat debt = min (unat amount) (unat (total_issuance s))"
    "unat (total_issuance t) + unat debt = unat (total_issuance s)"
proof -
  define new where "new = saturating_sub (total_issuance s) amount"
  have n: "unat new = unat (total_issuance s) - unat amount"
    by (simp add: new_def unat_saturating_sub)
  then have ge: "new \<le> total_issuance s" by (simp add: word_le_nat_alt)
  have debt: "debt = total_issuance s - new" and t: "core t = core (set_total_issuance new s)"
    using assms(1) by (auto simp: rescind_def Let_def new_def)
  have u: "unat debt + unat new = unat (total_issuance s)"
    using ge by (simp add: debt unat_sub word_le_nat_alt)
  have "books cfg c (unat debt + d) (set_total_issuance new s)"
    by (rule books_total_issuance) (use assms(2) u in \<open>auto simp: books_def\<close>)
  then show "books cfg c (unat debt + d) t"
    using core_eqD(1,2) [OF t] by (simp add: books_def cong: bal_sum_cong balances_ok_cong)
  show "unat debt = min (unat amount) (unat (total_issuance s))" using u n by simp
  show "unat (total_issuance t) + unat debt = unat (total_issuance s)"
    using core_eqD(2) [OF t] u by (simp add: set_total_issuance_def)
qed

text \<open>
  A credit that is resolved into an account, or handed back, is accounted for on both paths.
\<close>

lemma deposit_Ok:
  assumes "deposit cfg who v precision s = (Inr debt, t)"
  obtains u where "increase_balance cfg who v precision s = (Inr debt, u)" "core t = core u"
  using assms by (auto simp: deposit_def monad bindE_eq_Inr)

lemma resolve_books:
  assumes run: "resolve cfg who credit s = (r, t)" and ok: "books cfg (unat credit + c) 0 s"
  shows "case r of Inr _ \<Rightarrow> books cfg c 0 t \<and> keeps_claims s t \<and>
        free_balance who t = free_balance who s + credit
      | Inl back \<Rightarrow> back = credit \<and> unharmed cfg s t"
proof (cases "deposit cfg who credit Exact s")
  case (Pair res u)
  from ok have bal: "balances_ok cfg s" by (simp add: books_def)
  show ?thesis
  proof (cases res)
    case (Inl e)
    then have "increase_balance cfg who credit Exact s = (Inl e, u)"
      using Pair by (auto simp: deposit_def monad bindE_eq_Inl)
    with run Pair Inl increase_balance_Err [OF _ bal] show ?thesis by (auto simp: resolve_def)
  next
    case (Inr debt)
    with Pair obtain v where v: "increase_balance cfg who credit Exact s = (Inr debt, v)" "core u = core v"
      by (auto elim: deposit_Ok)
    note inc = increase_balance_books [OF v(1) ok] increase_balance_Ok(4,7) [OF v(1) bal books_fits [OF ok]]
    have d: "debt = credit" using inc(6) by simp
    with run Pair Inr have t: "r = Inr ()" "t = u" by (auto simp: resolve_def offset_def)
    have "books cfg c 0 v" using inc d by (simp add: books_def)
    then have "books cfg c 0 u"
      using core_eqD(1,2) [OF v(2)] by (simp add: books_def cong: bal_sum_cong balances_ok_cong)
    moreover have "keeps_claims s u" using inc(3) keeps_claims_core [OF v(2)] keeps_claims_trans by blast
    moreover have "account who u = account who v" using core_eqD(1) [OF v(2)] by (rule account_cong)
    ultimately show ?thesis using t inc(5) d by (simp add: free_balance_def)
  qed
qed

end

section \<open>Properties\<close>

text \<open>
  C1. A successful \<open>transfer\<close> moves exactly the requested amount, keeps every account backed by
  the references it needs, keeps the sum of all balances equal to the total issuance (dust
  that the source leaves behind included), and touches no lock, freeze, hold or reserve.
\<close>

theorem transfer_conserves:
  assumes "books_cfg cfg" "books cfg 0 0 s"
    and "transfer cfg source dest amount preservation s = (Inr actual, t)"
  shows "books cfg 0 0 t \<and> keeps_claims s t \<and> actual = amount"
  by (rule books_cfg.transfer_books [OF assms(1,3,2)])

theorem transfer_conserves_witness:
  "books (test_default_config 10 0 0) 0 0
     (snd (transfer (test_default_config 10 0 0) 1 2 95 Expendable (two_accounts 100 50)))"
proof -
  let ?cfg = "test_default_config 10 0 0 :: (nat, unit) cfg" and ?s = "two_accounts 100 50"
  have "books ?cfg 0 0 ?s" by (rule books_two_accounts) (simp_all add: test_default_config_def)
  moreover have "fst (transfer ?cfg 1 2 95 Expendable ?s) = Inr 95" by code_simp
  ultimately show ?thesis
    using transfer_conserves [OF ed10_cfg.books_cfg_axioms] by (metis prod.collapse)
qed

text \<open>
  C12. A successful transfer of a nonzero amount between two different accounts that leaves no dust
  behind takes the amount from the free balance of the source and adds it to the free balance of the
  destination. No other account's data changes, no reserved or frozen balance, no lock, freeze, hold
  or named reserve of any account, and not the total issuance.
\<close>

theorem transfer_moves:
  assumes "books_cfg cfg" "books cfg 0 0 s"
    and "transfer cfg source dest amount preservation s = (Inr actual, t)"
    and "source \<noteq> dest" "amount \<noteq> 0"
    and "dust_of cfg ((account source s)\<lparr>free := free_balance source s - amount\<rparr>) = None"
  shows "unat (free_balance source t) + unat amount = unat (free_balance source s) \<and>
    unat (free_balance dest t) = unat (free_balance dest s) + unat amount \<and>
    (\<forall>k. k \<noteq> source \<longrightarrow> k \<noteq> dest \<longrightarrow> account k t = account k s) \<and>
    keeps_claims s t \<and>
    total_issuance t = total_issuance s"
  using books_cfg.transfer_effect [OF assms(1,3,2,4-6)] books_cfg.transfer_books [OF assms(1,3,2)] by blast

theorem transfer_moves_witness:
  "unat (free_balance 2 (snd (transfer (test_default_config 1 0 0) 1 2 30 Preserve (two_accounts 100 50)))) = 80"
proof -
  let ?cfg = "test_default_config 1 0 0 :: (nat, unit) cfg" and ?s = "two_accounts 100 50"
  have "books ?cfg 0 0 ?s" by (rule books_two_accounts) (simp_all add: test_default_config_def)
  moreover have "fst (transfer ?cfg 1 2 30 Preserve ?s) = Inr 30" by code_simp
  moreover have "dust_of ?cfg ((account 1 ?s)\<lparr>free := free_balance 1 ?s - 30\<rparr>) = None" by code_simp
  moreover have "free_balance 2 ?s = 50" by code_simp
  ultimately show ?thesis
    using transfer_moves [OF default_cfg.books_cfg_axioms, of 0 0 ?s 1 2 30 Preserve 30
        "snd (transfer ?cfg 1 2 30 Preserve ?s)"]
    by (simp add: prod_eq_iff)
qed

text \<open>
  C13. A transfer of a nonzero amount between two different accounts, with preservation
  \<open>Expendable\<close> or \<open>Preserve\<close> (not \<open>Protect\<close>) and leaving no dust at the source, succeeds exactly
  when the amount is reducible from the source and depositable at the destination: the checks
  made up front agree with the mutation.
\<close>

theorem transfer_succeeds_iff:
  assumes "books_cfg cfg" "books cfg 0 0 s"
    and "source \<noteq> dest" "amount \<noteq> 0" "preservation \<noteq> Protect"
    and "dust_of cfg ((account source s)\<lparr>free := free_balance source s - amount\<rparr>) = None"
  shows "(\<exists>t. transfer cfg source dest amount preservation s = (Inr amount, t)) \<longleftrightarrow>
    amount \<le> reducible_balance cfg source preservation Polite s \<and>
    can_deposit cfg dest amount Extant s = DC_Success"
  using books_cfg.transfer_total [OF assms(1,2) _ assms(5) _ assms(6)]
    books_cfg.transfer_checks [OF assms(1) _ assms(3,4)] by blast

theorem transfer_succeeds_iff_witness:
  "\<exists>t. transfer (test_default_config 1 0 0) 1 2 99 Preserve (two_accounts 100 50) = (Inr 99, t)"
proof -
  let ?cfg = "test_default_config 1 0 0 :: (nat, unit) cfg" and ?s = "two_accounts 100 50"
  have "books ?cfg 0 0 ?s" by (rule books_two_accounts) (simp_all add: test_default_config_def)
  moreover have "dust_of ?cfg ((account 1 ?s)\<lparr>free := free_balance 1 ?s - 99\<rparr>) = None" by code_simp
  moreover have "99 \<le> reducible_balance ?cfg 1 Preserve Polite ?s" by code_simp
  moreover have "can_deposit ?cfg 2 99 Extant ?s = DC_Success" by code_simp
  ultimately show ?thesis
    using transfer_succeeds_iff [OF default_cfg.books_cfg_axioms, of 0 0 ?s 1 2 99 Preserve] by simp
qed

end
