(* ===== verification/Holds.thy ===== *)
theory Holds
  imports Fungible
begin

text \<open>
  Holds and freezes of the balances pallet: the \<open>hold\<close> and \<open>freeze\<close> modules of the \<open>fungible\<close>
  traits, with the pallet's own methods (\<open>frame/balances/src/impl_fungible.rs\<close>) and the provided
  methods of the traits (\<open>frame/support/src/traits/tokens/fungible/hold.rs\<close>, \<open>freeze.rs\<close>).

  The lemmas show that an account's reserved balance moves in step with the sum of its holds,
  that its frozen balance is the largest of its locks and freezes, and that the operations keep
  the books balanced.
\<close>

section \<open>Inspecting holds\<close>

definition holds_of :: "'a \<Rightarrow> ('a, 'm) runtime_scheme \<Rightarrow> id_amount list" where
  "holds_of who s = storage_get holds_map [] who s"

definition total_balance_on_hold :: "'a \<Rightarrow> ('a, 'm) runtime_scheme \<Rightarrow> balance" where
  "total_balance_on_hold who s = reserved (account who s)"

definition reducible_total_balance_on_hold ::
  "'a \<Rightarrow> fortitude \<Rightarrow> ('a, 'm) runtime_scheme \<Rightarrow> balance" where
  "reducible_total_balance_on_hold who force s =
     (let a = account who s;
          unavailable = (if force = Force then 0 else saturating_sub (frozen a) (free a))
      in saturating_sub (reserved a) unavailable)"

definition balance_on_hold :: "hold_reason \<Rightarrow> 'a \<Rightarrow> ('a, 'm) runtime_scheme \<Rightarrow> balance" where
  "balance_on_hold reason who s =
     (case find (\<lambda>x. ia_id x = reason) (holds_of who s) of None \<Rightarrow> 0 | Some x \<Rightarrow> ia_amount x)"

definition hold_available :: "('a, 'm) cfg \<Rightarrow> hold_reason \<Rightarrow> 'a \<Rightarrow> ('a, 'm) runtime_scheme \<Rightarrow> bool" where
  "hold_available cfg reason who s =
     (if providers_of who s = 0 then False
      else
        let holds = holds_of who s in
        if hold_variant_count cfg \<le> length holds \<and> \<not> list_ex (\<lambda>x. ia_id x = reason) holds then False
        else True)"

definition ensure_can_hold ::
  "('a, 'm) cfg \<Rightarrow> hold_reason \<Rightarrow> 'a \<Rightarrow> balance \<Rightarrow> (('a, 'm) runtime_scheme, dispatch_error, unit) comp" where
  "ensure_can_hold cfg reason who amount =
     bindE (getsE (reducible_balance cfg who Protect Force)) (\<lambda>reducible.
     bindE (ensureE (amount \<le> reducible) (DE_Token TE_FundsUnavailable)) (\<lambda>_.
     bindE (getsE (hold_available cfg reason who)) (\<lambda>available.
     ensureE available (DE_Token TE_CannotCreateHold))))"

definition can_hold ::
  "('a, 'm) cfg \<Rightarrow> hold_reason \<Rightarrow> 'a \<Rightarrow> balance \<Rightarrow> ('a, 'm) runtime_scheme \<Rightarrow> bool" where
  "can_hold cfg reason who amount s = (case fst (ensure_can_hold cfg reason who amount s) of Inr _ \<Rightarrow> True | Inl _ \<Rightarrow> False)"

section \<open>Changing holds\<close>

text \<open>\<open>set_amount\<close> assigns to the first entry with the given identifier, as \<open>iter_mut().find\<close> does.\<close>

fun set_amount :: "nat \<Rightarrow> balance \<Rightarrow> id_amount list \<Rightarrow> id_amount list" where
  "set_amount i amount [] = []"
| "set_amount i amount (x # xs) =
     (if ia_id x = i then x\<lparr>ia_amount := amount\<rparr> # xs else x # set_amount i amount xs)"

definition set_balance_on_hold ::
  "('a, 'm) cfg \<Rightarrow> hold_reason \<Rightarrow> 'a \<Rightarrow> balance \<Rightarrow> (('a, 'm) runtime_scheme, dispatch_error, unit) comp" where
  "set_balance_on_hold cfg reason who amount =
     bindE (getsE (account who)) (\<lambda>new_account.
     bindE (getsE (holds_of who)) (\<lambda>holds.
     bindE (case find (\<lambda>x. ia_id x = reason) holds of
              Some item \<Rightarrow>
                ret (ia_amount item < amount,
                     max (ia_amount item) amount - min (ia_amount item) amount,
                     filter (\<lambda>x. ia_amount x \<noteq> 0) (set_amount reason amount holds))
            | None \<Rightarrow>
                if amount \<noteq> 0
                then if length holds < hold_variant_count cfg
                     then ret (True, amount, holds @ [\<lparr>ia_id = reason, ia_amount = amount\<rparr>])
                     else raise (DE_Module TooManyHolds)
                else ret (True, amount, holds)) (\<lambda>(increase, delta, holds).
     bindE (if increase
            then ok_or (checked_add (reserved new_account) delta) (DE_Arithmetic AE_Overflow)
            else ok_or (checked_sub (reserved new_account) delta) (DE_Arithmetic AE_Underflow)) (\<lambda>new_reserved.
     bindE (try_mutate_account cfg no_drop who False
              (\<lambda>_ _. ret ((), new_account\<lparr>reserved := new_reserved\<rparr>))) (\<lambda>(result, maybe_dust).
     bindE (modifyE (\<lambda>s. s\<lparr>holds_map := (holds_map s)(who := if holds = [] then None else Some holds)\<rparr>)) (\<lambda>_.
     bindE (modifyE (\<lambda>s. case maybe_dust of Some dust \<Rightarrow> handle_raw_dust cfg dust s | None \<Rightarrow> s)) (\<lambda>_.
     ret result)))))))"

definition decrease_balance_on_hold ::
  "('a, 'm) cfg \<Rightarrow> hold_reason \<Rightarrow> 'a \<Rightarrow> balance \<Rightarrow> precision \<Rightarrow>
   (('a, 'm) runtime_scheme, dispatch_error, balance) comp" where
  "decrease_balance_on_hold cfg reason who amount precision =
     bindE (getsE (balance_on_hold reason who)) (\<lambda>old_balance.
     let amount = (if precision = BestEffort then min amount old_balance else amount) in
     bindE (ok_or (checked_sub old_balance amount) (DE_Token TE_FundsUnavailable)) (\<lambda>new_balance.
     bindE (set_balance_on_hold cfg reason who new_balance) (\<lambda>_.
     ret amount)))"

definition increase_balance_on_hold ::
  "('a, 'm) cfg \<Rightarrow> hold_reason \<Rightarrow> 'a \<Rightarrow> balance \<Rightarrow> precision \<Rightarrow>
   (('a, 'm) runtime_scheme, dispatch_error, balance) comp" where
  "increase_balance_on_hold cfg reason who amount precision =
     bindE (getsE (balance_on_hold reason who)) (\<lambda>old_balance.
     bindE (if precision = BestEffort then ret (saturating_add old_balance amount)
            else ok_or (checked_add old_balance amount) (DE_Arithmetic AE_Overflow)) (\<lambda>new_balance.
     let amount = saturating_sub new_balance old_balance in
     bindE (if amount \<noteq> 0 then set_balance_on_hold cfg reason who new_balance else ret ()) (\<lambda>_.
     ret amount)))"

definition hold ::
  "('a, 'm) cfg \<Rightarrow> hold_reason \<Rightarrow> 'a \<Rightarrow> balance \<Rightarrow> (('a, 'm) runtime_scheme, dispatch_error, unit) comp" where
  "hold cfg reason who amount =
     bindE (ensure_can_hold cfg reason who amount) (\<lambda>_.
     bindE (decrease_balance cfg who amount Exact Protect Force) (\<lambda>_.
     bindE (increase_balance_on_hold cfg reason who amount BestEffort) (\<lambda>_.
     modifyE (deposit_event (Balances (Ev_Held reason who amount))))))"

definition release ::
  "('a, 'm) cfg \<Rightarrow> hold_reason \<Rightarrow> 'a \<Rightarrow> balance \<Rightarrow> precision \<Rightarrow>
   (('a, 'm) runtime_scheme, dispatch_error, balance) comp" where
  "release cfg reason who amount precision =
     bindE (getsE (can_deposit cfg who amount Extant)) (\<lambda>c.
     bindE (ensureE (c = DC_Success) (DE_Token TE_CannotCreate)) (\<lambda>_.
     bindE (decrease_balance_on_hold cfg reason who amount precision) (\<lambda>amount.
     bindE (increase_balance cfg who amount BestEffort) (\<lambda>actual.
     bindE (modifyE (deposit_event (Balances (Ev_Released reason who actual)))) (\<lambda>_.
     ret actual)))))"

definition set_on_hold ::
  "('a, 'm) cfg \<Rightarrow> hold_reason \<Rightarrow> 'a \<Rightarrow> balance \<Rightarrow> (('a, 'm) runtime_scheme, dispatch_error, unit) comp" where
  "set_on_hold cfg reason who amount =
     bindE (getsE (balance_on_hold reason who)) (\<lambda>current_amount.
     if current_amount < amount then hold cfg reason who (amount - current_amount)
     else if amount < current_amount
     then bindE (release cfg reason who (current_amount - amount) Exact) (\<lambda>_. ret ())
     else ret ())"

definition release_all ::
  "('a, 'm) cfg \<Rightarrow> hold_reason \<Rightarrow> 'a \<Rightarrow> precision \<Rightarrow> (('a, 'm) runtime_scheme, dispatch_error, balance) comp" where
  "release_all cfg reason who precision =
     bindE (getsE (balance_on_hold reason who)) (\<lambda>amount. release cfg reason who amount precision)"

definition burn_held ::
  "('a, 'm) cfg \<Rightarrow> hold_reason \<Rightarrow> 'a \<Rightarrow> balance \<Rightarrow> precision \<Rightarrow> fortitude \<Rightarrow>
   (('a, 'm) runtime_scheme, dispatch_error, balance) comp" where
  "burn_held cfg reason who amount precision force =
     bindE (getsE (reducible_total_balance_on_hold who force)) (\<lambda>liquid.
     bindE (if precision = BestEffort then ret (min amount liquid)
            else bindE (ensureE (amount \<le> liquid) (DE_Token TE_Frozen)) (\<lambda>_. ret amount)) (\<lambda>amount.
     bindE (decrease_balance_on_hold cfg reason who amount precision) (\<lambda>amount.
     bindE (modifyE (\<lambda>s. set_total_issuance (saturating_sub (total_issuance s) amount) s)) (\<lambda>_.
     bindE (modifyE (deposit_event (Balances (Ev_BurnedHeld reason who amount)))) (\<lambda>_.
     ret amount)))))"

definition burn_all_held ::
  "('a, 'm) cfg \<Rightarrow> hold_reason \<Rightarrow> 'a \<Rightarrow> precision \<Rightarrow> fortitude \<Rightarrow>
   (('a, 'm) runtime_scheme, dispatch_error, balance) comp" where
  "burn_all_held cfg reason who precision force =
     bindE (getsE (balance_on_hold reason who)) (\<lambda>amount. burn_held cfg reason who amount precision force)"

definition transfer_on_hold ::
  "('a, 'm) cfg \<Rightarrow> hold_reason \<Rightarrow> 'a \<Rightarrow> 'a \<Rightarrow> balance \<Rightarrow> precision \<Rightarrow> restriction \<Rightarrow> fortitude \<Rightarrow>
   (('a, 'm) runtime_scheme, dispatch_error, balance) comp" where
  "transfer_on_hold cfg reason source dest amount precision mode force =
     bindE (getsE (balance_on_hold reason source)) (\<lambda>have.
     bindE (getsE (reducible_total_balance_on_hold source force)) (\<lambda>liquid.
     bindE (if precision = BestEffort then ret (min (min amount liquid) have)
            else bindE (ensureE (amount \<le> liquid) (DE_Token TE_Frozen)) (\<lambda>_.
                 bindE (ensureE (amount \<le> have) (DE_Token TE_FundsUnavailable)) (\<lambda>_.
                 ret amount))) (\<lambda>amount.
     bindE (getsE (can_deposit cfg dest amount Extant)) (\<lambda>c.
     bindE (ensureE (c = DC_Success) (DE_Token TE_CannotCreate)) (\<lambda>_.
     bindE (getsE (hold_available cfg reason dest)) (\<lambda>available.
     bindE (ensureE (mode = R_Free \<or> available) (DE_Token TE_CannotCreateHold)) (\<lambda>_.
     bindE (decrease_balance_on_hold cfg reason source amount precision) (\<lambda>amount.
     bindE (if mode = R_OnHold then increase_balance_on_hold cfg reason dest amount precision
            else increase_balance cfg dest amount precision) (\<lambda>actual.
     bindE (modifyE (deposit_event (Balances (Ev_TransferOnHold reason source dest actual)))) (\<lambda>_.
     ret actual))))))))))"

definition transfer_and_hold ::
  "('a, 'm) cfg \<Rightarrow> hold_reason \<Rightarrow> 'a \<Rightarrow> 'a \<Rightarrow> balance \<Rightarrow> precision \<Rightarrow> preservation \<Rightarrow> fortitude \<Rightarrow>
   (('a, 'm) runtime_scheme, dispatch_error, balance) comp" where
  "transfer_and_hold cfg reason source dest amount precision expendability force =
     bindE (getsE (hold_available cfg reason dest)) (\<lambda>available.
     bindE (ensureE available (DE_Token TE_CannotCreateHold)) (\<lambda>_.
     bindE (getsE (can_deposit cfg dest amount Extant)) (\<lambda>c.
     bindE (ensureE (c = DC_Success) (DE_Token TE_CannotCreate)) (\<lambda>_.
     bindE (decrease_balance cfg source amount precision expendability force) (\<lambda>actual.
     bindE (increase_balance_on_hold cfg reason dest actual precision) (\<lambda>_.
     bindE (modifyE (deposit_event (Balances (Ev_TransferAndHold reason source dest actual)))) (\<lambda>_.
     ret actual)))))))"

text \<open>\<open>slash_held\<close> is \<open>BalancedHold::slash\<close>: the credit, and what could not be slashed.\<close>

definition slash_held ::
  "('a, 'm) cfg \<Rightarrow> hold_reason \<Rightarrow> 'a \<Rightarrow> balance \<Rightarrow> ('a, 'm) runtime_scheme \<Rightarrow>
   (balance \<times> balance) \<times> ('a, 'm) runtime_scheme" where
  "slash_held cfg reason who amount s =
     (case decrease_balance_on_hold cfg reason who amount BestEffort s of (r, s1) \<Rightarrow>
        let decrease = (case r of Inr x \<Rightarrow> x | Inl _ \<Rightarrow> 0);
            s2 = done_slash_handler cfg reason who decrease s1
        in ((decrease, saturating_sub amount decrease), s2))"

section \<open>Freezes\<close>

definition freezes_of :: "'a \<Rightarrow> ('a, 'm) runtime_scheme \<Rightarrow> id_amount list" where
  "freezes_of who s = storage_get freezes_map [] who s"

definition balance_frozen :: "freeze_id \<Rightarrow> 'a \<Rightarrow> ('a, 'm) runtime_scheme \<Rightarrow> balance" where
  "balance_frozen i who s =
     (case find (\<lambda>x. ia_id x = i) (freezes_of who s) of None \<Rightarrow> 0 | Some x \<Rightarrow> ia_amount x)"

definition can_freeze :: "('a, 'm) cfg \<Rightarrow> freeze_id \<Rightarrow> 'a \<Rightarrow> ('a, 'm) runtime_scheme \<Rightarrow> bool" where
  "can_freeze cfg i who s =
     (let l = freezes_of who s
      in \<not> freeze_variant_count cfg \<le> length l \<or> list_ex (\<lambda>x. ia_id x = i) l)"

definition balance_freezable :: "'a \<Rightarrow> ('a, 'm) runtime_scheme \<Rightarrow> balance" where
  "balance_freezable who s = total_balance who s"

text \<open>The frozen balance that a list of locks and a list of freezes ask for.\<close>

definition frozen_for :: "balance_lock list \<Rightarrow> id_amount list \<Rightarrow> balance" where
  "frozen_for ls fs =
     fold (\<lambda>l b. max b (ia_amount l)) fs (fold (\<lambda>l b. max b (lock_amount l)) ls 0)"

definition update_freezes ::
  "('a, 'm) cfg \<Rightarrow> 'a \<Rightarrow> id_amount list \<Rightarrow> (('a, 'm) runtime_scheme, dispatch_error, unit) comp" where
  "update_freezes cfg who freezes =
     bindE (try_mutate_account cfg no_drop who False (\<lambda>b _.
       bindE (getsE (locks who)) (\<lambda>ls.
       let prev_frozen = frozen b; after_frozen = frozen_for ls freezes
       in ret ((prev_frozen, after_frozen), b\<lparr>frozen := after_frozen\<rparr>))))
       (\<lambda>((prev_frozen, after_frozen), maybe_dust).
     bindE (modifyE (\<lambda>s. s\<lparr>freezes_map := (freezes_map s)(who := if freezes = [] then None else Some freezes)\<rparr>)) (\<lambda>_.
     bindE (modifyE (\<lambda>s. case maybe_dust of Some dust \<Rightarrow> handle_raw_dust cfg dust s | None \<Rightarrow> s)) (\<lambda>_.
     modifyE (\<lambda>s.
       if after_frozen < prev_frozen
       then deposit_event (Balances (Ev_Thawed who (saturating_sub prev_frozen after_frozen))) s
       else if prev_frozen < after_frozen
       then deposit_event (Balances (Ev_Frozen who (saturating_sub after_frozen prev_frozen))) s
       else s))))"

definition thaw ::
  "('a, 'm) cfg \<Rightarrow> freeze_id \<Rightarrow> 'a \<Rightarrow> (('a, 'm) runtime_scheme, dispatch_error, unit) comp" where
  "thaw cfg i who =
     bindE (getsE (freezes_of who)) (\<lambda>fs. update_freezes cfg who (filter (\<lambda>l. ia_id l \<noteq> i) fs))"

definition set_freeze ::
  "('a, 'm) cfg \<Rightarrow> freeze_id \<Rightarrow> 'a \<Rightarrow> balance \<Rightarrow> (('a, 'm) runtime_scheme, dispatch_error, unit) comp" where
  "set_freeze cfg i who amount =
     (if amount = 0 then thaw cfg i who
      else
        bindE (getsE (freezes_of who)) (\<lambda>fs.
        bindE (if list_ex (\<lambda>x. ia_id x = i) fs then ret (set_amount i amount fs)
               else if length fs < freeze_variant_count cfg
               then ret (fs @ [\<lparr>ia_id = i, ia_amount = amount\<rparr>])
               else raise (DE_Module TooManyFreezes)) (\<lambda>fs.
        update_freezes cfg who fs)))"

definition extend_freeze ::
  "('a, 'm) cfg \<Rightarrow> freeze_id \<Rightarrow> 'a \<Rightarrow> balance \<Rightarrow> (('a, 'm) runtime_scheme, dispatch_error, unit) comp" where
  "extend_freeze cfg i who amount =
     (if amount = 0 then ret ()
      else
        bindE (getsE (freezes_of who)) (\<lambda>fs.
        bindE (case find (\<lambda>x. ia_id x = i) fs of
                 Some x \<Rightarrow> ret (set_amount i (max (ia_amount x) amount) fs)
               | None \<Rightarrow>
                   if length fs < freeze_variant_count cfg
                   then ret (fs @ [\<lparr>ia_id = i, ia_amount = amount\<rparr>])
                   else raise (DE_Module TooManyFreezes)) (\<lambda>fs.
        update_freezes cfg who fs)))"

definition set_frozen ::
  "('a, 'm) cfg \<Rightarrow> freeze_id \<Rightarrow> 'a \<Rightarrow> balance \<Rightarrow> fortitude \<Rightarrow> (('a, 'm) runtime_scheme, dispatch_error, unit) comp" where
  "set_frozen cfg i who amount fortitude =
     bindE (getsE (balance_freezable who)) (\<lambda>freezable.
     bindE (ensureE (fortitude = Force \<or> amount \<le> freezable) (DE_Token TE_FundsUnavailable)) (\<lambda>_.
     set_freeze cfg i who amount))"

definition ensure_frozen ::
  "('a, 'm) cfg \<Rightarrow> freeze_id \<Rightarrow> 'a \<Rightarrow> balance \<Rightarrow> fortitude \<Rightarrow> (('a, 'm) runtime_scheme, dispatch_error, unit) comp" where
  "ensure_frozen cfg i who amount fortitude =
     bindE (getsE (balance_freezable who)) (\<lambda>freezable.
     bindE (ensureE (fortitude = Force \<or> amount \<le> freezable) (DE_Token TE_FundsUnavailable)) (\<lambda>_.
     extend_freeze cfg i who amount))"

definition decrease_frozen ::
  "('a, 'm) cfg \<Rightarrow> freeze_id \<Rightarrow> 'a \<Rightarrow> balance \<Rightarrow> (('a, 'm) runtime_scheme, dispatch_error, unit) comp" where
  "decrease_frozen cfg i who amount =
     bindE (getsE (balance_frozen i who)) (\<lambda>b.
     bindE (ok_or (checked_sub b amount) (DE_Arithmetic AE_Underflow)) (\<lambda>a.
     set_freeze cfg i who a))"

definition increase_frozen ::
  "('a, 'm) cfg \<Rightarrow> freeze_id \<Rightarrow> 'a \<Rightarrow> balance \<Rightarrow> (('a, 'm) runtime_scheme, dispatch_error, unit) comp" where
  "increase_frozen cfg i who amount =
     bindE (getsE (balance_frozen i who)) (\<lambda>b.
     bindE (ok_or (checked_add b amount) (DE_Arithmetic AE_Overflow)) (\<lambda>a.
     set_frozen cfg i who a Polite))"

section \<open>Holds and the reserved balance\<close>

definition hold_sum :: "'a \<Rightarrow> ('a, 'm) runtime_scheme \<Rightarrow> nat" where
  "hold_sum who s = sum_list (map (\<lambda>x. unat (ia_amount x)) (holds_of who s))"

text \<open>
  Every hold is backed by the reserved balance, and an account has at most one hold per reason.
\<close>

definition holds_ok :: "('a, 'm) runtime_scheme \<Rightarrow> bool" where
  "holds_ok s \<longleftrightarrow> (\<forall>k. hold_sum k s \<le> unat (reserved (account k s)) \<and> distinct (map ia_id (holds_of k s)))"

lemma set_amount_sum:
  "find (\<lambda>x. ia_id x = i) xs = Some item \<Longrightarrow>
     sum_list (map (\<lambda>x. unat (ia_amount x)) (set_amount i amount xs)) + unat (ia_amount item) =
     sum_list (map (\<lambda>x. unat (ia_amount x)) xs) + unat amount"
  by (induction xs) (auto split: if_splits)

lemma filter_sum:
  "sum_list (map (\<lambda>x. unat (ia_amount x)) (filter (\<lambda>x. ia_amount x \<noteq> 0) xs)) =
   sum_list (map (\<lambda>x. unat (ia_amount x)) xs)"
  by (induction xs) auto

lemma set_amount_ids: "map ia_id (set_amount i amount xs) = map ia_id xs"
  by (induction xs) auto

lemma find_amount_le:
  "find (\<lambda>x. ia_id x = i) xs = Some item \<Longrightarrow> unat (ia_amount item) \<le> sum_list (map (\<lambda>x. unat (ia_amount x)) xs)"
  by (induction xs) (auto split: if_splits)

lemma find_set_amount:
  "find (\<lambda>x. ia_id x = j) (set_amount i amount xs) =
     map_option (\<lambda>x. if j = i then x\<lparr>ia_amount := amount\<rparr> else x) (find (\<lambda>x. ia_id x = j) xs)"
  by (induction xs) (auto simp: option.map_ident)

lemma find_filter_distinct:
  "distinct (map ia_id xs) \<Longrightarrow>
     find (\<lambda>x. ia_id x = j) (filter P xs) =
       (case find (\<lambda>x. ia_id x = j) xs of Some x \<Rightarrow> if P x then Some x else None | None \<Rightarrow> None)"
proof (induction xs)
  case (Cons x xs)
  have "find (\<lambda>x. ia_id x = j) xs = None" if "ia_id x = j"
    using Cons.prems that by (auto simp: find_None_iff image_iff)
  with Cons show ?case by (auto split: option.splits)
qed simp

lemma distinct_ids_filter: "distinct (map ia_id xs) \<Longrightarrow> distinct (map ia_id (filter P xs))"
  by (simp add: distinct_map_filter)

text \<open>The list of holds after \<open>set_balance_on_hold\<close>.\<close>

definition new_holds :: "hold_reason \<Rightarrow> balance \<Rightarrow> id_amount list \<Rightarrow> id_amount list" where
  "new_holds reason amount hs =
     (if list_ex (\<lambda>x. ia_id x = reason) hs then filter (\<lambda>x. ia_amount x \<noteq> 0) (set_amount reason amount hs)
      else if amount = 0 then hs else hs @ [\<lparr>ia_id = reason, ia_amount = amount\<rparr>])"

definition amount_in :: "nat \<Rightarrow> id_amount list \<Rightarrow> balance" where
  "amount_in i hs = (case find (\<lambda>x. ia_id x = i) hs of None \<Rightarrow> 0 | Some x \<Rightarrow> ia_amount x)"

lemma list_ex_find: "list_ex (\<lambda>x. ia_id x = i) hs \<longleftrightarrow> find (\<lambda>x. ia_id x = i) hs \<noteq> None"
  by (auto simp: list_ex_iff find_None_iff)

lemma find_append_single:
  "find P (xs @ [y]) = (case find P xs of Some x \<Rightarrow> Some x | None \<Rightarrow> if P y then Some y else None)"
  by (induction xs) auto

lemma new_holds_sum:
  "sum_list (map (\<lambda>x. unat (ia_amount x)) (new_holds reason amount hs)) + unat (amount_in reason hs) =
   sum_list (map (\<lambda>x. unat (ia_amount x)) hs) + unat amount"
  using set_amount_sum [of reason hs _ amount]
  by (auto simp: new_holds_def amount_in_def list_ex_find filter_sum split: option.split)

lemma new_holds_distinct: "distinct (map ia_id hs) \<Longrightarrow> distinct (map ia_id (new_holds reason amount hs))"
  by (auto simp: new_holds_def list_ex_iff distinct_ids_filter set_amount_ids)

lemma amount_in_new_holds:
  assumes "distinct (map ia_id hs)"
  shows "amount_in j (new_holds reason amount hs) = (if j = reason then amount else amount_in j hs)"
proof (cases "find (\<lambda>x. ia_id x = reason) hs")
  case None
  then show ?thesis by (auto simp: new_holds_def list_ex_find amount_in_def find_append_single split: option.splits)
next
  case (Some item)
  have "distinct (map ia_id (set_amount reason amount hs))" by (simp add: set_amount_ids assms)
  from find_filter_distinct [OF this] Some show ?thesis
    by (auto simp: new_holds_def list_ex_find amount_in_def find_set_amount split: option.splits)
qed

text \<open>A successful \<open>set_balance_on_hold\<close>, with the reserved balance it computes.\<close>

lemma set_balance_on_hold_run:
  assumes run: "set_balance_on_hold cfg reason who amount s = (Inr x, t)"
  obtains nr md u where
    "unat nr + unat (balance_on_hold reason who s) = unat (reserved (account who s)) + unat amount"
    "try_mutate_account cfg no_drop who False (\<lambda>_ _. ret ((), (account who s)\<lparr>reserved := nr\<rparr>)) s = (Inr ((), md), u)"
    "t = (let nh = new_holds reason amount (holds_of who s);
              v = u\<lparr>holds_map := (holds_map u)(who := if nh = [] then None else Some nh)\<rparr>
          in case md of Some dust \<Rightarrow> handle_raw_dust cfg dust v | None \<Rightarrow> v)"
proof (cases "find (\<lambda>x. ia_id x = reason) (holds_of who s)")
  case None
  then have nh: "new_holds reason amount (holds_of who s) =
      (if amount = 0 then holds_of who s else holds_of who s @ [\<lparr>ia_id = reason, ia_amount = amount\<rparr>])"
    and old: "balance_on_hold reason who s = 0"
    by (simp_all add: new_holds_def list_ex_find balance_on_hold_def)
  from run None obtain nr md u where
    "checked_add (reserved (account who s)) amount = Some nr"
    "try_mutate_account cfg no_drop who False (\<lambda>_ _. ret ((), (account who s)\<lparr>reserved := nr\<rparr>)) s = (Inr ((), md), u)"
    "t = (let v = u\<lparr>holds_map := (holds_map u)(who := if new_holds reason amount (holds_of who s) = [] then None
             else Some (new_holds reason amount (holds_of who s)))\<rparr>
          in case md of Some dust \<Rightarrow> handle_raw_dust cfg dust v | None \<Rightarrow> v)"
    unfolding nh
    by (auto simp: set_balance_on_hold_def monad bindE_eq_Inr Let_def split: if_splits option.splits)
  with old that show ?thesis by (simp add: checked_add_eq_Some Let_def)
next
  case (Some item)
  then have nh: "new_holds reason amount (holds_of who s) =
      filter (\<lambda>x. ia_amount x \<noteq> 0) (set_amount reason amount (holds_of who s))"
    and old: "balance_on_hold reason who s = ia_amount item"
    by (simp_all add: new_holds_def list_ex_find balance_on_hold_def)
  let ?d = "max (ia_amount item) amount - min (ia_amount item) amount"
  from run Some obtain nr md u where
    nr: "(if ia_amount item < amount then checked_add (reserved (account who s)) ?d
      else checked_sub (reserved (account who s)) ?d) = Some nr"
    and m: "try_mutate_account cfg no_drop who False (\<lambda>_ _. ret ((), (account who s)\<lparr>reserved := nr\<rparr>)) s = (Inr ((), md), u)"
    and t: "t = (let v = u\<lparr>holds_map := (holds_map u)(who := if new_holds reason amount (holds_of who s) = [] then None
             else Some (new_holds reason amount (holds_of who s)))\<rparr>
          in case md of Some dust \<Rightarrow> handle_raw_dust cfg dust v | None \<Rightarrow> v)"
    unfolding nh
    by (auto simp: set_balance_on_hold_def monad bindE_eq_Inr Let_def split: if_splits option.splits)
  have "unat nr + unat (ia_amount item) = unat (reserved (account who s)) + unat amount"
    using nr by (auto simp: checked_add_eq_Some checked_sub_eq_Some max_def min_def unat_sub
        word_less_nat_alt word_le_nat_alt split: if_splits)
  with old m t that show ?thesis by (simp add: Let_def)
qed

context books_cfg
begin

lemma raw_dust_opt:
  "md = dust_of cfg a \<Longrightarrow>
     (case md of Some dust \<Rightarrow> handle_raw_dust cfg dust s | None \<Rightarrow> s) = handle_maybe_dust cfg md s"
  by (auto simp: handle_maybe_dust_def handle_dust_def raw_dust dust_lt_ed split: option.split)

lemma set_balance_on_hold_Ok:
  assumes run: "set_balance_on_hold cfg reason who amount s = (Inr x, t)" and ok: "balances_ok cfg s"
  obtains nr u where "unat nr + unat (balance_on_hold reason who s) = unat (reserved (account who s)) + unat amount"
    "only_account who s u" "balances_ok cfg u" "account who u = settle cfg ((account who s)\<lparr>reserved := nr\<rparr>)"
    "bal_sum u + val0 unat (dust_of cfg ((account who s)\<lparr>reserved := nr\<rparr>)) + unat (balance_on_hold reason who s)
      = bal_sum s + unat amount"
    "t = handle_maybe_dust cfg (dust_of cfg ((account who s)\<lparr>reserved := nr\<rparr>))
      (u\<lparr>holds_map := (holds_map u)(who :=
        if new_holds reason amount (holds_of who s) = [] then None else Some (new_holds reason amount (holds_of who s)))\<rparr>)"
proof -
  let ?a = "account who s" and ?hs = "holds_of who s"
  let ?old = "balance_on_hold reason who s"
  let ?nh = "new_holds reason amount ?hs"
  from run obtain nr md u where
    nr: "unat nr + unat ?old = unat (reserved ?a) + unat amount"
    and m: "try_mutate_account cfg no_drop who False (\<lambda>_ _. ret ((), ?a\<lparr>reserved := nr\<rparr>)) s = (Inr ((), md), u)"
    and t: "t = (let nh = ?nh; v = u\<lparr>holds_map := (holds_map u)(who := if nh = [] then None else Some nh)\<rparr>
          in case md of Some dust \<Rightarrow> handle_raw_dust cfg dust v | None \<Rightarrow> v)"
    by (rule set_balance_on_hold_run)
  have flag: "\<forall>r1 a1. (Inr ((), ?a\<lparr>reserved := nr\<rparr>) :: dispatch_error + _) = Inr (r1, a1) \<longrightarrow> is_new_logic (flags a1)"
    using books_new_logic [OF ok, of who] by simp
  obtain a1 where f: "(Inr ((), ?a\<lparr>reserved := nr\<rparr>) :: dispatch_error + _) = Inr ((), a1)"
    and u: "md = dust_of cfg a1" "account who u = settle cfg a1" "only_account who s u" "balances_ok cfg u"
      "bal_sum u + val0 unat md + acct_total ?a = bal_sum s + acct_total a1"
    by (rule try_mutate_pure [OF m ok ret_def flag])
  from f have a1: "a1 = ?a\<lparr>reserved := nr\<rparr>" by simp
  have "bal_sum u + val0 unat md + unat ?old = bal_sum s + unat amount"
    using u(5) nr by (simp add: a1 acct_total_def)
  then show ?thesis
    using that nr u(1-4) t raw_dust_opt [OF u(1)] unfolding a1 Let_def by metis
qed

lemma keeps_claims_reads:
  assumes "keeps_claims s t"
  shows "holds_of k t = holds_of k s" "freezes_of k t = freezes_of k s" "locks k t = locks k s"
    "hold_sum k t = hold_sum k s" "balance_on_hold r k t = balance_on_hold r k s"
    "reserved (account k t) = reserved (account k s)" "frozen (account k t) = frozen (account k s)"
    "holds_ok t = holds_ok s"
  using assms
  by (simp_all add: keeps_claims_def holds_ok_def hold_sum_def holds_of_def freezes_of_def locks_def
      balance_on_hold_def storage_get_def)

lemma account_holds_upd [simp]:
  "account k (s\<lparr>holds_map := h\<rparr>) = account k s" "account k (s\<lparr>freezes_map := h\<rparr>) = account k s"
  by (simp_all add: account_def store_get_def account_get_def storage_get_def)

lemma books_holds_upd [simp]:
  "books cfg c d (s\<lparr>holds_map := h\<rparr>) = books cfg c d s" "books cfg c d (s\<lparr>freezes_map := h\<rparr>) = books cfg c d s"
  by (simp_all add: books_def bal_sum_def balances_ok_def account_get_def storage_get_def)

text \<open>What \<open>set_balance_on_hold\<close> does to the holds, the reserved balance and the books.\<close>

lemma set_balance_on_hold_spec:
  assumes run: "set_balance_on_hold cfg reason who amount s = (Inr x, t)" and ok: "balances_ok cfg s"
  shows "holds_of k t = (if k = who then new_holds reason amount (holds_of who s) else holds_of k s)"
    and "unat (reserved (account who t)) + unat (balance_on_hold reason who s) =
      unat (reserved (account who s)) + unat amount"
    and "k \<noteq> who \<Longrightarrow> reserved (account k t) = reserved (account k s)"
    and "frozen (account k t) = frozen (account k s)"
    and "freezes_map t = freezes_map s" "locks_map t = locks_map s" "reserves_map t = reserves_map s"
proof -
  let ?nh = "new_holds reason amount (holds_of who s)"
  from run ok obtain nr u where
    nr: "unat nr + unat (balance_on_hold reason who s) = unat (reserved (account who s)) + unat amount"
    and u: "only_account who s u" "account who u = settle cfg ((account who s)\<lparr>reserved := nr\<rparr>)"
    and t: "t = handle_maybe_dust cfg (dust_of cfg ((account who s)\<lparr>reserved := nr\<rparr>))
      (u\<lparr>holds_map := (holds_map u)(who := if ?nh = [] then None else Some ?nh)\<rparr>)"
    by (rule set_balance_on_hold_Ok)
  let ?v = "u\<lparr>holds_map := (holds_map u)(who := if ?nh = [] then None else Some ?nh)\<rparr>"
  have v: "keeps_claims ?v t" using t handle_maybe_dust_claims by simp
  note r = keeps_claims_reads [OF v] and f = only_account_fields [OF u(1)]
  show "holds_of k t = (if k = who then ?nh else holds_of k s)"
    unfolding r(1) by (simp add: holds_of_def storage_get_def f)
  show "unat (reserved (account who t)) + unat (balance_on_hold reason who s) =
      unat (reserved (account who s)) + unat amount"
    unfolding r(6) using nr by (simp add: u(2) settle_claims)
  show "k \<noteq> who \<Longrightarrow> reserved (account k t) = reserved (account k s)"
    unfolding r(6) using account_other [OF u(1), of k] by simp
  show "frozen (account k t) = frozen (account k s)"
    unfolding r(7) using account_other [OF u(1), of k] u(2) by (cases "k = who") (simp_all add: settle_claims)
  show "freezes_map t = freezes_map s" "locks_map t = locks_map s" "reserves_map t = reserves_map s"
    using v by (simp_all add: keeps_claims_def f)
qed

lemma set_balance_on_hold_holds_ok:
  assumes run: "set_balance_on_hold cfg reason who amount s = (Inr x, t)" and ok: "balances_ok cfg s"
    and h: "holds_ok s"
  shows "holds_ok t" "balance_on_hold j who t = (if j = reason then amount else balance_on_hold j who s)"
    "k \<noteq> who \<Longrightarrow> balance_on_hold j k t = balance_on_hold j k s"
proof -
  note sp = set_balance_on_hold_spec [OF run ok]
  have d: "distinct (map ia_id (holds_of k s))" for k using h by (simp add: holds_ok_def)
  have am: "balance_on_hold j k u = amount_in j (holds_of k u)" for j k and u :: "('a, 'm) runtime_scheme"
    by (simp add: balance_on_hold_def amount_in_def)
  have "hold_sum k t \<le> unat (reserved (account k t))" for k
  proof (cases "k = who")
    case True
    have "hold_sum who t + unat (balance_on_hold reason who s) = hold_sum who s + unat amount"
      using new_holds_sum [of reason amount "holds_of who s"] by (simp add: hold_sum_def sp(1) am)
    with sp(2) h True show ?thesis by (simp add: holds_ok_def) (metis add_le_cancel_right)
  next
    case False
    with h sp(1,3) show ?thesis by (simp add: holds_ok_def hold_sum_def)
  qed
  moreover have "distinct (map ia_id (holds_of k t))" for k
    using d new_holds_distinct by (simp add: sp(1))
  ultimately show "holds_ok t" by (simp add: holds_ok_def)
  show "balance_on_hold j who t = (if j = reason then amount else balance_on_hold j who s)"
    by (simp add: am sp(1) amount_in_new_holds [OF d])
  show "k \<noteq> who \<Longrightarrow> balance_on_hold j k t = balance_on_hold j k s"
    by (simp add: am sp(1))
qed

lemma set_balance_on_hold_books:
  assumes run: "set_balance_on_hold cfg reason who amount s = (Inr x, t)" and ok: "books cfg c 0 s"
  shows "amount \<le> balance_on_hold reason who s \<Longrightarrow>
      books cfg (unat (balance_on_hold reason who s) - unat amount + c) 0 t"
    and "balance_on_hold reason who s < amount \<Longrightarrow>
      balances_ok cfg t \<and> total_issuance t = total_issuance s \<and>
      bal_sum t + unat (balance_on_hold reason who s) = bal_sum s + unat amount \<and>
      (\<forall>k. free (account k t) = free (account k s))"
proof -
  let ?old = "balance_on_hold reason who s" and ?nh = "new_holds reason amount (holds_of who s)"
  from ok have bal: "balances_ok cfg s" by (simp add: books_def)
  from run bal obtain nr u where
    nr: "unat nr + unat ?old = unat (reserved (account who s)) + unat amount"
    and u: "only_account who s u" "balances_ok cfg u" "account who u = settle cfg ((account who s)\<lparr>reserved := nr\<rparr>)"
      "bal_sum u + val0 unat (dust_of cfg ((account who s)\<lparr>reserved := nr\<rparr>)) + unat ?old = bal_sum s + unat amount"
    and t: "t = handle_maybe_dust cfg (dust_of cfg ((account who s)\<lparr>reserved := nr\<rparr>))
      (u\<lparr>holds_map := (holds_map u)(who := if ?nh = [] then None else Some ?nh)\<rparr>)"
    by (rule set_balance_on_hold_Ok)
  note f = only_account_fields(1) [OF u(1)]
  show "books cfg (unat ?old - unat amount + c) 0 t" if "amount \<le> ?old"
  proof -
    have "books cfg (val0 unat (dust_of cfg ((account who s)\<lparr>reserved := nr\<rparr>)) + (unat ?old - unat amount + c)) 0 u"
      using u(2,4) ok f that by (auto simp: books_def word_le_nat_alt)
    then show ?thesis unfolding t by (intro handle_maybe_dust_books) simp
  qed
  show "balances_ok cfg t \<and> total_issuance t = total_issuance s \<and>
      bal_sum t + unat ?old = bal_sum s + unat amount \<and> (\<forall>k. free (account k t) = free (account k s))"
    if lt: "?old < amount"
  proof -
    have "nr \<noteq> 0" using nr lt by (auto simp: word_less_nat_alt)
    then have d: "dust_of cfg ((account who s)\<lparr>reserved := nr\<rparr>) = None"
      and set: "settle cfg ((account who s)\<lparr>reserved := nr\<rparr>) = (account who s)\<lparr>reserved := nr\<rparr>"
      by (simp_all add: dust_of_def settle_def)
    have "free (account k u) = free (account k s)" for k
      using account_other [OF u(1), of k] u(3) set by (cases "k = who") simp_all
    then show ?thesis
      using u(2,4) f unfolding t d by (simp add: handle_maybe_dust_def bal_sum_def balances_ok_def
          account_get_def storage_get_def)
  qed
qed

lemma on_hold_le_reserved: "holds_ok s \<Longrightarrow> unat (balance_on_hold reason who s) \<le> unat (reserved (account who s))"
  using find_amount_le [of reason "holds_of who s"]
  by (auto simp: holds_ok_def hold_sum_def balance_on_hold_def split: option.splits intro: order_trans)

lemma decrease_on_hold_cases:
  assumes "decrease_balance_on_hold cfg reason who amount precision s = (Inr actual, t)"
  shows "actual = (if precision = BestEffort then min amount (balance_on_hold reason who s) else amount)"
    and "unat actual \<le> unat (balance_on_hold reason who s)"
    and "set_balance_on_hold cfg reason who (balance_on_hold reason who s - actual) s = (Inr (), t)"
    and "balance_on_hold reason who s - actual \<le> balance_on_hold reason who s"
    and "unat (balance_on_hold reason who s) - unat (balance_on_hold reason who s - actual) = unat actual"
proof -
  let ?old = "balance_on_hold reason who s"
  let ?x = "if precision = BestEffort then min amount ?old else amount"
  from assms obtain new where new: "checked_sub ?old ?x = Some new"
    and t: "set_balance_on_hold cfg reason who new s = (Inr (), t)" "actual = ?x"
    by (auto simp: decrease_balance_on_hold_def Let_def monad bindE_eq_Inr split: option.splits)
  have le: "?x \<le> ?old" and n: "new = ?old - actual"
    using new t(2) by (auto simp: checked_sub_def split: if_splits)
  show "actual = ?x" by (rule t(2))
  show "unat actual \<le> unat ?old" using le t(2) by (simp add: word_le_nat_alt)
  show "set_balance_on_hold cfg reason who (?old - actual) s = (Inr (), t)" using t(1) n by simp
  have "unat (?old - actual) = unat ?old - unat actual" using le t(2) by (simp add: unat_sub)
  then show "?old - actual \<le> ?old" "unat ?old - unat (?old - actual) = unat actual"
    using le t(2) by (simp_all add: word_le_nat_alt)
qed

lemma decrease_on_hold_books:
  assumes run: "decrease_balance_on_hold cfg reason who amount precision s = (Inr actual, t)"
    and ok: "books cfg c 0 s" and h: "holds_ok s"
  shows "books cfg (unat actual + c) 0 t" "holds_ok t"
    "unat (balance_on_hold reason who t) + unat actual = unat (balance_on_hold reason who s)"
    "unat (reserved (account who t)) + unat actual = unat (reserved (account who s))"
proof -
  let ?old = "balance_on_hold reason who s"
  from ok have bal: "balances_ok cfg s" by (simp add: books_def)
  note d = decrease_on_hold_cases [OF run]
  show "books cfg (unat actual + c) 0 t"
    using set_balance_on_hold_books(1) [OF d(3) ok d(4)] d(5) by simp
  note hh = set_balance_on_hold_holds_ok [OF d(3) bal h]
  show "holds_ok t" by (rule hh)
  have u: "unat (?old - actual) + unat actual = unat ?old" using d(2) by (simp add: unat_sub word_le_nat_alt)
  show "unat (balance_on_hold reason who t) + unat actual = unat ?old" using hh(2) [of reason] u by simp
  show "unat (reserved (account who t)) + unat actual = unat (reserved (account who s))"
    using set_balance_on_hold_spec(2) [OF d(3) bal] u by simp
qed

lemma increase_on_hold_cases:
  assumes run: "increase_balance_on_hold cfg reason who amount precision s = (Inr actual, t)"
    and fits: "unat (balance_on_hold reason who s) + unat amount < 2 ^ 128"
  shows "actual = amount"
    and "amount = 0 \<Longrightarrow> t = s"
    and "amount \<noteq> 0 \<Longrightarrow> set_balance_on_hold cfg reason who (balance_on_hold reason who s + amount) s = (Inr (), t)"
    and "unat (balance_on_hold reason who s + amount) = unat (balance_on_hold reason who s) + unat amount"
proof -
  let ?old = "balance_on_hold reason who s"
  show u: "unat (?old + amount) = unat ?old + unat amount"
    using fits by (simp add: unat_word_ariths)
  then have le: "?old \<le> ?old + amount" by (simp add: word_le_nat_alt)
  then have "saturating_add ?old amount = ?old + amount" "checked_add ?old amount = Some (?old + amount)"
    "saturating_sub (?old + amount) ?old = amount"
    by (simp_all add: saturating_add_def checked_add_def saturating_sub_def)
  with run show "actual = amount" "amount = 0 \<Longrightarrow> t = s"
    "amount \<noteq> 0 \<Longrightarrow> set_balance_on_hold cfg reason who (?old + amount) s = (Inr (), t)"
    by (auto simp: increase_balance_on_hold_def monad bindE_eq_Inr Let_def split: if_splits)
qed

lemma increase_on_hold_books:
  assumes run: "increase_balance_on_hold cfg reason who amount precision s = (Inr actual, t)"
    and ok: "books cfg (unat amount + c) 0 s" and h: "holds_ok s"
  shows "actual = amount" "books cfg c 0 t" "holds_ok t"
    "unat (balance_on_hold reason who t) = unat (balance_on_hold reason who s) + unat amount"
    "unat (reserved (account who t)) = unat (reserved (account who s)) + unat amount"
    "total_issuance t = total_issuance s" "\<forall>k. free (account k t) = free (account k s)"
proof -
  let ?old = "balance_on_hold reason who s"
  from ok have bal: "balances_ok cfg s" by (simp add: books_def)
  have "unat ?old + unat amount \<le> unat (total_issuance s)"
    using ok account_le_sum [OF books_finite [OF bal], of who] on_hold_le_reserved [OF h, of reason who]
    by (simp add: books_def acct_total_def)
  then have fits: "unat ?old + unat amount < 2 ^ 128"
    using unat_less_power [of "total_issuance s"] by simp
  note inc = increase_on_hold_cases [OF run fits]
  have "books cfg c 0 t \<and> holds_ok t \<and> unat (balance_on_hold reason who t) = unat ?old + unat amount \<and>
    unat (reserved (account who t)) = unat (reserved (account who s)) + unat amount \<and>
    total_issuance t = total_issuance s \<and> (\<forall>k. free (account k t) = free (account k s))"
  proof (cases "amount = 0")
    case True
    with inc(2) ok h show ?thesis by simp
  next
    case False
    have "?old < ?old + amount" using inc(4) False by (simp add: word_less_nat_alt unat_gt_0)
    note b = set_balance_on_hold_books(2) [OF inc(3) [OF False] ok this]
    note hh = set_balance_on_hold_holds_ok [OF inc(3) [OF False] bal h]
    show ?thesis
      using b hh(1) hh(2) [of reason] inc(4) ok set_balance_on_hold_spec(2) [OF inc(3) [OF False] bal]
      by (simp add: books_def)
  qed
  then show "books cfg c 0 t" "holds_ok t" "unat (balance_on_hold reason who t) = unat ?old + unat amount"
    "unat (reserved (account who t)) = unat (reserved (account who s)) + unat amount"
    "total_issuance t = total_issuance s" "\<forall>k. free (account k t) = free (account k s)" by auto
  show "actual = amount" by (rule inc(1))
qed

text \<open>Placing and releasing a hold.\<close>

lemma hold_Ok:
  assumes run: "hold cfg reason who amount s = (Inr u, t)" and ok: "books cfg c 0 s" and h: "holds_ok s"
  shows "books cfg c 0 t" "holds_ok t"
    "unat (balance_on_hold reason who t) = unat (balance_on_hold reason who s) + unat amount"
    "unat (reserved (account who t)) = unat (reserved (account who s)) + unat amount"
proof -
  from run obtain v w x where
    dec: "decrease_balance cfg who amount Exact Protect Force s = (Inr x, v)"
    and inc: "\<exists>y. increase_balance_on_hold cfg reason who amount BestEffort v = (Inr y, w)"
    and t: "core t = core w"
    by (auto simp: hold_def ensure_can_hold_def monad bindE_eq_Inr split: if_splits)
  from ok have bal: "balances_ok cfg s" by (simp add: books_def)
  have x: "x = amount" using decrease_balance_Ok [OF dec bal] by force
  note d = decrease_balance_books [OF dec ok]
  note r = keeps_claims_reads [OF d(2)]
  from inc obtain y where "increase_balance_on_hold cfg reason who amount BestEffort v = (Inr y, w)" by blast
  note i = increase_on_hold_books [OF this d(1) [unfolded x]]
  have h': "holds_ok v" using h r(8) by simp
  have cl: "keeps_claims w t" using t by (rule keeps_claims_core)
  note rt = keeps_claims_reads [OF cl]
  show "books cfg c 0 t"
    using i(2) [OF h'] core_eqD(1,2) [OF t] by (simp add: books_def cong: bal_sum_cong balances_ok_cong)
  show "holds_ok t" using i(3) [OF h'] rt(8) by simp
  show "unat (balance_on_hold reason who t) = unat (balance_on_hold reason who s) + unat amount"
    using i(4) [OF h'] by (simp add: rt(5) r(5))
  show "unat (reserved (account who t)) = unat (reserved (account who s)) + unat amount"
    using i(5) [OF h'] by (simp add: rt(6) r(6))
qed

text \<open>
  Releasing from an account that keeps the existential deposit free: what leaves the hold
  arrives in the free balance.
\<close>

lemma decrease_on_hold_keeps_free:
  assumes run: "decrease_balance_on_hold cfg reason who amount precision s = (Inr actual, t)"
    and ok: "balances_ok cfg s" and free: "ed cfg \<le> free_balance who s \<or> free_balance who s = 0"
  shows "free (account k t) = free (account k s)" "total_issuance t = total_issuance s"
proof -
  let ?hs = "new_holds reason (balance_on_hold reason who s - actual) (holds_of who s)"
  note d = decrease_on_hold_cases [OF run]
  from d(3) ok obtain nr u where u: "only_account who s u"
    "account who u = settle cfg ((account who s)\<lparr>reserved := nr\<rparr>)"
    "t = handle_maybe_dust cfg (dust_of cfg ((account who s)\<lparr>reserved := nr\<rparr>))
      (u\<lparr>holds_map := (holds_map u)(who := if ?hs = [] then None else Some ?hs)\<rparr>)"
    by (rule set_balance_on_hold_Ok)
  have "dust_of cfg ((account who s)\<lparr>reserved := nr\<rparr>) = None"
    "free (settle cfg ((account who s)\<lparr>reserved := nr\<rparr>)) = free (account who s)"
    using free by (auto simp: dust_of_def settle_def free_balance_def account_data_default_def)
  with u show "free (account k t) = free (account k s)" "total_issuance t = total_issuance s"
    using account_other [OF u(1), of k] only_account_fields(1) [OF u(1)]
    by (cases "k = who"; simp add: handle_maybe_dust_def)+
qed

lemma increase_best_effort_full:
  assumes run: "increase_balance cfg who amount BestEffort s = (Inr actual, t)"
    and fits: "acct_total (account who s) + unat amount < 2 ^ 128" and free: "ed cfg \<le> free_balance who s"
  shows "actual = amount"
proof -
  let ?a = "account who s"
  have res: "saturating_sub (total_balance who s) (free ?a) = reserved ?a"
    using fits by (simp add: word_unat_eq_iff unat_saturating_sub unat_saturating_add total_balance_def
        total_def acct_total_def)
  define new where "new = min (saturating_add (free ?a) amount) (saturating_sub max_value (reserved ?a))"
  have n: "unat new = unat (free ?a) + unat amount"
    using fits by (simp add: new_def unat_min unat_saturating_add unat_saturating_sub unat_max_value acct_total_def)
  then have "saturating_sub new (free ?a) = amount" by (simp add: word_unat_eq_iff unat_saturating_sub)
  moreover have "\<not> new < minimum_balance cfg"
    using n free by (simp add: minimum_balance_def ed_def word_less_nat_alt word_le_nat_alt free_balance_def)
  moreover have "new = free ?a \<longrightarrow> amount = 0" using n by (auto simp: unat_eq_zero)
  ultimately show ?thesis
    using run unfolding increase_balance_def bindE_gets free_balance_def res
    by (auto simp: monad bindE_eq_Inr new_def [symmetric] split: option.splits if_splits)
qed

lemma release_Ok:
  assumes run: "release cfg reason who amount precision s = (Inr actual, t)" and ok: "books cfg c 0 s"
    and h: "holds_ok s" and free: "ed cfg \<le> free_balance who s"
  shows "books cfg c 0 t" "holds_ok t"
    "actual = (if precision = BestEffort then min amount (balance_on_hold reason who s) else amount)"
    "unat (balance_on_hold reason who t) + unat actual = unat (balance_on_hold reason who s)"
    "unat (free_balance who t) = unat (free_balance who s) + unat actual"
proof -
  from run obtain v w x where dec: "decrease_balance_on_hold cfg reason who amount precision s = (Inr x, v)"
    and inc: "increase_balance cfg who x BestEffort v = (Inr actual, w)"
    and t: "core t = core w"
    by (auto simp: release_def monad bindE_eq_Inr split: if_splits)
  from ok have bal: "balances_ok cfg s" by (simp add: books_def)
  note d = decrease_on_hold_books [OF dec ok h] and nd = decrease_on_hold_keeps_free [OF dec bal disjI1 [OF free]]
  from d(1) have balv: "balances_ok cfg v" by (simp add: books_def)
  note i = increase_balance_Ok [OF inc balv books_fits [OF d(1)]] and ib = increase_balance_books [OF inc d(1)]
  have free_v: "free_balance who v = free_balance who s" by (simp add: free_balance_def nd(1))
  have "acct_total (account who v) + unat x \<le> unat (total_issuance v)"
    using d(1) account_le_sum [OF books_finite [OF balv], of who] by (simp add: books_def)
  then have "acct_total (account who v) + unat x < 2 ^ 128"
    using unat_less_power [of "total_issuance v"] by simp
  from increase_best_effort_full [OF inc this] have full: "actual = x" using free free_v by simp
  show "actual = (if precision = BestEffort then min amount (balance_on_hold reason who s) else amount)"
    using decrease_on_hold_cases(1) [OF dec] full by simp
  have cl: "keeps_claims w t" using t by (rule keeps_claims_core)
  note rt = keeps_claims_reads [OF cl] and rw = keeps_claims_reads [OF ib(3)]
  have "books cfg c 0 w" using ib(1,2) full by (simp add: books_def)
  then show "books cfg c 0 t"
    using core_eqD(1,2) [OF t] by (simp add: books_def cong: bal_sum_cong balances_ok_cong)
  show "holds_ok t" using d(2) by (simp add: rt(8) rw(8))
  show "unat (balance_on_hold reason who t) + unat actual = unat (balance_on_hold reason who s)"
    using d(3) full by (simp add: rt(5) rw(5))
  have "free_balance who t = free_balance who w"
    using account_cong [OF core_eqD(1) [OF t]] by (simp add: free_balance_def)
  then show "unat (free_balance who t) = unat (free_balance who s) + unat actual"
    using i(5) free_v by simp
qed

text \<open>
  Releasing, as best effort, all of a hold that is less than the existential deposit to an account
  with nothing free: the deposit is refused after the hold is gone.
\<close>

lemma increase_too_little:
  assumes "increase_balance cfg who amount BestEffort s = (Inr actual, t)"
    and "free_balance who s = 0" "amount < ed cfg"
  shows "actual = 0" "t = s"
proof -
  let ?n = "min (saturating_add 0 amount) (saturating_sub max_value (saturating_sub (total_balance who s) 0))"
  have "?n < minimum_balance cfg"
    using assms(3) by (auto simp: minimum_balance_def ed_def saturating_add_def min_less_iff_disj)
  with assms(1,2) show "actual = 0" "t = s"
    by (auto simp: increase_balance_def monad bindE_gets Let_def ret_def split: if_splits option.splits)
qed

lemma release_loses:
  assumes run: "release cfg reason who amount BestEffort s = (Inr actual, t)" and ok: "books cfg c 0 s"
    and h: "holds_ok s" and free: "free_balance who s = 0"
    and held: "balance_on_hold reason who s < ed cfg" "balance_on_hold reason who s \<le> amount"
  shows "actual = 0" "balance_on_hold reason who t = 0" "total_issuance t = total_issuance s"
    "\<forall>k. free_balance k t = free_balance k s"
    "bal_sum t + unat (balance_on_hold reason who s) = bal_sum s"
proof -
  from run obtain v w x where dec: "decrease_balance_on_hold cfg reason who amount BestEffort s = (Inr x, v)"
    and inc: "increase_balance cfg who x BestEffort v = (Inr actual, w)"
    and t: "core t = core w"
    by (auto simp: release_def monad bindE_eq_Inr split: if_splits)
  from ok have bal: "balances_ok cfg s" by (simp add: books_def)
  have x: "x = balance_on_hold reason who s" using decrease_on_hold_cases(1) [OF dec] held(2) by (simp add: min_def)
  note d = decrease_on_hold_books [OF dec ok h] and nd = decrease_on_hold_keeps_free [OF dec bal disjI2 [OF free]]
  have "free_balance who v = 0" using nd(1) free by (simp add: free_balance_def)
  from increase_too_little [OF inc this] held(1) x have w: "actual = 0" "w = v" by simp_all
  note r = keeps_claims_reads [OF keeps_claims_core [OF t]] and cr = core_eqD [OF t]
  show "actual = 0" by (rule w)
  show "balance_on_hold reason who t = 0"
    using d(3) x by (simp add: r(5) w unat_eq_zero)
  show "total_issuance t = total_issuance s" using nd(2) w cr by simp
  show "\<forall>k. free_balance k t = free_balance k s"
    using nd(1) account_cong [OF cr(1)] w by (simp add: free_balance_def)
  show "bal_sum t + unat (balance_on_hold reason who s) = bal_sum s"
    using d(1) ok nd(2) bal_sum_cong [OF cr(1)] x w by (simp add: books_def)
qed

lemma burn_held_Ok:
  assumes run: "burn_held cfg reason who amount precision force s = (Inr actual, t)" and ok: "books cfg c 0 s"
    and h: "holds_ok s"
  shows "books cfg c 0 t" "holds_ok t"
    "unat (balance_on_hold reason who t) + unat actual = unat (balance_on_hold reason who s)"
    "unat actual \<le> unat (reducible_total_balance_on_hold who force s)"
proof -
  let ?l = "reducible_total_balance_on_hold who force s"
  let ?x = "if precision = BestEffort then min amount ?l else amount"
  from run obtain v where x: "?x \<le> ?l"
    and dec: "decrease_balance_on_hold cfg reason who ?x precision s = (Inr actual, v)"
    and t: "core t = core (set_total_issuance (saturating_sub (total_issuance v) actual) v)"
    by (cases precision) (auto simp: burn_held_def monad bindE_eq_Inr split: if_splits)
  note d = decrease_on_hold_books [OF dec ok h]
  have "books cfg c 0 (set_total_issuance (saturating_sub (total_issuance v) actual) v)"
    by (rule books_total_issuance) (use d(1) in \<open>auto simp: books_def unat_saturating_sub\<close>)
  then show "books cfg c 0 t"
    using core_eqD(1,2) [OF t] by (simp add: books_def cong: bal_sum_cong balances_ok_cong)
  have "keeps_claims v t"
    using set_total_issuance_claims keeps_claims_core [OF t] keeps_claims_trans by metis
  note r = keeps_claims_reads [OF this]
  show "holds_ok t" using d(2) r(8) by simp
  show "unat (balance_on_hold reason who t) + unat actual = unat (balance_on_hold reason who s)"
    using d(3) by (simp add: r(5))
  have "actual \<le> ?x" using decrease_on_hold_cases(1) [OF dec] by (auto simp: word_le_nat_alt unat_min)
  with x show "unat actual \<le> unat ?l" by (simp add: word_le_nat_alt)
qed

text \<open>Moving held funds to another account, free or on hold there, and moving and holding.\<close>

lemma increase_exact_or_zero:
  assumes run: "increase_balance cfg who amount precision s = (Inr actual, t)" and ok: "books cfg (unat amount + c) 0 s"
    and ed: "precision = BestEffort \<longrightarrow> ed cfg \<le> free_balance who s"
  shows "actual = amount" "books cfg c 0 t"
proof -
  from ok have bal: "balances_ok cfg s" by (simp add: books_def)
  have "acct_total (account who s) + unat amount < 2 ^ 128"
    using ok account_le_sum [OF books_finite [OF bal], of who] unat_less_power [of "total_issuance s"]
    by (simp add: books_def)
  then show a: "actual = amount"
    using run ed increase_best_effort_full [of who amount s actual t]
      increase_balance_Ok(7) [OF run bal books_fits [OF ok]] by (cases precision) simp_all
  show "books cfg c 0 t" using increase_balance_books [OF run ok] a by (simp add: books_def)
qed

lemma transfer_on_hold_Ok:
  assumes run: "transfer_on_hold cfg reason source dest amount precision mode force s = (Inr actual, t)"
    and ok: "books cfg c 0 s" and h: "holds_ok s" and ne: "source \<noteq> dest"
    and free: "ed cfg \<le> free_balance source s" "ed cfg \<le> free_balance dest s"
  shows "books cfg c 0 t" "holds_ok t"
    "unat (balance_on_hold reason source t) + unat actual = unat (balance_on_hold reason source s)"
proof -
  from run obtain x v w m where
    dec: "decrease_balance_on_hold cfg reason source x precision s = (Inr m, v)"
    and inc: "(if mode = R_OnHold then increase_balance_on_hold cfg reason dest m precision
      else increase_balance cfg dest m precision) v = (Inr actual, w)"
    and t: "core t = core w"
    by (cases precision; cases mode) (auto simp: transfer_on_hold_def monad bindE_eq_Inr split: if_splits)
  from ok have bal: "balances_ok cfg s" by (simp add: books_def)
  note d = decrease_on_hold_books [OF dec ok h] and nd = decrease_on_hold_keeps_free [OF dec bal disjI1 [OF free(1)]]
  from d(1) have balv: "balances_ok cfg v" by (simp add: books_def)
  have free_v: "ed cfg \<le> free_balance dest v" using free(2) nd(1) by (simp add: free_balance_def)
  have "books cfg c 0 w \<and> holds_ok w \<and> actual = m \<and>
    balance_on_hold reason source w = balance_on_hold reason source v"
  proof (cases "mode = R_OnHold")
    case True
    with inc have i: "increase_balance_on_hold cfg reason dest m precision v = (Inr actual, w)" by simp
    note io = increase_on_hold_books [OF i d(1,2)]
    have "balance_on_hold reason source w = balance_on_hold reason source v"
    proof -
      from i obtain n where "set_balance_on_hold cfg reason dest n v = (Inr (), w) \<or> w = v"
        by (auto simp: increase_balance_on_hold_def monad bindE_eq_Inr Let_def split: if_splits option.splits)
      with set_balance_on_hold_holds_ok(3) [OF _ balv d(2) ne] show ?thesis by auto
    qed
    with io show ?thesis by blast
  next
    case False
    with inc have i: "increase_balance cfg dest m precision v = (Inr actual, w)" by simp
    note e = increase_exact_or_zero [OF i d(1)] and b = increase_balance_books(3) [OF i d(1)]
    show ?thesis using e free_v d(2) keeps_claims_reads(5,8) [OF b] by simp
  qed
  note w = this
  have cl: "keeps_claims w t" using t by (rule keeps_claims_core)
  note rt = keeps_claims_reads [OF cl]
  show "books cfg c 0 t"
    using w core_eqD(1,2) [OF t] by (simp add: books_def cong: bal_sum_cong balances_ok_cong)
  show "holds_ok t" using w rt(8) by simp
  show "unat (balance_on_hold reason source t) + unat actual = unat (balance_on_hold reason source s)"
    using w d(3) by (simp add: rt(5))
qed

lemma transfer_and_hold_Ok:
  assumes run: "transfer_and_hold cfg reason source dest amount precision p force s = (Inr actual, t)"
    and ok: "books cfg c 0 s" and h: "holds_ok s"
  shows "books cfg c 0 t" "holds_ok t"
    "unat (balance_on_hold reason dest t) = unat (balance_on_hold reason dest s) + unat actual"
proof -
  from run obtain v w y where
    dec: "decrease_balance cfg source amount precision p force s = (Inr actual, v)"
    and inc: "increase_balance_on_hold cfg reason dest actual precision v = (Inr y, w)"
    and t: "core t = core w"
    by (auto simp: transfer_and_hold_def monad bindE_eq_Inr split: if_splits)
  note d = decrease_balance_books [OF dec ok]
  note r = keeps_claims_reads [OF d(2)]
  have "holds_ok v" using h r(8) by simp
  note i = increase_on_hold_books [OF inc d(1) this]
  have cl: "keeps_claims w t" using t by (rule keeps_claims_core)
  note rt = keeps_claims_reads [OF cl]
  show "books cfg c 0 t"
    using i(2) core_eqD(1,2) [OF t] by (simp add: books_def cong: bal_sum_cong balances_ok_cong)
  show "holds_ok t" using i(3) rt(8) by simp
  show "unat (balance_on_hold reason dest t) = unat (balance_on_hold reason dest s) + unat actual"
    using i(4) by (simp add: rt(5) r(5))
qed

end

section \<open>Freezes and the frozen balance\<close>

text \<open>\<open>frozen_for\<close> is the least bound of all locks and freezes.\<close>

lemma fold_max_le:
  "fold (\<lambda>l b. max b (f l)) xs a \<le> (x :: balance) \<longleftrightarrow> a \<le> x \<and> (\<forall>l\<in>set xs. f l \<le> x)"
  by (induction xs arbitrary: a) auto

lemma frozen_for_le:
  "frozen_for ls fs \<le> x \<longleftrightarrow> (\<forall>l\<in>set ls. lock_amount l \<le> x) \<and> (\<forall>f\<in>set fs. ia_amount f \<le> x)"
  by (simp add: frozen_for_def fold_max_le)

lemma frozen_for_ge:
  "l \<in> set ls \<Longrightarrow> lock_amount l \<le> frozen_for ls fs" "f \<in> set fs \<Longrightarrow> ia_amount f \<le> frozen_for ls fs"
  using frozen_for_le [of ls fs "frozen_for ls fs"] by auto

definition frozen_ok :: "('a, 'm) runtime_scheme \<Rightarrow> bool" where
  "frozen_ok s \<longleftrightarrow> (\<forall>k. frozen (account k s) = frozen_for (locks k s) (freezes_of k s))"

lemma amount_in_set:
  "list_ex (\<lambda>x. ia_id x = i) fs \<Longrightarrow> amount_in j (set_amount i amount fs) = (if j = i then amount else amount_in j fs)"
  by (auto simp: amount_in_def find_set_amount list_ex_find split: option.splits)

lemma amount_in_append:
  "\<not> list_ex (\<lambda>x. ia_id x = i) fs \<Longrightarrow>
     amount_in j (fs @ [\<lparr>ia_id = i, ia_amount = amount\<rparr>]) = (if j = i then amount else amount_in j fs)"
  by (auto simp: amount_in_def find_append_single list_ex_find split: option.splits)

lemma find_filter_id:
  "find (\<lambda>x. ia_id x = j) (filter (\<lambda>x. ia_id x \<noteq> i) fs) = (if j = i then None else find (\<lambda>x. ia_id x = j) fs)"
  by (induction fs) auto

lemma amount_in_filter: "amount_in j (filter (\<lambda>x. ia_id x \<noteq> i) fs) = (if j = i then 0 else amount_in j fs)"
  by (simp add: amount_in_def find_filter_id)

lemma balance_frozen_amount: "balance_frozen i who s = amount_in i (freezes_of who s)"
  by (simp add: balance_frozen_def amount_in_def)

context books_cfg
begin

lemma update_freezes_Ok:
  assumes run: "update_freezes cfg who fs s = (Inr x, t)" and ok: "books cfg c 0 s"
  shows "books cfg c 0 t" "freezes_of k t = (if k = who then fs else freezes_of k s)"
    "frozen (account k t) = (if k = who then frozen_for (locks who s) fs else frozen (account k s))"
    "locks_map t = locks_map s" "holds_map t = holds_map s" "reserves_map t = reserves_map s"
    "reserved (account k t) = reserved (account k s)"
proof -
  let ?a = "account who s" and ?ff = "frozen_for (locks who s) fs"
  let ?f = "\<lambda>b (_ :: bool). bindE (getsE (locks who)) (\<lambda>ls. let prev_frozen = frozen b; after_frozen = frozen_for ls fs
      in ret ((prev_frozen, after_frozen), b\<lparr>frozen := after_frozen\<rparr>)) :: (('a, 'm) runtime_scheme, dispatch_error, _) comp"
  from run obtain r md u where
    m: "try_mutate_account cfg no_drop who False ?f s = (Inr (r, md), u)"
    and t: "core t = core (case md of
        Some dust \<Rightarrow> handle_raw_dust cfg dust (u\<lparr>freezes_map := (freezes_map u)(who := if fs = [] then None else Some fs)\<rparr>)
      | None \<Rightarrow> u\<lparr>freezes_map := (freezes_map u)(who := if fs = [] then None else Some fs)\<rparr>)"
    by (auto simp: update_freezes_def monad bindE_eq_Inr)
  from ok have bal: "balances_ok cfg s" by (simp add: books_def)
  have pure: "?f ?a (?a = account_data_default) s = (Inr ((frozen ?a, ?ff), ?a\<lparr>frozen := ?ff\<rparr>), s)"
    by (simp add: monad Let_def)
  have flag: "\<forall>r1 a1. (Inr ((frozen ?a, ?ff), ?a\<lparr>frozen := ?ff\<rparr>) :: dispatch_error + _) = Inr (r1, a1) \<longrightarrow> is_new_logic (flags a1)"
    using books_new_logic [OF bal, of who] by simp
  obtain a1 where f: "(Inr ((frozen ?a, ?ff), ?a\<lparr>frozen := ?ff\<rparr>) :: dispatch_error + _) = Inr (r, a1)"
    and u: "md = dust_of cfg a1" "account who u = settle cfg a1" "only_account who s u" "balances_ok cfg u"
      "bal_sum u + val0 unat md + acct_total ?a = bal_sum s + acct_total a1"
    by (rule try_mutate_pure [OF m bal pure flag])
  from f have a1: "a1 = ?a\<lparr>frozen := ?ff\<rparr>" by simp
  define v where "v = u\<lparr>freezes_map := (freezes_map u)(who := if fs = [] then None else Some fs)\<rparr>"
  have t': "core t = core (handle_maybe_dust cfg md v)"
    using t raw_dust_opt [OF u(1)] unfolding v_def by metis
  note only = only_account_fields [OF u(3)]
  have "books cfg (val0 unat md + c) 0 u"
    using u(4,5) ok only(1) by (simp add: books_def a1 acct_total_def)
  then have "books cfg (val0 unat md + c) 0 v" by (simp add: v_def)
  then show "books cfg c 0 t"
    using core_eqD(1,2) [OF t'] handle_maybe_dust_books [of md c v]
    by (simp add: books_def cong: bal_sum_cong balances_ok_cong)
  have "keeps_claims v t"
    using handle_maybe_dust_claims keeps_claims_core [OF t'] keeps_claims_trans by metis
  note r = keeps_claims_reads [OF this]
  show "freezes_of k t = (if k = who then fs else freezes_of k s)"
    unfolding r(2) by (simp add: v_def freezes_of_def storage_get_def only)
  show "frozen (account k t) = (if k = who then ?ff else frozen (account k s))"
    unfolding r(7) using account_other [OF u(3), of k] u(2) by (simp add: v_def a1 settle_claims)
  show "locks_map t = locks_map s" "holds_map t = holds_map s" "reserves_map t = reserves_map s"
    using \<open>keeps_claims v t\<close> by (simp_all add: keeps_claims_def v_def only)
  show "reserved (account k t) = reserved (account k s)"
    unfolding r(6) using account_other [OF u(3), of k] u(2) by (cases "k = who") (simp_all add: v_def a1 settle_claims)
qed

lemma update_freezes_frozen_ok:
  assumes "update_freezes cfg who fs s = (Inr x, t)" "books cfg c 0 s" "frozen_ok s"
  shows "frozen_ok t"
  using update_freezes_Ok(2,3,4) [OF assms(1,2)] assms(3)
  by (simp add: frozen_ok_def locks_def storage_get_def)

lemma set_freeze_Ok:
  assumes run: "set_freeze cfg i who amount s = (Inr x, t)" and ok: "books cfg c 0 s" and fz: "frozen_ok s"
  shows "books cfg c 0 t" "frozen_ok t"
    "balance_frozen j who t = (if j = i then amount else balance_frozen j who s)"
    "amount \<le> frozen (account who t)"
proof -
  let ?old = "freezes_of who s"
  let ?fs = "if amount = 0 then filter (\<lambda>l. ia_id l \<noteq> i) ?old
    else if list_ex (\<lambda>x. ia_id x = i) ?old then set_amount i amount ?old
    else ?old @ [\<lparr>ia_id = i, ia_amount = amount\<rparr>]"
  have fs: "update_freezes cfg who ?fs s = (Inr x, t)"
    using run by (simp add: set_freeze_def thaw_def monad split: if_splits)
  have am: "amount_in j ?fs = (if j = i then amount else amount_in j ?old)" for j
    by (simp add: amount_in_filter amount_in_set amount_in_append)
  note up = update_freezes_Ok [OF fs ok]
  show "books cfg c 0 t" by (rule up(1))
  show fzt: "frozen_ok t" using fs ok fz by (rule update_freezes_frozen_ok)
  show b: "balance_frozen j who t = (if j = i then amount else balance_frozen j who s)" for j
    using am by (simp add: balance_frozen_amount up(2))
  show "amount \<le> frozen (account who t)"
  proof (cases "find (\<lambda>x. ia_id x = i) (freezes_of who t)")
    case None
    with b [of i] show ?thesis by (simp add: balance_frozen_def)
  next
    case (Some y)
    then have y: "y \<in> set (freezes_of who t)" by (metis find_Some_iff nth_mem)
    have "ia_amount y = amount" using Some b [of i] by (simp add: balance_frozen_def)
    with frozen_for_ge(2) [OF y, of "locks who t"] fzt show ?thesis by (simp add: frozen_ok_def)
  qed
qed

end

section \<open>Holding on an account of the old reference counting\<close>

text \<open>
  The upgrade of an account that is still on the old logic takes a consumer reference and sets the
  flag, but the closure of \<open>set_balance_on_hold\<close> then stores the copy read before the upgrade.
\<close>

lemma ensure_upgraded_leak:
  assumes "\<not> is_new_logic (flags (account who s))" "reserved (account who s) \<noteq> 0" "frozen (account who s) = 0"
    "providers_of who s \<noteq> 0"
  shows "account_get who (snd (ensure_upgraded cfg who s)) =
    (account_get who s)\<lparr>consumers := saturating_add (consumers_of who s) 1,
      data := (account who s)\<lparr>flags := set_new_logic (flags (account who s))\<rparr>\<rparr>"
  using assms
  by (simp add: ensure_upgraded_def Let_def inc_consumers_without_limit_eq store_try_mutate_exists_def
      storage_mutate_def account_reads account_def upd_eq_put account_get_def [symmetric] account_get_put word_gt_0)

lemma mutate_old_account:
  assumes run: "try_mutate_account cfg no_drop who False (\<lambda>_ _. ret ((), a)) s = (Inr ((), md), t)"
    and old: "\<not> is_new_logic (flags (account who s))" "reserved (account who s) \<noteq> 0" "frozen (account who s) = 0"
      "providers_of who s \<noteq> 0"
    and a: "reserved a \<noteq> 0" "free a = free (account who s)"
  shows "account_get who t = (account_get who s)\<lparr>consumers := saturating_add (consumers_of who s) 1, data := a\<rparr>"
    "md = None"
proof -
  let ?u = "snd (ensure_upgraded cfg who s)" and ?up = "(account who s)\<lparr>flags := set_new_logic (flags (account who s))\<rparr>"
  note u = ensure_upgraded_leak [OF old]
  have acc: "account who ?u = ?up" using u [of cfg] by (simp add: account_def store_get_def)
  have "reserved ?up \<noteq> reserved account_data_default" using old(2) by (simp add: account_data_default_def)
  then have nd: "?up \<noteq> account_data_default" by metis
  have c: "consumers_of who ?u \<noteq> 0" using u [of cfg] default_cfg.saturating_inc_pos by (simp add: consumers_of_def)
  have "mutate_closure cfg no_drop who False (\<lambda>_ _. ret ((), a)) (Some ?up) ?u =
      (Inr ((None, None, ()), Some a), ?u)"
    using old(2) a c by (auto simp: mutate_closure_def Let_def bindE_def ret_def update_refs_def modifyE_def)
  then have m: "store_try_mutate_exists who (mutate_closure cfg no_drop who False (\<lambda>_ _. ret ((), a))) ?u =
      (Inr (None, None, ()), put_account who (Some ((account_get who ?u)\<lparr>data := a\<rparr>)) ?u)"
    using acc nd old(4) u [of cfg]
    by (simp add: store_try_mutate_exists_def Let_def account_def storage_mutate_def account_reads upd_eq_put
        account_get_def [symmetric] word_gt_0)
  from run m show "md = None" "account_get who t = (account_get who s)\<lparr>consumers := saturating_add (consumers_of who s) 1, data := a\<rparr>"
    using u [of cfg] by (auto simp: try_mutate_account_def monad bindE_def account_get_put split: prod.splits)
qed

lemma hold_on_old_account:
  assumes run: "set_balance_on_hold cfg reason who amount s = (Inr x, t)" and more: "balance_on_hold reason who s < amount"
    and old: "\<not> is_new_logic (flags (account who s))" "reserved (account who s) \<noteq> 0" "frozen (account who s) = 0"
      "providers_of who s \<noteq> 0"
  shows "\<not> is_new_logic (flags (account who t))" "consumers_of who t = saturating_add (consumers_of who s) 1"
    "unat (reserved (account who t)) + unat (balance_on_hold reason who s) = unat (reserved (account who s)) + unat amount"
    "frozen (account who t) = 0" "providers_of who t = providers_of who s" "free_balance who t = free_balance who s"
proof -
  from run obtain nr md u where
    nr: "unat nr + unat (balance_on_hold reason who s) = unat (reserved (account who s)) + unat amount"
    and m: "try_mutate_account cfg no_drop who False (\<lambda>_ _. ret ((), (account who s)\<lparr>reserved := nr\<rparr>)) s = (Inr ((), md), u)"
    and t: "t = (let nh = new_holds reason amount (holds_of who s);
              v = u\<lparr>holds_map := (holds_map u)(who := if nh = [] then None else Some nh)\<rparr>
          in case md of Some dust \<Rightarrow> handle_raw_dust cfg dust v | None \<Rightarrow> v)"
    by (rule set_balance_on_hold_run)
  have "nr \<noteq> 0" using nr more by (auto simp: word_less_nat_alt)
  note u = mutate_old_account [OF m old, simplified, OF this]
  have "account_get who t = account_get who u"
    using t u(2) by (simp add: Let_def account_get_def storage_get_def)
  with u(1) nr old show "\<not> is_new_logic (flags (account who t))"
    "consumers_of who t = saturating_add (consumers_of who s) 1"
    "unat (reserved (account who t)) + unat (balance_on_hold reason who s) = unat (reserved (account who s)) + unat amount"
    "frozen (account who t) = 0" "providers_of who t = providers_of who s" "free_balance who t = free_balance who s"
    by (simp_all add: account_def store_get_def consumers_of_def providers_of_def free_balance_def)
qed

section \<open>Properties\<close>

lemma claims_two_accounts:
  "holds_ok (two_accounts x y)" "frozen_ok (two_accounts x y)"
  by (simp_all add: holds_ok_def frozen_ok_def hold_sum_def holds_of_def freezes_of_def locks_def
      storage_get_def frozen_for_def account_def store_get_def account_get_two funded_def)
    (simp_all add: two_accounts_def empty_runtime_def)

lemma held_example:
  "books (test_default_config 1 3 3) 0 0 (snd (hold (test_default_config 1 3 3) 0 1 30 (two_accounts 100 50)))"
  "holds_ok (snd (hold (test_default_config 1 3 3) 0 1 30 (two_accounts 100 50)))"
proof -
  let ?cfg = "test_default_config 1 3 3 :: (nat, unit) cfg" and ?s = "two_accounts 100 50"
  have b: "books ?cfg 0 0 ?s" by (rule books_two_accounts) (simp_all add: test_default_config_def)
  have "fst (hold ?cfg 0 1 30 ?s) = Inr ()" by code_simp
  then have run: "hold ?cfg 0 1 30 ?s = (Inr (), snd (hold ?cfg 0 1 30 ?s))" by (simp add: prod_eq_iff)
  show "books ?cfg 0 0 (snd (hold ?cfg 0 1 30 ?s))" "holds_ok (snd (hold ?cfg 0 1 30 ?s))"
    by (rule default_cfg.hold_Ok [OF run b claims_two_accounts(1)])+
qed

text \<open>
  C14. A successful \<open>hold\<close> puts exactly the amount on hold for its reason, raises the reserved
  balance by it, keeps every hold backed by the reserved balance and the books balanced.
\<close>

theorem hold_backed:
  assumes "books_cfg cfg" "books cfg 0 0 s" "holds_ok s" "hold cfg reason who amount s = (Inr u, t)"
  shows "books cfg 0 0 t \<and> holds_ok t \<and>
    unat (balance_on_hold reason who t) = unat (balance_on_hold reason who s) + unat amount \<and>
    unat (reserved (account who t)) = unat (reserved (account who s)) + unat amount"
  using books_cfg.hold_Ok [OF assms(1,4,2,3)] by simp

theorem hold_backed_witness:
  "unat (balance_on_hold 0 1 (snd (hold (test_default_config 1 3 3) 0 1 30 (two_accounts 100 50)))) = 30"
proof -
  let ?cfg = "test_default_config 1 3 3 :: (nat, unit) cfg" and ?s = "two_accounts 100 50"
  have "books ?cfg 0 0 ?s" by (rule books_two_accounts) (simp_all add: test_default_config_def)
  moreover have "fst (hold ?cfg 0 1 30 ?s) = Inr ()" by code_simp
  moreover have "balance_on_hold 0 1 ?s = 0" by code_simp
  ultimately show ?thesis
    using hold_backed [OF default_cfg.books_cfg_axioms, of 3 3 ?s 0 1 30 "()" "snd (hold ?cfg 0 1 30 ?s)"]
      claims_two_accounts(1)
    by (simp add: prod_eq_iff)
qed

text \<open>
  C15. Releasing a hold of an account that keeps the existential deposit free moves what leaves
  the hold to the free balance, all of it, and keeps the books balanced: the requested amount, or
  as much of it as is on hold when the caller asked for a best effort.
\<close>

theorem release_returns:
  assumes "books_cfg cfg" "books cfg 0 0 s" "holds_ok s" "ed cfg \<le> free_balance who s"
    and "release cfg reason who amount precision s = (Inr actual, t)"
  shows "books cfg 0 0 t \<and> holds_ok t \<and>
    actual = (if precision = BestEffort then min amount (balance_on_hold reason who s) else amount) \<and>
    unat (balance_on_hold reason who t) + unat actual = unat (balance_on_hold reason who s) \<and>
    unat (free_balance who t) = unat (free_balance who s) + unat actual"
  using books_cfg.release_Ok [OF assms(1,5,2,3,4)] by simp

theorem release_returns_witness:
  "unat (free_balance 1 (snd (release (test_default_config 1 3 3) 0 1 50 BestEffort
     (snd (hold (test_default_config 1 3 3) 0 1 30 (two_accounts 100 50)))))) = 100"
proof -
  let ?cfg = "test_default_config 1 3 3 :: (nat, unit) cfg"
  let ?s = "snd (hold ?cfg 0 1 30 (two_accounts 100 50))"
  note s = held_example
  have "fst (release ?cfg 0 1 50 BestEffort ?s) = Inr 30" by code_simp
  moreover have "ed ?cfg \<le> free_balance 1 ?s" "free_balance 1 ?s = 70" by code_simp+
  ultimately show ?thesis
    using release_returns [OF default_cfg.books_cfg_axioms s, of 1 0 50 BestEffort 30
        "snd (release ?cfg 0 1 50 BestEffort ?s)"] by (simp add: prod_eq_iff)
qed

text \<open>
  C16. Moving held funds to the hold or the free balance of a different account, when both have the
  existential deposit free, conserves them and keeps every hold backed.
\<close>

theorem transfer_on_hold_conserves:
  assumes "books_cfg cfg" "books cfg 0 0 s" "holds_ok s" "source \<noteq> dest"
    and "ed cfg \<le> free_balance source s" "ed cfg \<le> free_balance dest s"
    and "transfer_on_hold cfg reason source dest amount precision mode force s = (Inr actual, t)"
  shows "books cfg 0 0 t \<and> holds_ok t \<and>
    unat (balance_on_hold reason source t) + unat actual = unat (balance_on_hold reason source s)"
  using books_cfg.transfer_on_hold_Ok [OF assms(1,7,2-6)] by simp

theorem transfer_on_hold_conserves_witness:
  "unat (balance_on_hold 0 1 (snd (transfer_on_hold (test_default_config 1 3 3) 0 1 2 20 Exact R_OnHold Polite
     (snd (hold (test_default_config 1 3 3) 0 1 30 (two_accounts 100 50)))))) = 10"
proof -
  let ?cfg = "test_default_config 1 3 3 :: (nat, unit) cfg"
  let ?s = "snd (hold ?cfg 0 1 30 (two_accounts 100 50))"
  note s = held_example
  have "fst (transfer_on_hold ?cfg 0 1 2 20 Exact R_OnHold Polite ?s) = Inr 20" by code_simp
  moreover have "ed ?cfg \<le> free_balance 1 ?s" "ed ?cfg \<le> free_balance 2 ?s" "balance_on_hold 0 1 ?s = 30"
    by code_simp+
  ultimately show ?thesis
    using transfer_on_hold_conserves [OF default_cfg.books_cfg_axioms s, of 1 2 0 20 Exact R_OnHold Polite 20
        "snd (transfer_on_hold ?cfg 0 1 2 20 Exact R_OnHold Polite ?s)"] by (simp add: prod_eq_iff)
qed

text \<open>
  After \<open>set_freeze\<close> the freeze has exactly the requested amount (none at zero), the other
  freezes are as before, the account's frozen balance is the largest of its locks and freezes,
  and the books are balanced.
\<close>

lemma set_freeze_effective:
  assumes "books_cfg cfg" "books cfg 0 0 s" "frozen_ok s" "set_freeze cfg i who amount s = (Inr x, t)"
  shows "books cfg 0 0 t \<and> frozen_ok t \<and> amount \<le> frozen (account who t) \<and>
    (\<forall>j. balance_frozen j who t = (if j = i then amount else balance_frozen j who s))"
  using books_cfg.set_freeze_Ok [OF assms(1,4,2,3)] by simp

text \<open>
  Two accounts, the first with a provider reference from another pallet as well, so that the
  balances pallet lets its free balance go below the existential deposit.
\<close>

definition joint_account :: "nat runtime" where
  "joint_account =
     empty_runtime\<lparr>account_map := [1 \<mapsto> (funded 11)\<lparr>providers := 2\<rparr>, 2 \<mapsto> funded 50], total_issuance := 61\<rparr>"

abbreviation joint_held :: "nat runtime" where
  "joint_held \<equiv> snd (hold (test_default_config 10 3 3) 0 1 8 joint_account)"

abbreviation joint_released :: "nat runtime" where
  "joint_released \<equiv> snd (release (test_default_config 10 3 3) 0 1 20 BestEffort joint_held)"

lemma joint_held_books:
  "books (test_default_config 10 3 3) 0 0 joint_held" "holds_ok joint_held"
proof -
  let ?cfg = "test_default_config 10 3 3 :: (nat, unit) cfg"
  have ok: "balances_ok ?cfg joint_account"
    by (simp add: balances_ok_def account_get_def storage_get_def joint_account_def funded_def account_ok_def
        ed_def test_default_config_def account_info_default_def)
  have "bal_sum joint_account = 61"
    by (simp add: bal_sum_def joint_account_def msum_def funded_def acct_total_def)
  with ok have b: "books ?cfg 0 0 joint_account"
    by (simp add: books_def) (simp add: joint_account_def)
  have h: "holds_ok joint_account"
    by (simp add: holds_ok_def hold_sum_def holds_of_def storage_get_def joint_account_def empty_runtime_def)
  have "fst (hold ?cfg 0 1 8 joint_account) = Inr ()" by code_simp
  then have run: "hold ?cfg 0 1 8 joint_account = (Inr (), joint_held)" by (simp add: prod_eq_iff)
  show "books ?cfg 0 0 joint_held" "holds_ok joint_held" by (rule ed10_cfg.hold_Ok [OF run b h])+
qed

text \<open>
  C17. The precondition of \<open>release_returns\<close> is needed: a best-effort release loses the funds when
  the account has nothing free and all that is on hold is less than the existential deposit. The
  deposit check is passed by the larger amount asked for, the hold is taken off, and only then is
  what came off found to be too little to deposit. The call succeeds with 0, nothing is on hold any
  more, no free balance has risen, and the balances of all accounts together have shrunk by what
  was held while the total issuance still counts it.
\<close>

theorem release_loses_funds:
  assumes "books_cfg cfg" "books cfg 0 0 s" "holds_ok s" "free_balance who s = 0"
    "balance_on_hold reason who s < ed cfg" "balance_on_hold reason who s \<le> amount"
    "release cfg reason who amount BestEffort s = (Inr actual, t)"
  shows "actual = 0 \<and> balance_on_hold reason who t = 0 \<and>
    (\<forall>k. free_balance k t = free_balance k s) \<and>
    total_issuance t = total_issuance s \<and>
    bal_sum t + unat (balance_on_hold reason who s) = bal_sum s"
  using books_cfg.release_loses [OF assms(1,7,2-6)] by simp

theorem release_loses_funds_witness:
  "bal_sum joint_released + 8 = bal_sum joint_held \<and> total_issuance joint_released = total_issuance joint_held"
proof -
  let ?cfg = "test_default_config 10 3 3 :: (nat, unit) cfg"
  have "free_balance 1 joint_held = 0" "balance_on_hold 0 1 joint_held = 8"
    "fst (release ?cfg 0 1 20 BestEffort joint_held) = Inr 0" by code_simp+
  then show ?thesis
    using release_loses_funds [OF ed10_cfg.books_cfg_axioms joint_held_books, of 1 0 20 0 joint_released]
    by (simp add: prod_eq_iff ed_def test_default_config_def)
qed

text \<open>An account that was last written before the new reference-counting logic.\<close>

definition old_account :: "nat runtime" where
  "old_account =
     empty_runtime\<lparr>account_map := [1 \<mapsto> funded 100,
        2 \<mapsto> (funded 50)\<lparr>data := \<lparr>free = 50, reserved = 20, frozen = 0, flags = old_logic\<rparr>\<rparr>],
      total_issuance := 170\<rparr>"

fun hold_into_old :: "nat \<Rightarrow> nat runtime" where
  "hold_into_old 0 = old_account"
| "hold_into_old (Suc n) =
     snd (transfer_and_hold (test_default_config 10 3 3) 0 1 2 5 Exact Expendable Polite (hold_into_old n))"

text \<open>
  Holding repeatedly into the account by \<open>transfer_and_hold\<close> takes a consumer reference each time.
\<close>

lemma hold_into_old_leaks:
  "\<not> is_new_logic (flags (account 2 (hold_into_old 3)))" "consumers_of 2 (hold_into_old 0) = 0"
  "consumers_of 2 (hold_into_old 1) = 1" "consumers_of 2 (hold_into_old 2) = 2" "consumers_of 2 (hold_into_old 3) = 3"
  by code_simp+

text \<open>
  C18. \<open>set_balance_on_hold\<close> reads the account before \<open>try_mutate_account\<close> upgrades it, and its
  closure writes that copy back. On a provided-for account of the old logic with a reserve and
  nothing frozen, every raise of a hold takes another consumer reference and leaves the account on
  the old logic, in the state in which the next raise does the same.
\<close>

theorem old_logic_leaks_consumers:
  assumes "set_balance_on_hold cfg reason who amount s = (Inr x, t)" "balance_on_hold reason who s < amount"
    "\<not> is_new_logic (flags (account who s))" "reserved (account who s) \<noteq> 0" "frozen (account who s) = 0"
    "providers_of who s \<noteq> 0"
  shows "consumers_of who t = saturating_add (consumers_of who s) 1 \<and>
    \<not> is_new_logic (flags (account who t)) \<and>
    unat (reserved (account who t)) = unat (reserved (account who s)) + (unat amount - unat (balance_on_hold reason who s)) \<and>
    frozen (account who t) = 0 \<and> providers_of who t = providers_of who s"
  using hold_on_old_account [OF assms] assms(2) by (simp add: word_less_nat_alt)

theorem old_logic_leaks_consumers_witness:
  "consumers_of 2 (snd (set_balance_on_hold (test_default_config 10 3 3) 0 2 5 old_account)) = 1"
proof -
  let ?cfg = "test_default_config 10 3 3 :: (nat, unit) cfg"
  have "fst (set_balance_on_hold ?cfg 0 2 5 old_account) = Inr ()" "balance_on_hold 0 2 old_account = 0"
    "\<not> is_new_logic (flags (account 2 old_account))" "reserved (account 2 old_account) = 20"
    "frozen (account 2 old_account) = 0" "providers_of 2 old_account = 1" "saturating_add (consumers_of 2 old_account) 1 = 1"
    by code_simp+
  then show ?thesis
    using old_logic_leaks_consumers [of ?cfg 0 2 5 old_account "()" "snd (set_balance_on_hold ?cfg 0 2 5 old_account)"]
    by (simp add: prod_eq_iff)
qed

end
