(* ===== verification/Currency.thy ===== *)
theory Currency
  imports Holds
begin

text \<open>
  The \<open>Currency\<close> family of traits of the balances pallet (\<open>frame/balances/src/impl_currency.rs\<close>):
  \<open>Currency\<close>, \<open>ReservableCurrency\<close>, \<open>NamedReservableCurrency\<close> and \<open>LockableCurrency\<close>, with
  \<open>do_transfer_reserved\<close> and \<open>update_locks\<close> of \<open>lib.rs\<close>. Names that the \<open>fungible\<close> traits use
  too carry the suffix \<open>_cur\<close>. A \<open>PositiveImbalance\<close> or a \<open>NegativeImbalance\<close> is its amount; the
  drop glue of a closure's result is passed to \<open>try_mutate_account\<close>.

  The lemmas show that each operation accounts for what it does: the imbalance it returns is
  exactly the change of the balances, on its error paths too.
\<close>

section \<open>Currency\<close>

definition can_slash :: "'a \<Rightarrow> balance \<Rightarrow> ('a, 'm) runtime_scheme \<Rightarrow> bool" where
  "can_slash who value s = (if value = 0 then True else value \<le> free_balance who s)"

definition burn_cur :: "balance \<Rightarrow> ('a, 'm) runtime_scheme \<Rightarrow> balance \<times> ('a, 'm) runtime_scheme" where
  "burn_cur amount s =
     (if amount = 0 then (0, s)
      else
        let issued = total_issuance s;
            (issued', amount') = (case checked_sub issued amount of Some x \<Rightarrow> (x, amount) | None \<Rightarrow> (0, issued))
        in (amount', deposit_event (Balances (Ev_Rescinded amount')) (s\<lparr>total_issuance := issued'\<rparr>)))"

definition issue_cur :: "balance \<Rightarrow> ('a, 'm) runtime_scheme \<Rightarrow> balance \<times> ('a, 'm) runtime_scheme" where
  "issue_cur amount s =
     (if amount = 0 then (0, s)
      else
        let issued = total_issuance s;
            (issued', amount') =
              (case checked_add issued amount of Some x \<Rightarrow> (x, amount) | None \<Rightarrow> (max_value, max_value - issued))
        in (amount', deposit_event (Balances (Ev_Issued amount')) (s\<lparr>total_issuance := issued'\<rparr>)))"

definition ensure_can_withdraw ::
  "'a \<Rightarrow> balance \<Rightarrow> balance \<Rightarrow> (('a, 'm) runtime_scheme, dispatch_error, unit) comp" where
  "ensure_can_withdraw who amount new_balance =
     (if amount = 0 then ret ()
      else
        bindE (getsE (account who)) (\<lambda>a.
        ensureE (frozen a \<le> new_balance) (DE_Module LiquidityRestrictions)))"

definition transfer_cur ::
  "('a, 'm) cfg \<Rightarrow> 'a \<Rightarrow> 'a \<Rightarrow> balance \<Rightarrow> existence_requirement \<Rightarrow>
   (('a, 'm) runtime_scheme, dispatch_error, unit) comp" where
  "transfer_cur cfg transactor dest value existence_requirement =
     (if value = 0 \<or> transactor = dest then ret ()
      else
        let keep_alive = (case existence_requirement of KeepAlive \<Rightarrow> Preserve | AllowDeath \<Rightarrow> Expendable) in
        bindE (transfer cfg transactor dest value keep_alive) (\<lambda>_. ret ()))"

definition slash ::
  "('a, 'm) cfg \<Rightarrow> 'a \<Rightarrow> balance \<Rightarrow> ('a, 'm) runtime_scheme \<Rightarrow> (balance \<times> balance) \<times> ('a, 'm) runtime_scheme" where
  "slash cfg who value s =
     (if value = 0 then ((0, 0), s)
      else if total_balance who s = 0 then ((0, value), s)
      else
        case try_mutate_account_handling_dust cfg (\<lambda>(imbalance, _). drop_negative imbalance) who False
            (\<lambda>a _. bindE (getsE (can_dec_provider who)) (\<lambda>can_dec.
               let ed = existential_deposit cfg;
                   actual = (if can_dec then min value (free a) else min value (saturating_sub (free a) ed));
                   remaining = saturating_sub value actual
               in ret ((actual, remaining), a\<lparr>free := saturating_sub (free a) actual\<rparr>))) s of
          (Inr (imbalance, remaining), s') \<Rightarrow>
            ((imbalance, remaining), deposit_event (Balances (Ev_Slashed who (saturating_sub value remaining))) s')
        | (Inl _, s') \<Rightarrow> ((0, value), s'))"

definition deposit_into_existing ::
  "('a, 'm) cfg \<Rightarrow> 'a \<Rightarrow> balance \<Rightarrow> (('a, 'm) runtime_scheme, dispatch_error, balance) comp" where
  "deposit_into_existing cfg who value =
     (if value = 0 then ret 0
      else
        try_mutate_account_handling_dust cfg drop_positive who False (\<lambda>a is_new.
          bindE (ensureE (\<not> is_new) (DE_Module DeadAccount)) (\<lambda>_.
          bindE (ok_or (checked_add (free a) value) (DE_Arithmetic AE_Overflow)) (\<lambda>new_free.
          bindE (modifyE (deposit_event (Balances (Ev_Deposit who value)))) (\<lambda>_.
          ret (value, a\<lparr>free := new_free\<rparr>))))))"

definition deposit_creating ::
  "('a, 'm) cfg \<Rightarrow> 'a \<Rightarrow> balance \<Rightarrow> ('a, 'm) runtime_scheme \<Rightarrow> balance \<times> ('a, 'm) runtime_scheme" where
  "deposit_creating cfg who value s =
     (if value = 0 then (0, s)
      else
        case try_mutate_account_handling_dust cfg drop_positive who False (\<lambda>a is_new.
            bindE (ensureE (existential_deposit cfg \<le> value \<or> \<not> is_new) (DE_Module ExistentialDeposit)) (\<lambda>_.
            case checked_add (free a) value of
              None \<Rightarrow> ret (0, a)
            | Some x \<Rightarrow>
                bindE (modifyE (deposit_event (Balances (Ev_Deposit who value)))) (\<lambda>_.
                ret (value, a\<lparr>free := x\<rparr>)))) s of
          (Inr imbalance, s') \<Rightarrow> (imbalance, s')
        | (Inl _, s') \<Rightarrow> (0, s'))"

definition withdraw_cur ::
  "('a, 'm) cfg \<Rightarrow> 'a \<Rightarrow> balance \<Rightarrow> existence_requirement \<Rightarrow>
   (('a, 'm) runtime_scheme, dispatch_error, balance) comp" where
  "withdraw_cur cfg who value liveness =
     (if value = 0 then ret 0
      else
        try_mutate_account_handling_dust cfg drop_negative who False (\<lambda>a _.
          bindE (ok_or (checked_sub (free a) value) (DE_Module InsufficientBalance)) (\<lambda>new_free_account.
          let ed = existential_deposit cfg;
              would_be_dead = (new_free_account < ed);
              would_kill = (would_be_dead \<and> ed \<le> free a)
          in
          bindE (ensureE (liveness = AllowDeath \<or> \<not> would_kill) (DE_Module Expendability)) (\<lambda>_.
          bindE (ensure_can_withdraw who value new_free_account) (\<lambda>_.
          bindE (modifyE (deposit_event (Balances (Ev_Withdraw who value)))) (\<lambda>_.
          ret (value, a\<lparr>free := new_free_account\<rparr>)))))))"

datatype signed_imbalance = SI_Positive balance | SI_Negative balance

fun drop_signed :: "signed_imbalance \<Rightarrow> ('a, 'm) runtime_scheme \<Rightarrow> ('a, 'm) runtime_scheme" where
  "drop_signed (SI_Positive x) s = drop_positive x s"
| "drop_signed (SI_Negative x) s = drop_negative x s"

definition make_free_balance_be ::
  "('a, 'm) cfg \<Rightarrow> 'a \<Rightarrow> balance \<Rightarrow> ('a, 'm) runtime_scheme \<Rightarrow> signed_imbalance \<times> ('a, 'm) runtime_scheme" where
  "make_free_balance_be cfg who value s =
     (case try_mutate_account_handling_dust cfg drop_signed who False (\<lambda>a is_new.
          bindE (ensureE (existential_deposit cfg \<le> value \<or> \<not> is_new) (DE_Module ExistentialDeposit)) (\<lambda>_.
          let imbalance = (if free a \<le> value then SI_Positive (value - free a) else SI_Negative (free a - value)) in
          bindE (modifyE (deposit_event (Balances (Ev_BalanceSet who value)))) (\<lambda>_.
          ret (imbalance, a\<lparr>free := value\<rparr>)))) s of
        (Inr imbalance, s') \<Rightarrow> (imbalance, s')
      | (Inl _, s') \<Rightarrow> (SI_Positive 0, s'))"

section \<open>Reserves\<close>

definition ensure_can_reserve ::
  "('a, 'm) cfg \<Rightarrow> 'a \<Rightarrow> balance \<Rightarrow> bool \<Rightarrow> (('a, 'm) runtime_scheme, dispatch_error, unit) comp" where
  "ensure_can_reserve cfg who value check_existential_deposit =
     bindE (getsE (account who)) (\<lambda>a.
     bindE (ok_or (checked_sub (free a) value) (DE_Module InsufficientBalance)) (\<lambda>new_free_balance.
     if check_existential_deposit
     then ensureE (existential_deposit cfg \<le> new_free_balance) (DE_Module Expendability)
     else ret ()))"

definition can_reserve :: "('a, 'm) cfg \<Rightarrow> 'a \<Rightarrow> balance \<Rightarrow> ('a, 'm) runtime_scheme \<Rightarrow> bool" where
  "can_reserve cfg who value s =
     (if value = 0 then True
      else case fst (ensure_can_reserve cfg who value True s) of Inr _ \<Rightarrow> True | Inl _ \<Rightarrow> False)"

definition reserve ::
  "('a, 'm) cfg \<Rightarrow> 'a \<Rightarrow> balance \<Rightarrow> (('a, 'm) runtime_scheme, dispatch_error, unit) comp" where
  "reserve cfg who value =
     (if value = 0 then ret ()
      else
        bindE (try_mutate_account_handling_dust cfg no_drop who False (\<lambda>a _.
          bindE (ok_or (checked_sub (free a) value) (DE_Module InsufficientBalance)) (\<lambda>new_free.
          bindE (ok_or (checked_add (reserved a) value) (DE_Arithmetic AE_Overflow)) (\<lambda>new_reserved.
          bindE (ensure_can_reserve cfg who value False) (\<lambda>_.
          ret ((), a\<lparr>free := new_free, reserved := new_reserved\<rparr>)))))) (\<lambda>_.
        modifyE (deposit_event (Balances (Ev_Reserved who value)))))"

definition unreserve ::
  "('a, 'm) cfg \<Rightarrow> 'a \<Rightarrow> balance \<Rightarrow> ('a, 'm) runtime_scheme \<Rightarrow> balance \<times> ('a, 'm) runtime_scheme" where
  "unreserve cfg who value s =
     (if value = 0 then (0, s)
      else if total_balance who s = 0 then (value, s)
      else
        case mutate_account_handling_dust cfg no_drop who False (\<lambda>a.
            let actual = min (reserved a) value
            in (actual, a\<lparr>reserved := reserved a - actual, free := saturating_add (free a) actual\<rparr>)) s of
          (Inr actual, s') \<Rightarrow> (value - actual, deposit_event (Balances (Ev_Unreserved who actual)) s')
        | (Inl _, s') \<Rightarrow> (value, s'))"

definition slash_reserved ::
  "('a, 'm) cfg \<Rightarrow> 'a \<Rightarrow> balance \<Rightarrow> ('a, 'm) runtime_scheme \<Rightarrow> (balance \<times> balance) \<times> ('a, 'm) runtime_scheme" where
  "slash_reserved cfg who value s =
     (if value = 0 then ((0, 0), s)
      else if total_balance who s = 0 then ((0, value), s)
      else
        case mutate_account_handling_dust cfg (\<lambda>(imbalance, _). drop_negative imbalance) who False (\<lambda>a.
            let actual = min value (reserved a)
            in ((actual, saturating_sub value actual), a\<lparr>reserved := saturating_sub (reserved a) actual\<rparr>)) s of
          (Inr (imbalance, not_slashed), s') \<Rightarrow>
            ((imbalance, not_slashed),
             deposit_event (Balances (Ev_Slashed who (saturating_sub value not_slashed))) s')
        | (Inl _, s') \<Rightarrow> ((0, value), s'))"

definition do_transfer_reserved ::
  "('a, 'm) cfg \<Rightarrow> 'a \<Rightarrow> 'a \<Rightarrow> balance \<Rightarrow> precision \<Rightarrow> fortitude \<Rightarrow> balance_status \<Rightarrow>
   (('a, 'm) runtime_scheme, dispatch_error, balance) comp" where
  "do_transfer_reserved cfg slashed beneficiary value precision fortitude status =
     (if value = 0 then ret 0
      else
        bindE (getsE (reducible_total_balance_on_hold slashed fortitude)) (\<lambda>max_amount.
        let actual = (case precision of BestEffort \<Rightarrow> min value max_amount | Exact \<Rightarrow> value) in
        bindE (ensureE (actual \<le> max_amount) (DE_Token TE_FundsUnavailable)) (\<lambda>_.
        if slashed = beneficiary
        then (case status of
                S_Free \<Rightarrow> bindE (runE (unreserve cfg slashed actual)) (\<lambda>rest. ret (saturating_sub actual rest))
              | S_Reserved \<Rightarrow> ret actual)
        else
          bindE (try_mutate_account cfg no_drop beneficiary False (\<lambda>to_account is_new.
            bindE (ensureE (\<not> is_new) (DE_Module DeadAccount)) (\<lambda>_.
            bindE (try_mutate_account cfg no_drop slashed False (\<lambda>from_account _.
              bindE (case status of
                  S_Free \<Rightarrow>
                    bindE (ok_or (checked_add (free to_account) actual) (DE_Arithmetic AE_Overflow)) (\<lambda>x.
                    ret (to_account\<lparr>free := x\<rparr>))
                | S_Reserved \<Rightarrow>
                    bindE (ok_or (checked_add (reserved to_account) actual) (DE_Arithmetic AE_Overflow)) (\<lambda>x.
                    ret (to_account\<lparr>reserved := x\<rparr>))) (\<lambda>to_account.
              ret (to_account, from_account\<lparr>reserved := saturating_sub (reserved from_account) actual\<rparr>))))
              (\<lambda>(to_account, maybe_dust_1).
            ret (maybe_dust_1, to_account))))) (\<lambda>(maybe_dust_1, maybe_dust_2).
          bindE (modifyE (\<lambda>s. case maybe_dust_1 of Some dust \<Rightarrow> handle_raw_dust cfg dust s | None \<Rightarrow> s)) (\<lambda>_.
          bindE (modifyE (\<lambda>s. case maybe_dust_2 of Some dust \<Rightarrow> handle_raw_dust cfg dust s | None \<Rightarrow> s)) (\<lambda>_.
          bindE (modifyE (deposit_event (Balances (Ev_ReserveRepatriated slashed beneficiary actual status)))) (\<lambda>_.
          ret actual)))))))"

definition repatriate_reserved ::
  "('a, 'm) cfg \<Rightarrow> 'a \<Rightarrow> 'a \<Rightarrow> balance \<Rightarrow> balance_status \<Rightarrow>
   (('a, 'm) runtime_scheme, dispatch_error, balance) comp" where
  "repatriate_reserved cfg slashed beneficiary value status =
     bindE (do_transfer_reserved cfg slashed beneficiary value BestEffort Polite status) (\<lambda>actual.
     ret (saturating_sub value actual))"

section \<open>Adjusting one account\<close>

text \<open>
  \<open>adjusts cfg who a s t\<close>: the account \<open>who\<close> was set to \<open>a\<close>, and where that leaves dust, the
  account was removed and its dust handed to the dust handler.
\<close>

definition adjusts ::
  "('a, 'm) cfg \<Rightarrow> 'a \<Rightarrow> account_data \<Rightarrow> ('a, 'm) runtime_scheme \<Rightarrow> ('a, 'm) runtime_scheme \<Rightarrow> bool" where
  "adjusts cfg who a s t \<longleftrightarrow>
     (\<exists>u. only_account who s u \<and> balances_ok cfg u \<and> account who u = settle cfg a \<and>
        core t = core (handle_maybe_dust cfg (dust_of cfg a) u) \<and>
        bal_sum u + val0 unat (dust_of cfg a) + acct_total (account who s) = bal_sum s + acct_total a)"

lemma books_cong: "core s = core t \<Longrightarrow> books cfg c d s = books cfg c d t"
  using core_eqD [of s t] by (simp add: books_def cong: bal_sum_cong balances_ok_cong)

lemma adjusts_event [simp]: "adjusts cfg who a s (deposit_event ev t) = adjusts cfg who a s t"
  by (simp add: adjusts_def)

context books_cfg
begin

lemma try_mutate_events:
  assumes run: "try_mutate_account cfg drop_r who fb f s = (Inr (r, md), t)"
    and ok: "balances_ok cfg s"
    and pure: "f (account who s) (account who s = account_data_default) s = (res, s1)" "core s1 = core s"
    and flag: "\<forall>r1 a1. res = Inr (r1, a1) \<longrightarrow> is_new_logic (flags a1)"
  obtains a1 where "res = Inr (r, a1)"
    and "md = dust_of cfg a1" and "account who t = settle cfg a1"
    and "only_account who s t" and "balances_ok cfg t"
    and "bal_sum t + val0 unat md + acct_total (account who s) = bal_sum s + acct_total a1"
proof -
  have s1: "balances_ok cfg s1" "account_get who s1 = account_get who s"
    using pure(2) ok balances_ok_cong [OF core_eqD(1) [OF pure(2)], of cfg] account_get_cong [OF pure(2)] by simp_all
  from run books_new_logic [OF ok] obtain a1 s2 where
    f: "f (account who s) (account who s = account_data_default) s = (Inr (r, a1), s2)"
    and t: "md = dust_of cfg a1" "account who t = settle cfg a1" "only_account who s2 t" "balances_ok cfg t"
    by (rule try_mutate_account_Ok) (use pure flag s1 in auto)
  with pure have "s2 = s1" "res = Inr (r, a1)" by auto
  with t(3) pure(2) have only: "only_account who s t"
    using only_account_core only_account_trans by metis
  have "bal_sum t + val0 unat md + acct_total (account who s) = bal_sum s + acct_total a1"
    using bal_sum_only_account [OF books_finite [OF ok] only] t(1,2) settle_total [of cfg a1] by simp
  with t only \<open>res = _\<close> that show ?thesis by blast
qed

lemma handling_dust_Ok:
  assumes run: "try_mutate_account_handling_dust cfg drop_r who fb f s = (Inr r, t)"
    and ok: "balances_ok cfg s"
    and pure: "f (account who s) (account who s = account_data_default) s = (res, s1)" "core s1 = core s"
    and flag: "\<forall>r1 a1. res = Inr (r1, a1) \<longrightarrow> is_new_logic (flags a1)"
  obtains a1 where "res = Inr (r, a1)" and "adjusts cfg who a1 s t"
proof -
  from run obtain md u where m: "try_mutate_account cfg drop_r who fb f s = (Inr (r, md), u)"
    and t: "t = (case md of Some dust \<Rightarrow> handle_raw_dust cfg dust u | None \<Rightarrow> u)"
    by (auto simp: try_mutate_account_handling_dust_def monad bindE_eq_Inr)
  obtain a1 where a1: "res = Inr (r, a1)" "md = dust_of cfg a1" "account who u = settle cfg a1"
    "only_account who s u" "balances_ok cfg u"
    "bal_sum u + val0 unat md + acct_total (account who s) = bal_sum s + acct_total a1"
    by (rule try_mutate_events [OF m ok pure flag])
  with t raw_dust_opt [OF a1(2), of u] have "adjusts cfg who a1 s t" unfolding adjusts_def by metis
  with a1(1) that show ?thesis by blast
qed

text \<open>A failing call leaves the account as it was; the closure's result was dropped.\<close>

lemma handling_dust_Err:
  assumes run: "try_mutate_account_handling_dust cfg drop_r who fb f s = (Inl e, t)"
    and ok: "balances_ok cfg s"
    and pure: "f (account who s) (account who s = account_data_default) s = (res, s1)" "core s1 = core s"
  obtains (closure) "res = Inl e" "core t = core s"
  | (refs) r a1 u where "res = Inr (r, a1)" "t = drop_r r u" "unharmed cfg s u"
proof -
  have s1: "balances_ok cfg s1" "account_get who s1 = account_get who s"
    using pure(2) ok balances_ok_cong [OF core_eqD(1) [OF pure(2)], of cfg] account_get_cong [OF pure(2)] by simp_all
  from run have m: "try_mutate_account cfg drop_r who fb f s = (Inl e, t)"
    by (auto simp: try_mutate_account_handling_dust_def monad bindE_eq_Inl)
  show ?thesis
  proof (rule try_mutate_account_Err [OF m books_new_logic [OF ok]])
    show "balances_ok cfg s' \<and> account_get who s' = account_get who s"
      if "f (account who s) (account who s = account_data_default) s = (Inr (r1, a1), s')" for r1 a1 s'
      using that pure s1 by simp
    assume "f (account who s) (account who s = account_data_default) s = (Inl e, t)"
    with pure closure show thesis by simp
  next
    fix r a1 s2 u
    assume f: "f (account who s) (account who s = account_data_default) s = (Inr (r, a1), s2)"
      and u: "t = drop_r r u" "only_account who s2 u" "account who u = account who s2" "balances_ok cfg u"
    from f pure have [simp]: "s2 = s1" and res: "res = Inr (r, a1)" by auto
    have only: "only_account who s u"
      using u(2) pure(2) only_account_core only_account_trans by (metis \<open>s2 = s1\<close>)
    have acc: "account who u = account who s" using u(3) s1(2) by (simp add: account_def store_get_def)
    have "unharmed cfg s u"
      by (rule unharmed_only [OF only u(4)])
        (use bal_sum_only_account [OF books_finite [OF ok] only] acc in simp_all)
    with refs [OF res u(1)] show thesis by blast
  qed
qed

lemma adjusts_less:
  assumes "adjusts cfg who a s t" "books cfg c 0 s" "acct_total a + k = acct_total (account who s)"
  shows "books cfg (k + c) 0 t"
proof -
  from assms(1) obtain u where u: "only_account who s u" "balances_ok cfg u"
    "core t = core (handle_maybe_dust cfg (dust_of cfg a) u)"
    "bal_sum u + val0 unat (dust_of cfg a) + acct_total (account who s) = bal_sum s + acct_total a"
    by (auto simp: adjusts_def)
  have "books cfg (val0 unat (dust_of cfg a) + (k + c)) 0 u"
    using u(2,4) assms(2,3) only_account_fields(1) [OF u(1)] by (simp add: books_def)
  from handle_maybe_dust_books [OF this] show ?thesis using books_cong [OF u(3)] by simp
qed

lemma adjusts_no_dust:
  assumes "adjusts cfg who a s t" "dust_of cfg a = None"
  shows "only_account who s t" "balances_ok cfg t" "account who t = settle cfg a"
    "bal_sum t + acct_total (account who s) = bal_sum s + acct_total a"
proof -
  from assms obtain u where u: "only_account who s u" "balances_ok cfg u" "account who u = settle cfg a"
    "core t = core u" "bal_sum u + acct_total (account who s) = bal_sum s + acct_total a"
    by (auto simp: adjusts_def handle_maybe_dust_def)
  note c = core_eqD(1) [OF u(4)]
  show "only_account who s t" using u(1,4) only_account_core only_account_trans by metis
  show "balances_ok cfg t" "account who t = settle cfg a"
    "bal_sum t + acct_total (account who s) = bal_sum s + acct_total a"
    using u balances_ok_cong [OF c] account_cong [OF c] bal_sum_cong [OF c] by simp_all
qed

lemma adjusts_more:
  assumes "adjusts cfg who a s t" "books cfg c 0 s" "acct_total a = acct_total (account who s) + k"
    "dust_of cfg a = None"
  shows "books cfg c k t"
  using adjusts_no_dust [OF assms(1,4)] assms(2,3) only_account_fields(1) [of who s t]
  by (simp add: books_def)

lemma adjusts_claims:
  assumes "adjusts cfg who a s t"
  shows "locks_map t = locks_map s" "freezes_map t = freezes_map s" "holds_map t = holds_map s"
    "reserves_map t = reserves_map s"
    "reserved (account k t) = (if k = who then reserved a else reserved (account k s))"
    "frozen (account k t) = (if k = who then frozen a else frozen (account k s))"
proof -
  from assms obtain u where u: "only_account who s u" "account who u = settle cfg a"
    "core t = core (handle_maybe_dust cfg (dust_of cfg a) u)"
    by (auto simp: adjusts_def)
  have "keeps_claims u t"
    using keeps_claims_trans [OF handle_maybe_dust_claims keeps_claims_core [OF u(3)]] .
  then show "locks_map t = locks_map s" "freezes_map t = freezes_map s" "holds_map t = holds_map s"
    "reserves_map t = reserves_map s"
    "reserved (account k t) = (if k = who then reserved a else reserved (account k s))"
    "frozen (account k t) = (if k = who then frozen a else frozen (account k s))"
    using only_account_fields [OF u(1)] account_other [OF u(1), of k] u(2)
    by (auto simp: keeps_claims_def settle_claims)
qed

text \<open>An account that grows leaves no dust.\<close>

lemma grown_no_dust:
  assumes "balances_ok cfg s" "account who s \<noteq> account_data_default"
    "free (account who s) \<le> free a" "reserved a = reserved (account who s)" "frozen a = frozen (account who s)"
  shows "dust_of cfg a = None"
proof -
  have "account_ok (ed cfg) (account_get who s)" using assms(1) by (simp add: balances_ok_def)
  then have "ed cfg \<le> free (account who s) \<or> reserved a \<noteq> 0 \<or> frozen a \<noteq> 0"
    using assms(2,4,5) by (auto simp: account_ok_def account_def store_get_def)
  then show ?thesis using assms(3) by (auto simp: dust_of_def)
qed

lemma handling_dust_total:
  assumes ok: "balances_ok cfg s"
    and f: "f (account who s) (account who s = account_data_default) s = (Inr (r, a1), s1)" "core s1 = core s"
    and cons: "reserved a1 \<noteq> 0 \<or> frozen a1 \<noteq> 0 \<longrightarrow> reserved (account who s) \<noteq> 0 \<or> frozen (account who s) \<noteq> 0"
    and prov: "ed cfg \<le> free (account who s) \<and> free a1 < ed cfg \<longrightarrow> can_dec_provider who s"
    and flag: "is_new_logic (flags a1)"
  obtains t where "try_mutate_account_handling_dust cfg drop_r who fb f s = (Inr r, t)" "adjusts cfg who a1 s t"
proof -
  from try_mutate_account_succeeds [where f = f, OF ok f(1) account_get_cong [OF f(2)] cons prov]
  obtain md u where "try_mutate_account cfg drop_r who fb f s = (Inr (r, md), u)" by blast
  then have "\<exists>t. try_mutate_account_handling_dust cfg drop_r who fb f s = (Inr r, t)"
    by (simp add: try_mutate_account_handling_dust_def monad bindE_def)
  then obtain t where t: "try_mutate_account_handling_dust cfg drop_r who fb f s = (Inr r, t)" by blast
  moreover have "adjusts cfg who a1 s t"
    by (rule handling_dust_Ok [where f = f, OF t ok f]) (use flag in auto)
  ultimately show ?thesis by (rule that)
qed

end

section \<open>Operations on the free balance\<close>

lemma no_dust_free: "dust_of cfg a = None \<Longrightarrow> free (settle cfg a) = free a"
  by (auto simp: settle_def dust_of_def split: if_splits)

lemma mutate_handling_dust_eq:
  "mutate_account_handling_dust cfg drop_r who fb f =
     try_mutate_account_handling_dust cfg drop_r who fb (\<lambda>a _. ret (f a))"
  by (simp add: mutate_account_handling_dust_def try_mutate_account_handling_dust_def mutate_account_def)

definition grows :: "account_data \<Rightarrow> account_data \<Rightarrow> bool" where
  "grows a b \<longleftrightarrow> free a \<le> free b \<and> reserved b = reserved a \<and> frozen b = frozen a \<and> flags b = flags a"

lemma keeps_claims_event [simp]: "keeps_claims s (deposit_event ev t) = keeps_claims s t"
proof -
  have "keeps_claims t (deposit_event ev t)" "keeps_claims (deposit_event ev t) t"
    by (rule keeps_claims_core, simp)+
  then show ?thesis using keeps_claims_trans by blast
qed

context books_cfg
begin

lemma adjusts_keeps_claims:
  assumes "adjusts cfg who a s t" "reserved a = reserved (account who s)" "frozen a = frozen (account who s)"
  shows "keeps_claims s t"
  using adjusts_claims [OF assms(1)] assms(2,3) by (simp add: keeps_claims_def)

lemma adjusts_self:
  assumes "balances_ok cfg s" "a = account who s"
  shows "adjusts cfg who a s s"
proof -
  have "account_ok (ed cfg) (account_get who s)" using assms(1) by (simp add: balances_ok_def)
  then have "settle cfg (account who s) = account who s"
    by (auto simp: account_ok_def settle_def account_def store_get_def)
  with settle_no_dust(1) [OF assms(1), of who] assms show ?thesis
    unfolding adjusts_def by (intro exI [of _ s]) (simp add: handle_maybe_dust_def)
qed

lemma slash_amount:
  assumes run: "slash cfg who value s = ((imbalance, remaining), t)" and ok: "books cfg c 0 s"
  shows "imbalance = min value (if can_dec_provider who s then free_balance who s
      else saturating_sub (free_balance who s) (existential_deposit cfg)) \<and>
    unat imbalance + unat remaining = unat value \<and>
    adjusts cfg who ((account who s)\<lparr>free := saturating_sub (free_balance who s) imbalance\<rparr>) s t"
proof (cases "value = 0 \<or> total_balance who s = 0")
  case True
  have bal: "balances_ok cfg s" using ok by (simp add: books_def)
  have "total_balance who s = 0 \<Longrightarrow> free_balance who s = 0"
    using total_exact [OF ok, of who] by (simp add: acct_total_def total_balance_def free_balance_def unat_eq_zero)
  moreover have "adjusts cfg who ((account who s)\<lparr>free := 0\<rparr>) s s" if "free (account who s) = 0"
    by (rule adjusts_self [OF bal]) (use that in \<open>cases "account who s"; simp\<close>)
  ultimately show ?thesis using True run adjusts_self [OF bal refl, of who]
    by (auto simp: slash_def saturating_sub_def free_balance_def split: if_splits)
next
  case False
  let ?a = "account who s"
  define f :: "account_data \<Rightarrow> bool \<Rightarrow> (('a, 'm) runtime_scheme, dispatch_error, (balance \<times> balance) \<times> account_data) comp"
    where "f = (\<lambda>a _. bindE (getsE (can_dec_provider who)) (\<lambda>can_dec.
     let ed = existential_deposit cfg;
         actual = (if can_dec then min value (free a) else min value (saturating_sub (free a) ed));
         remaining = saturating_sub value actual
     in ret ((actual, remaining), a\<lparr>free := saturating_sub (free a) actual\<rparr>)))"
  define x where "x = min value (if can_dec_provider who s then free ?a
      else saturating_sub (free ?a) (existential_deposit cfg))"
  let ?a1 = "?a\<lparr>free := saturating_sub (free ?a) x\<rparr>"
  have bal: "balances_ok cfg s" using ok by (simp add: books_def)
  have f: "f ?a (?a = account_data_default) s = (Inr ((x, saturating_sub value x), ?a1), s)"
    by (simp add: f_def monad Let_def x_def)
  have "\<not> can_dec_provider who s \<Longrightarrow> unat (ed cfg) \<le> unat (free ?a) \<Longrightarrow> unat (ed cfg) \<le> unat (free ?a1)"
    by (auto simp: x_def min_def word_le_nat_alt unat_saturating_sub ed_def)
  then have prov: "ed cfg \<le> free ?a \<and> free ?a1 < ed cfg \<longrightarrow> can_dec_provider who s"
    by (metis not_le word_le_nat_alt)
  obtain u where u: "try_mutate_account_handling_dust cfg (\<lambda>(imbalance, _). drop_negative imbalance) who False f s
      = (Inr (x, saturating_sub value x), u)" and adj: "adjusts cfg who ?a1 s u"
    by (rule handling_dust_total [where f = f, OF bal f refl _ prov])
      (use books_new_logic [OF bal, of who] in auto)
  from run False have "(case try_mutate_account_handling_dust cfg (\<lambda>(imbalance, _). drop_negative imbalance) who False f s of
      (Inr (imbalance, remaining), s') \<Rightarrow>
        ((imbalance, remaining), deposit_event (Balances (Ev_Slashed who (saturating_sub value remaining))) s')
    | (Inl _, s') \<Rightarrow> ((0, value), s')) = ((imbalance, remaining), t)"
    by (simp add: slash_def f_def)
  with u have t: "imbalance = x" "remaining = saturating_sub value x"
    "t = deposit_event (Balances (Ev_Slashed who (saturating_sub value remaining))) u" by auto
  have "unat x \<le> unat value" by (simp add: x_def unat_min)
  with adj show ?thesis unfolding t by (simp add: x_def free_balance_def unat_saturating_sub)
qed

lemma slash_Ok:
  assumes run: "slash cfg who value s = ((imbalance, remaining), t)" and ok: "books cfg c 0 s"
  shows "books cfg (unat imbalance + c) 0 t" "keeps_claims s t" "imbalance \<le> free_balance who s"
proof -
  note sl = slash_amount [OF run ok]
  have le: "unat imbalance \<le> unat (free_balance who s)"
    using sl by (auto simp: min_def word_le_nat_alt unat_saturating_sub split: if_splits)
  then show "imbalance \<le> free_balance who s" by (simp add: word_le_nat_alt)
  have adj: "adjusts cfg who ((account who s)\<lparr>free := saturating_sub (free_balance who s) imbalance\<rparr>) s t"
    using sl by blast
  show "books cfg (unat imbalance + c) 0 t"
    by (rule adjusts_less [OF adj ok]) (use le in \<open>simp add: acct_total_def unat_saturating_sub free_balance_def\<close>)
  show "keeps_claims s t" using adjusts_keeps_claims [OF adj] by simp
qed

lemma slash_no_dust:
  assumes run: "slash cfg who value s = ((imbalance, remaining), t)" and ok: "books cfg c 0 s"
    and nd: "dust_of cfg ((account who s)\<lparr>free := saturating_sub (free_balance who s) imbalance\<rparr>) = None"
  shows "unat (free_balance who t) + unat imbalance = unat (free_balance who s)"
    "k \<noteq> who \<Longrightarrow> account k t = account k s" "total_issuance t = total_issuance s"
proof -
  have adj: "adjusts cfg who ((account who s)\<lparr>free := saturating_sub (free_balance who s) imbalance\<rparr>) s t"
    using slash_amount [OF run ok] by blast
  note r = adjusts_no_dust [OF adj nd]
  have "unat imbalance \<le> unat (free_balance who s)" using slash_Ok(3) [OF run ok] by (simp add: word_le_nat_alt)
  then show "unat (free_balance who t) + unat imbalance = unat (free_balance who s)"
    using r(3) no_dust_free [OF nd] by (simp add: free_balance_def unat_saturating_sub)
  show "k \<noteq> who \<Longrightarrow> account k t = account k s" using account_other [OF r(1)] by simp
  show "total_issuance t = total_issuance s" using only_account_fields(1) [OF r(1)] by simp
qed

lemma slash_dust:
  assumes run: "slash cfg who value s = ((imbalance, remaining), t)" and ok: "books cfg c 0 s"
    and d: "dust_of cfg ((account who s)\<lparr>free := saturating_sub (free_balance who s) imbalance\<rparr>) = Some dust"
  shows "\<exists>u. only_account who s u \<and> account who u = account_data_default \<and> core t = core (handle_dust cfg dust u)"
proof -
  from slash_amount [OF run ok] d have "settle cfg ((account who s)\<lparr>free := saturating_sub (free_balance who s) imbalance\<rparr>)
      = account_data_default" by (auto simp: dust_of_def settle_def split: if_splits)
  with slash_amount [OF run ok] d show ?thesis by (auto simp: adjusts_def handle_maybe_dust_def handle_dust_def)
qed

text \<open>Depositing into a live account fails only when the balance overflows.\<close>

lemma deposit_into_existing_Ok:
  assumes run: "deposit_into_existing cfg who value s = (Inr imbalance, t)" and ok: "books cfg c 0 s"
  shows "books cfg c (unat imbalance) t \<and> imbalance = value \<and> keeps_claims s t \<and>
    unat (free_balance who t) = unat (free_balance who s) + unat value"
proof (cases "value = 0")
  case True
  with run ok show ?thesis by (simp add: deposit_into_existing_def monad)
next
  case False
  let ?a = "account who s"
  define f :: "account_data \<Rightarrow> bool \<Rightarrow> (('a, 'm) runtime_scheme, dispatch_error, balance \<times> account_data) comp"
    where "f = (\<lambda>a is_new.
          bindE (ensureE (\<not> is_new) (DE_Module DeadAccount)) (\<lambda>_.
          bindE (ok_or (checked_add (free a) value) (DE_Arithmetic AE_Overflow)) (\<lambda>new_free.
          bindE (modifyE (deposit_event (Balances (Ev_Deposit who value)))) (\<lambda>_.
          ret (value, a\<lparr>free := new_free\<rparr>)))))"
  have bal: "balances_ok cfg s" using ok by (simp add: books_def)
  from run False have m: "try_mutate_account_handling_dust cfg drop_positive who False f s = (Inr imbalance, t)"
    by (simp add: deposit_into_existing_def f_def)
  obtain res s1 where res: "f ?a (?a = account_data_default) s = (res, s1)" by fastforce
  have core: "core s1 = core s"
    and spec: "\<And>r a1. res = Inr (r, a1) \<Longrightarrow> r = value \<and> ?a \<noteq> account_data_default \<and>
      (\<exists>x. checked_add (free ?a) value = Some x \<and> a1 = ?a\<lparr>free := x\<rparr>)"
    using res by (auto simp: f_def monad bindE_def ensureE_def ok_or_def split: if_splits option.splits)
  obtain a1 where a1: "res = Inr (imbalance, a1)" and adj: "adjusts cfg who a1 s t"
    by (rule handling_dust_Ok [where f = f, OF m bal res core]) (use books_new_logic [OF bal, of who] spec in auto)
  from spec [OF a1] obtain x where x: "imbalance = value" "?a \<noteq> account_data_default"
    "unat x = unat (free ?a) + unat value" "a1 = ?a\<lparr>free := x\<rparr>" by (auto simp: checked_add_eq_Some)
  have nd: "dust_of cfg a1 = None" by (rule grown_no_dust [OF bal x(2)]) (simp_all add: x word_le_nat_alt)
  have "account who t = settle cfg a1" by (rule adjusts_no_dust [OF adj nd])
  moreover have "free (settle cfg a1) = free a1" using nd by (rule no_dust_free)
  moreover have "books cfg c (unat imbalance) t"
    by (rule adjusts_more [OF adj ok _ nd]) (simp add: x acct_total_def)
  ultimately show ?thesis
    using adjusts_keeps_claims [OF adj] by (simp add: x free_balance_def)
qed

text \<open>A closure that takes nothing away cannot fail once it has returned.\<close>

lemma handling_dust_grow:
  assumes bal: "balances_ok cfg s"
    and f: "f (account who s) (account who s = account_data_default) s = (res, s1)" "core s1 = core s"
    and grow: "\<forall>r a1. res = Inr (r, a1) \<longrightarrow> grows (account who s) a1"
  obtains (closure) e t where "res = Inl e" "try_mutate_account_handling_dust cfg drop_r who fb f s = (Inl e, t)"
      "core t = core s"
  | (grown) r a1 t where "res = Inr (r, a1)" "try_mutate_account_handling_dust cfg drop_r who fb f s = (Inr r, t)"
      "adjusts cfg who a1 s t"
proof (cases res)
  case (Inl e)
  obtain r t where m: "try_mutate_account_handling_dust cfg drop_r who fb f s = (r, t)" by fastforce
  have nf: "\<forall>r1 a1. res = Inr (r1, a1) \<longrightarrow> is_new_logic (flags a1)" using Inl by simp
  show ?thesis
  proof (cases r)
    case (Inr x)
    show ?thesis by (rule handling_dust_Ok [where f = f, OF m [unfolded Inr] bal f nf]) (use Inl in simp)
  next
    case (Inl e')
    from handling_dust_Err [where f = f, OF m [unfolded Inl] bal f] \<open>res = Inl e\<close>
    have "core t = core s" "e' = e" by auto
    with closure [OF \<open>res = Inl e\<close>] m Inl show ?thesis by blast
  qed
next
  case (Inr ra)
  obtain r a1 where ra: "res = Inr (r, a1)" using Inr by (cases ra) auto
  with grow have x: "grows (account who s) a1" by blast
  obtain t where "try_mutate_account_handling_dust cfg drop_r who fb f s = (Inr r, t)" "adjusts cfg who a1 s t"
    by (rule handling_dust_total [where f = f, OF bal f(1) [unfolded ra] f(2)])
      (use x books_new_logic [OF bal, of who] in \<open>auto simp: grows_def\<close>)
  with grown [OF ra] show ?thesis by blast
qed

lemma deposit_creating_Ok:
  assumes run: "deposit_creating cfg who value s = (imbalance, t)" and ok: "books cfg c 0 s"
  shows "books cfg c (unat imbalance) t \<and> (imbalance = 0 \<or> imbalance = value) \<and> keeps_claims s t"
proof (cases "value = 0")
  case True
  with run ok show ?thesis by (simp add: deposit_creating_def)
next
  case False
  let ?a = "account who s"
  define f :: "account_data \<Rightarrow> bool \<Rightarrow> (('a, 'm) runtime_scheme, dispatch_error, balance \<times> account_data) comp"
    where "f = (\<lambda>a is_new.
            bindE (ensureE (existential_deposit cfg \<le> value \<or> \<not> is_new) (DE_Module ExistentialDeposit)) (\<lambda>_.
            case checked_add (free a) value of
              None \<Rightarrow> ret (0, a)
            | Some x \<Rightarrow>
                bindE (modifyE (deposit_event (Balances (Ev_Deposit who value)))) (\<lambda>_.
                ret (value, a\<lparr>free := x\<rparr>))))"
  have bal: "balances_ok cfg s" using ok by (simp add: books_def)
  from run False have m: "(case try_mutate_account_handling_dust cfg drop_positive who False f s of
      (Inr imbalance, s') \<Rightarrow> (imbalance, s') | (Inl _, s') \<Rightarrow> (0, s')) = (imbalance, t)"
    by (simp add: deposit_creating_def f_def)
  obtain res s1 where res: "f ?a (?a = account_data_default) s = (res, s1)" by fastforce
  have core: "core s1 = core s"
    and spec: "\<And>r a1. res = Inr (r, a1) \<Longrightarrow> r = 0 \<and> a1 = ?a \<or>
      r = value \<and> (existential_deposit cfg \<le> value \<or> ?a \<noteq> account_data_default) \<and>
      (\<exists>x. unat x = unat (free ?a) + unat value \<and> a1 = ?a\<lparr>free := x\<rparr>)"
    using res by (auto simp: f_def monad bindE_def ensureE_def checked_add_eq_Some split: if_splits option.splits)
  have grow: "\<forall>r a1. res = Inr (r, a1) \<longrightarrow> grows ?a a1"
    using spec by (fastforce simp: grows_def word_le_nat_alt)
  show ?thesis
  proof (rule handling_dust_grow [where f = f and drop_r = drop_positive and fb = False, OF bal res core grow])
    fix e t' assume "try_mutate_account_handling_dust cfg drop_positive who False f s = (Inl e, t')" "core t' = core s"
    with m ok books_cong [of t' s] keeps_claims_core [of t' s] show ?thesis by auto
  next
    fix r a1 t'
    assume a1: "res = Inr (r, a1)" and t': "try_mutate_account_handling_dust cfg drop_positive who False f s = (Inr r, t')"
      and adj: "adjusts cfg who a1 s t'"
    from m t' have [simp]: "r = imbalance" "t' = t" by auto
    have nd: "dust_of cfg a1 = None"
    proof (cases "a1 = ?a")
      case False
      with spec [OF a1] obtain x where x: "unat x = unat (free ?a) + unat value" "a1 = ?a\<lparr>free := x\<rparr>"
        "existential_deposit cfg \<le> value \<or> ?a \<noteq> account_data_default" by auto
      have "value \<le> x" "free ?a \<le> x" using x(1) by (simp_all add: word_le_nat_alt)
      with x(2,3) grown_no_dust [OF bal, of who a1] show ?thesis
        by (cases "?a = account_data_default") (auto simp: dust_of_def ed_def)
    qed (simp add: settle_no_dust [OF bal])
    have "acct_total a1 = acct_total ?a + unat imbalance" using spec [OF a1] by (auto simp: acct_total_def)
    from adjusts_more [OF adj ok this nd] adjusts_keeps_claims [OF adj] spec [OF a1] show ?thesis by auto
  qed
qed

lemma withdraw_cur_Ok:
  assumes run: "withdraw_cur cfg who value liveness s = (Inr imbalance, t)" and ok: "books cfg c 0 s"
  shows "books cfg (unat imbalance + c) 0 t \<and> imbalance = value \<and> keeps_claims s t \<and>
    (value \<noteq> 0 \<longrightarrow> unat (frozen (account who s)) + unat value \<le> unat (free_balance who s)) \<and>
    (liveness = KeepAlive \<longrightarrow> unat (free_balance who t) + unat value = unat (free_balance who s))"
proof (cases "value = 0")
  case True
  with run ok show ?thesis by (simp add: withdraw_cur_def monad)
next
  case False
  let ?a = "account who s"
  define f :: "account_data \<Rightarrow> bool \<Rightarrow> (('a, 'm) runtime_scheme, dispatch_error, balance \<times> account_data) comp"
    where "f = (\<lambda>a _.
          bindE (ok_or (checked_sub (free a) value) (DE_Module InsufficientBalance)) (\<lambda>new_free_account.
          let ed = existential_deposit cfg;
              would_be_dead = (new_free_account < ed);
              would_kill = (would_be_dead \<and> ed \<le> free a)
          in
          bindE (ensureE (liveness = AllowDeath \<or> \<not> would_kill) (DE_Module Expendability)) (\<lambda>_.
          bindE (ensure_can_withdraw who value new_free_account) (\<lambda>_.
          bindE (modifyE (deposit_event (Balances (Ev_Withdraw who value)))) (\<lambda>_.
          ret (value, a\<lparr>free := new_free_account\<rparr>))))))"
  have bal: "balances_ok cfg s" using ok by (simp add: books_def)
  from run False have m: "try_mutate_account_handling_dust cfg drop_negative who False f s = (Inr imbalance, t)"
    by (simp add: withdraw_cur_def f_def)
  obtain res s1 where res: "f ?a (?a = account_data_default) s = (res, s1)" by fastforce
  have core: "core s1 = core s"
    and spec: "\<And>r a1. res = Inr (r, a1) \<Longrightarrow> r = value \<and>
      (\<exists>x. checked_sub (free ?a) value = Some x \<and> a1 = ?a\<lparr>free := x\<rparr> \<and> frozen ?a \<le> x \<and>
        (liveness = AllowDeath \<or> ed cfg \<le> x \<or> free ?a < ed cfg))"
    using res False by (auto simp: f_def ed_def monad Let_def bindE_def ensureE_def ok_or_def ensure_can_withdraw_def
        split: if_splits option.splits)
  obtain a1 where a1: "res = Inr (imbalance, a1)" and adj: "adjusts cfg who a1 s t"
    by (rule handling_dust_Ok [where f = f, OF m bal res core]) (use books_new_logic [OF bal, of who] spec in auto)
  from spec [OF a1] obtain x where x: "imbalance = value" "unat (free ?a) = unat x + unat value"
    "a1 = ?a\<lparr>free := x\<rparr>" "unat (frozen ?a) \<le> unat x"
    "liveness = AllowDeath \<or> ed cfg \<le> x \<or> free ?a < ed cfg"
    by (auto simp: checked_sub_eq_Some word_le_nat_alt)
  have "unat (free_balance who t) + unat value = unat (free_balance who s)" if live: "liveness = KeepAlive"
  proof -
    have "ed cfg \<le> free ?a \<or> reserved ?a \<noteq> 0 \<or> frozen ?a \<noteq> 0"
    proof -
      have "account_ok (ed cfg) (account_get who s)" using bal by (simp add: balances_ok_def)
      moreover have "?a \<noteq> account_data_default" using x(2) False by (auto simp: unat_eq_zero)
      ultimately show ?thesis by (auto simp: account_ok_def account_def store_get_def)
    qed
    with x(5) live have nd: "dust_of cfg a1 = None" by (auto simp: x(3) dust_of_def not_less)
    then have "free (account who t) = x" using adjusts_no_dust(3) [OF adj nd] no_dust_free [OF nd] x(3) by simp
    then show ?thesis using x(2) by (simp add: free_balance_def)
  qed
  moreover have "books cfg (unat imbalance + c) 0 t"
    by (rule adjusts_less [OF adj ok]) (simp add: x acct_total_def)
  ultimately show ?thesis using adjusts_keeps_claims [OF adj] x by (auto simp: free_balance_def)
qed

text \<open>A failing withdrawal after its own checks have passed: the closure's imbalance is dropped.\<close>

lemma withdraw_cur_burns:
  assumes run: "withdraw_cur cfg who value AllowDeath s = (Inl e, t)" and ok: "books cfg c 0 s"
    and fits: "unat (frozen (account who s)) + unat value \<le> unat (free_balance who s)"
  shows "\<forall>k. free_balance k t = free_balance k s" "keeps_claims s t" "bal_sum t = bal_sum s"
    "unat (total_issuance t) = unat (total_issuance s) - unat value"
proof -
  let ?a = "account who s"
  define f :: "account_data \<Rightarrow> bool \<Rightarrow> (('a, 'm) runtime_scheme, dispatch_error, balance \<times> account_data) comp"
    where "f = (\<lambda>a _.
          bindE (ok_or (checked_sub (free a) value) (DE_Module InsufficientBalance)) (\<lambda>new_free_account.
          let ed = existential_deposit cfg;
              would_be_dead = (new_free_account < ed);
              would_kill = (would_be_dead \<and> ed \<le> free a)
          in
          bindE (ensureE (AllowDeath = AllowDeath \<or> \<not> would_kill) (DE_Module Expendability)) (\<lambda>_.
          bindE (ensure_can_withdraw who value new_free_account) (\<lambda>_.
          bindE (modifyE (deposit_event (Balances (Ev_Withdraw who value)))) (\<lambda>_.
          ret (value, a\<lparr>free := new_free_account\<rparr>))))))"
  have bal: "balances_ok cfg s" using ok by (simp add: books_def)
  have nz: "value \<noteq> 0" using run by (auto simp: withdraw_cur_def monad)
  from run have m: "try_mutate_account_handling_dust cfg drop_negative who False f s = (Inl e, t)"
    by (auto simp: withdraw_cur_def f_def monad split: if_splits)
  have sub: "checked_sub (free ?a) value = Some (free ?a - value)" "frozen ?a \<le> free ?a - value"
    using fits by (simp_all add: checked_sub_def free_balance_def word_le_nat_alt unat_sub)
  obtain s1 where res: "f ?a (?a = account_data_default) s = (Inr (value, ?a\<lparr>free := free ?a - value\<rparr>), s1)" "core s1 = core s"
    using sub nz by (simp add: f_def monad Let_def ensure_can_withdraw_def bindE_def getsE_def ensureE_def modifyE_def ret_def)
  have "\<exists>u. t = drop_negative value u \<and> unharmed cfg s u"
    by (rule handling_dust_Err [where f = f, OF m bal res]) auto
  then obtain u where u: "t = drop_negative value u" "unharmed cfg s u" by blast
  let ?v = "u\<lparr>total_issuance := saturating_sub (total_issuance u) value\<rparr>"
  have t: "core t = core ?v" using u(1) nz by (simp add: drop_negative_def)
  have v: "keeps_claims u ?v" "bal_sum ?v = bal_sum u" "\<And>k. account k ?v = account k u"
    using set_total_issuance_claims [of u "saturating_sub (total_issuance u) value"]
    by (simp_all add: set_total_issuance_def bal_sum_def account_def store_get_def account_get_def storage_get_def)
  note c = core_eqD [OF t]
  show "\<forall>k. free_balance k t = free_balance k s"
    using u(2) v(3) account_cong [OF c(1)] by (simp add: unharmed_def free_balance_def)
  show "keeps_claims s t"
    using u(2) v(1) keeps_claims_core [OF t] keeps_claims_trans unfolding unharmed_def by metis
  show "bal_sum t = bal_sum s" using u(2) v(2) bal_sum_cong [OF c(1)] by (simp add: unharmed_def)
  show "unat (total_issuance t) = unat (total_issuance s) - unat value"
    using u(2) c(2) by (simp add: unharmed_def unat_saturating_sub)
qed

section \<open>Reserving\<close>

lemma reserve_Ok:
  assumes run: "reserve cfg who value s = (Inr x, t)" and ok: "books cfg c 0 s"
  shows "books cfg c 0 t \<and> unat (free_balance who t) + unat value = unat (free_balance who s) \<and>
    unat (reserved_balance who t) = unat (reserved_balance who s) + unat value \<and>
    frozen (account who t) = frozen (account who s) \<and> only_account who s t"
proof (cases "value = 0")
  case True
  with run ok show ?thesis by (simp add: reserve_def monad)
next
  case False
  let ?a = "account who s"
  define f :: "account_data \<Rightarrow> bool \<Rightarrow> (('a, 'm) runtime_scheme, dispatch_error, unit \<times> account_data) comp"
    where "f = (\<lambda>a _.
          bindE (ok_or (checked_sub (free a) value) (DE_Module InsufficientBalance)) (\<lambda>new_free.
          bindE (ok_or (checked_add (reserved a) value) (DE_Arithmetic AE_Overflow)) (\<lambda>new_reserved.
          bindE (ensure_can_reserve cfg who value False) (\<lambda>_.
          ret ((), a\<lparr>free := new_free, reserved := new_reserved\<rparr>)))))"
  have bal: "balances_ok cfg s" using ok by (simp add: books_def)
  from run False obtain u where m: "try_mutate_account_handling_dust cfg no_drop who False f s = (Inr (), u)"
    and t: "t = deposit_event (Balances (Ev_Reserved who value)) u"
    by (auto simp: reserve_def f_def monad bindE_eq_Inr)
  obtain res s1 where res: "f ?a (?a = account_data_default) s = (res, s1)" by fastforce
  have core: "core s1 = core s"
    and spec: "\<And>r a1. res = Inr (r, a1) \<Longrightarrow> (\<exists>x y. checked_sub (free ?a) value = Some x \<and>
      checked_add (reserved ?a) value = Some y \<and> a1 = ?a\<lparr>free := x, reserved := y\<rparr>)"
    using res by (auto simp: f_def monad bindE_def ok_or_def ensure_can_reserve_def split: option.splits)
  obtain a1 where a1: "res = Inr ((), a1)" and adj: "adjusts cfg who a1 s u"
    by (rule handling_dust_Ok [where f = f, OF m bal res core]) (use books_new_logic [OF bal, of who] spec in auto)
  from spec [OF a1] obtain x y where x: "unat (free ?a) = unat x + unat value"
    "unat y = unat (reserved ?a) + unat value" "a1 = ?a\<lparr>free := x, reserved := y\<rparr>"
    by (auto simp: checked_sub_eq_Some checked_add_eq_Some)
  have "y \<noteq> 0" using x(2) False by (auto simp: unat_eq_zero)
  then have nd: "dust_of cfg a1 = None" "settle cfg a1 = a1" by (simp_all add: x(3) dust_of_def settle_def)
  note r = adjusts_no_dust [OF adj nd(1)]
  have "books cfg (0 + c) 0 u" by (rule adjusts_less [OF adj ok]) (simp add: x acct_total_def)
  moreover have "only_account who u t" by (rule only_account_core) (simp add: t)
  ultimately show ?thesis
    using r nd(2) x only_account_trans [OF r(1)] account_cong [of t u who]
    by (simp add: t free_balance_def reserved_balance_def)
qed

text \<open>Unreserving always succeeds, for the part of the amount that is reserved.\<close>

lemma unreserve_Ok:
  assumes run: "unreserve cfg who value s = (rest, t)" and ok: "books cfg c 0 s"
  shows "books cfg c 0 t \<and> unat rest = unat value - unat (reserved_balance who s) \<and>
    unat (reserved_balance who t) = unat (reserved_balance who s) - unat value \<and>
    (ed cfg \<le> saturating_add (free_balance who s) (value - rest) \<or> unat value < unat (reserved_balance who s) \<or>
        frozen (account who s) \<noteq> 0 \<or> value = 0 \<longrightarrow>
      unat (free_balance who t) + unat rest = unat (free_balance who s) + unat value) \<and>
    reserves_map t = reserves_map s \<and> (\<forall>k. k \<noteq> who \<longrightarrow> reserved_balance k t = reserved_balance k s)"
proof (cases "value = 0 \<or> total_balance who s = 0")
  case True
  have "total_balance who s = 0 \<Longrightarrow> reserved_balance who s = 0 \<and> free_balance who s = 0"
    using total_exact [OF ok, of who]
    by (simp add: acct_total_def total_balance_def reserved_balance_def free_balance_def unat_eq_zero)
  with True run ok show ?thesis by (auto simp: unreserve_def split: if_splits)
next
  case False
  let ?a = "account who s"
  define x where "x = min (reserved ?a) value"
  let ?a1 = "?a\<lparr>reserved := reserved ?a - x, free := saturating_add (free ?a) x\<rparr>"
  define f :: "account_data \<Rightarrow> bool \<Rightarrow> (('a, 'm) runtime_scheme, dispatch_error, balance \<times> account_data) comp"
    where "f = (\<lambda>a _. ret (let actual = min (reserved a) value
            in (actual, a\<lparr>reserved := reserved a - actual, free := saturating_add (free a) actual\<rparr>)))"
  have bal: "balances_ok cfg s" using ok by (simp add: books_def)
  have x: "unat x = min (unat (reserved ?a)) (unat value)" by (simp add: x_def unat_min)
  have res: "f ?a (?a = account_data_default) s = (Inr (x, ?a1), s)" by (simp add: f_def monad Let_def x_def)
  have r: "unat (reserved ?a - x) = unat (reserved ?a) - unat x"
    by (simp add: x_def unat_sub min_def word_le_nat_alt)
  have fr: "unat (saturating_add (free ?a) x) = unat (free ?a) + unat x"
    using books_fits [OF ok, of who] x by (simp add: unat_saturating_add acct_total_def)
  have "free ?a \<le> free ?a1" using fr by (simp add: word_le_nat_alt)
  moreover have "reserved ?a = 0 \<Longrightarrow> x = 0" by (simp add: x_def min_def)
  ultimately obtain u where u: "try_mutate_account_handling_dust cfg no_drop who False f s = (Inr x, u)"
    and adj: "adjusts cfg who ?a1 s u"
    by (rule_tac handling_dust_total [where f = f, OF bal res refl])
      (use books_new_logic [OF bal, of who] in auto)
  from run False u have t: "rest = value - x" "t = deposit_event (Balances (Ev_Unreserved who x)) u"
    by (simp_all add: unreserve_def mutate_handling_dust_eq f_def)
  have rest: "unat rest = unat value - unat x" by (simp add: t x_def unat_sub)
  then have vr: "value - rest = x" by (simp add: t)
  have "books cfg (0 + c) 0 u"
    by (rule adjusts_less [OF adj ok]) (use r fr x in \<open>simp add: acct_total_def\<close>)
  moreover have "unat (free_balance who t) + unat rest = unat (free_balance who s) + unat value"
    if "ed cfg \<le> saturating_add (free_balance who s) (value - rest) \<or> unat value < unat (reserved_balance who s) \<or>
        frozen ?a \<noteq> 0 \<or> value = 0"
  proof -
    have "\<not> free ?a1 < ed cfg \<or> reserved ?a1 \<noteq> 0 \<or> frozen ?a1 \<noteq> 0"
      using that False r x unfolding vr by (auto simp: free_balance_def reserved_balance_def unat_eq_zero [symmetric])
    then have nd: "dust_of cfg ?a1 = None" by (auto simp: dust_of_def)
    have "free (account who u) = free ?a1" using adjusts_no_dust(3) [OF adj nd] no_dust_free [OF nd] by simp
    then show ?thesis using fr rest x account_cong [of t u who] by (simp add: t free_balance_def)
  qed
  moreover have "reserved (account who u) = reserved ?a - x" using adjusts_claims(5) [OF adj, of who] by simp
  ultimately show ?thesis
    using r rest x account_cong [of t u] adjusts_claims(4,5) [OF adj] by (auto simp: t reserved_balance_def)
qed

lemma slash_reserved_Ok:
  assumes run: "slash_reserved cfg who value s = ((imbalance, rest), t)" and ok: "books cfg c 0 s"
  shows "books cfg (unat imbalance + c) 0 t \<and> unat imbalance + unat rest = unat value \<and>
    unat imbalance = min (unat value) (unat (reserved_balance who s)) \<and>
    unat (reserved_balance who t) + unat imbalance = unat (reserved_balance who s) \<and>
    reserves_map t = reserves_map s \<and> (\<forall>k. k \<noteq> who \<longrightarrow> reserved_balance k t = reserved_balance k s)"
proof (cases "value = 0 \<or> total_balance who s = 0")
  case True
  have "total_balance who s = 0 \<Longrightarrow> reserved_balance who s = 0"
    using total_exact [OF ok, of who]
    by (simp add: acct_total_def total_balance_def reserved_balance_def unat_eq_zero)
  with True run ok show ?thesis by (auto simp: slash_reserved_def split: if_splits)
next
  case False
  let ?a = "account who s"
  define x where "x = min value (reserved ?a)"
  let ?a1 = "?a\<lparr>reserved := saturating_sub (reserved ?a) x\<rparr>"
  define f :: "account_data \<Rightarrow> bool \<Rightarrow> (('a, 'm) runtime_scheme, dispatch_error, (balance \<times> balance) \<times> account_data) comp"
    where "f = (\<lambda>a _. ret (let actual = min value (reserved a)
            in ((actual, saturating_sub value actual), a\<lparr>reserved := saturating_sub (reserved a) actual\<rparr>)))"
  have bal: "balances_ok cfg s" using ok by (simp add: books_def)
  have x: "unat x = min (unat value) (unat (reserved ?a))" by (simp add: x_def unat_min)
  have res: "f ?a (?a = account_data_default) s = (Inr ((x, saturating_sub value x), ?a1), s)"
    by (simp add: f_def monad Let_def x_def)
  have r: "unat (saturating_sub (reserved ?a) x) + unat x = unat (reserved ?a)"
    using x by (simp add: unat_saturating_sub)
  have "reserved ?a = 0 \<Longrightarrow> saturating_sub (reserved ?a) x = 0" by (simp add: saturating_sub_def)
  then obtain u where u: "try_mutate_account_handling_dust cfg (\<lambda>(imbalance, _). drop_negative imbalance) who False f s
      = (Inr (x, saturating_sub value x), u)" and adj: "adjusts cfg who ?a1 s u"
    by (rule_tac handling_dust_total [where f = f, OF bal res refl])
      (use books_new_logic [OF bal, of who] in auto)
  from run False have "(case try_mutate_account_handling_dust cfg (\<lambda>(imbalance, _). drop_negative imbalance) who False f s of
      (Inr (imbalance, not_slashed), s') \<Rightarrow>
        ((imbalance, not_slashed), deposit_event (Balances (Ev_Slashed who (saturating_sub value not_slashed))) s')
    | (Inl _, s') \<Rightarrow> ((0, value), s')) = ((imbalance, rest), t)"
    by (simp add: slash_reserved_def mutate_handling_dust_eq f_def)
  with u have t: "imbalance = x" "rest = saturating_sub value x"
    "t = deposit_event (Balances (Ev_Slashed who (saturating_sub value rest))) u" by auto
  have "books cfg (unat x + c) 0 u" by (rule adjusts_less [OF adj ok]) (use r in \<open>simp add: acct_total_def\<close>)
  with x r adjusts_claims(4,5) [OF adj] show ?thesis
    unfolding t using account_cong [of "deposit_event _ u" u]
    by (simp add: unat_saturating_sub reserved_balance_def)
qed

text \<open>The two accounts of \<open>do_transfer_reserved\<close> are changed one inside the other.\<close>

lemma transfer_reserved_accounts:
  assumes m: "try_mutate_account cfg no_drop beneficiary False (\<lambda>to_account is_new.
      bindE (ensureE (\<not> is_new) (DE_Module DeadAccount)) (\<lambda>_.
      bindE (try_mutate_account cfg no_drop slashed False (\<lambda>from_account _.
        bindE (g to_account) (\<lambda>to_account.
        ret (to_account, from_account\<lparr>reserved := saturating_sub (reserved from_account) actual\<rparr>))))
        (\<lambda>(to_account, maybe_dust_1). ret (maybe_dust_1, to_account)))) s = (Inr (md1, md2), t)"
    and ok: "balances_ok cfg s" and neq: "slashed \<noteq> beneficiary"
    and g: "\<forall>a s' r s''. g a s' = (r, s'') \<longrightarrow> s'' = s' \<and> (\<forall>b. r = Inr b \<longrightarrow>
      flags b = flags a \<and> frozen b = frozen a \<and> acct_total b = acct_total a + unat actual)"
    and le: "actual \<le> reserved (account slashed s)"
  obtains b u where "only_account slashed s u" "only_account beneficiary u t" "balances_ok cfg t"
    "g (account beneficiary s) s = (Inr b, s)" "account beneficiary t = settle cfg b"
    "account beneficiary s \<noteq> account_data_default"
    "md1 = dust_of cfg ((account slashed s)\<lparr>reserved := saturating_sub (reserved (account slashed s)) actual\<rparr>)"
    "account slashed t = settle cfg ((account slashed s)\<lparr>reserved := saturating_sub (reserved (account slashed s)) actual\<rparr>)"
    "md2 = dust_of cfg b"
    "bal_sum t + val0 unat md1 + val0 unat md2 = bal_sum s"
proof -
  let ?to = "account beneficiary s" and ?from = "account slashed s"
  let ?from1 = "?from\<lparr>reserved := saturating_sub (reserved ?from) actual\<rparr>"
  define inner where "inner = (\<lambda>to_account (from_account :: account_data) (_ :: bool).
        bindE (g to_account) (\<lambda>to_account.
        ret (to_account, from_account\<lparr>reserved := saturating_sub (reserved from_account) actual\<rparr>)))"
  define outer where "outer = (\<lambda>to_account is_new.
      bindE (ensureE (\<not> is_new) (DE_Module DeadAccount)) (\<lambda>_.
      bindE (try_mutate_account cfg no_drop slashed False (inner to_account))
        (\<lambda>(to_account, maybe_dust_1). ret (maybe_dust_1, to_account))))"
  have m': "try_mutate_account cfg no_drop beneficiary False outer s = (Inr (md1, md2), t)"
    using m by (simp add: outer_def inner_def)
  have res: "\<exists>res. inner ?to ?from (?from = account_data_default) s = (res, s) \<and>
      (\<forall>b a1. res = Inr (b, a1) \<longrightarrow> g ?to s = (Inr b, s) \<and> a1 = ?from1)"
    using g [rule_format, of ?to s] by (cases "g ?to s") (auto simp: inner_def bindE_def ret_def split: sum.splits)
  then obtain res where res: "inner ?to ?from (?from = account_data_default) s = (res, s)"
    "\<And>b a1. res = Inr (b, a1) \<Longrightarrow> g ?to s = (Inr b, s) \<and> a1 = ?from1" by blast
  have flag: "\<forall>r1 a1. res = Inr (r1, a1) \<longrightarrow> is_new_logic (flags a1)"
    using books_new_logic [OF ok, of slashed] res(2) by auto
  have outer_spec: "\<exists>b. r1 = dust_of cfg ?from1 \<and> a1 = b \<and> g ?to s = (Inr b, s) \<and> ?to \<noteq> account_data_default \<and>
      only_account slashed s s1 \<and> balances_ok cfg s1 \<and> account slashed s1 = settle cfg ?from1 \<and>
      bal_sum s1 + val0 unat r1 + unat actual = bal_sum s"
    if o: "outer ?to (?to = account_data_default) s = (Inr (r1, a1), s1)" for r1 a1 s1
  proof -
    from o have i: "try_mutate_account cfg no_drop slashed False (inner ?to) s = (Inr (a1, r1), s1)"
      and new: "?to \<noteq> account_data_default"
      by (auto simp: outer_def monad bindE_eq_Inr split: if_splits)
    obtain a2 where "res = Inr (a1, a2)" "r1 = dust_of cfg a2" "account slashed s1 = settle cfg a2"
      "only_account slashed s s1" "balances_ok cfg s1"
      "bal_sum s1 + val0 unat r1 + acct_total ?from = bal_sum s + acct_total a2"
      by (rule try_mutate_pure [where f = "inner ?to", OF i ok res(1) flag])
    moreover have "acct_total ?from1 + unat actual = acct_total ?from"
      using le by (simp add: acct_total_def unat_saturating_sub word_le_nat_alt)
    ultimately show ?thesis using new res(2) [of a1 a2] by auto
  qed
  show ?thesis
  proof (rule try_mutate_account_Ok [where f = outer, OF m' books_new_logic [OF ok]])
    fix r1 a1 s1 assume "outer ?to (?to = account_data_default) s = (Inr (r1, a1), s1)"
    from outer_spec [OF this] show "balances_ok cfg s1 \<and> account_get beneficiary s1 = account_get beneficiary s \<and> is_new_logic (flags a1)"
      using only_account_other neq books_new_logic [OF ok, of beneficiary] g by metis
  next
    fix b u
    assume f: "outer ?to (?to = account_data_default) s = (Inr (md1, b), u)"
      and t: "md2 = dust_of cfg b" "account beneficiary t = settle cfg b" "only_account beneficiary u t" "balances_ok cfg t"
    from outer_spec [OF f] have u: "md1 = dust_of cfg ?from1" "g ?to s = (Inr b, s)" "?to \<noteq> account_data_default"
      "only_account slashed s u" "balances_ok cfg u" "account slashed u = settle cfg ?from1"
      "bal_sum u + val0 unat md1 + unat actual = bal_sum s" by auto
    have "acct_total b = acct_total ?to + unat actual" using g u(2) by blast
    moreover have "account beneficiary u = ?to" using account_other [OF u(4)] neq by metis
    ultimately have "bal_sum t + val0 unat md2 = bal_sum u + unat actual"
      using bal_sum_only_account [OF books_finite [OF u(5)] t(3)] t(1,2) settle_total [of cfg b] by simp
    with u(7) have "bal_sum t + val0 unat md1 + val0 unat md2 = bal_sum s" by simp
    moreover have "account slashed t = settle cfg ?from1" using account_other [OF t(3)] neq u(6) by metis
    ultimately show thesis using that [of u b] t u by blast
  qed
qed

lemma do_transfer_reserved_accounts:
  assumes run: "do_transfer_reserved cfg slashed beneficiary value precision fortitude status s = (Inr actual, t)"
    and bal: "balances_ok cfg s" and neq: "slashed \<noteq> beneficiary" and pos: "value \<noteq> 0"
  obtains b u v where
    "actual = (case precision of
        BestEffort \<Rightarrow> min value (reducible_total_balance_on_hold slashed fortitude s) | Exact \<Rightarrow> value)"
    "actual \<le> reducible_total_balance_on_hold slashed fortitude s" "actual \<le> reserved (account slashed s)"
    "only_account slashed s v" "only_account beneficiary v u" "balances_ok cfg u" "account beneficiary u = b"
    "unat (free b) = unat (free (account beneficiary s)) + (if status = S_Free then unat actual else 0)"
    "unat (reserved b) = unat (reserved (account beneficiary s)) + (if status = S_Reserved then unat actual else 0)"
    "frozen b = frozen (account beneficiary s)"
    "account slashed u =
      settle cfg ((account slashed s)\<lparr>reserved := saturating_sub (reserved (account slashed s)) actual\<rparr>)"
    "bal_sum u + val0 unat (dust_of cfg ((account slashed s)\<lparr>reserved := saturating_sub (reserved (account slashed s)) actual\<rparr>))
      = bal_sum s"
    "core t = core (handle_maybe_dust cfg
      (dust_of cfg ((account slashed s)\<lparr>reserved := saturating_sub (reserved (account slashed s)) actual\<rparr>)) u)"
proof -
  let ?m = "reducible_total_balance_on_hold slashed fortitude s"
  let ?from = "account slashed s" and ?to = "account beneficiary s"
  define g :: "account_data \<Rightarrow> (('a, 'm) runtime_scheme, dispatch_error, account_data) comp"
    where "g = (\<lambda>to_account. case status of
      S_Free \<Rightarrow>
        bindE (ok_or (checked_add (free to_account) actual) (DE_Arithmetic AE_Overflow)) (\<lambda>x.
        ret (to_account\<lparr>free := x\<rparr>))
    | S_Reserved \<Rightarrow>
        bindE (ok_or (checked_add (reserved to_account) actual) (DE_Arithmetic AE_Overflow)) (\<lambda>x.
        ret (to_account\<lparr>reserved := x\<rparr>)))"
  from run pos neq obtain md1 md2 u where
    act: "actual = (case precision of BestEffort \<Rightarrow> min value ?m | Exact \<Rightarrow> value)" "actual \<le> ?m"
    and m: "try_mutate_account cfg no_drop beneficiary False (\<lambda>to_account is_new.
      bindE (ensureE (\<not> is_new) (DE_Module DeadAccount)) (\<lambda>_.
      bindE (try_mutate_account cfg no_drop slashed False (\<lambda>from_account _.
        bindE (g to_account) (\<lambda>to_account.
        ret (to_account, from_account\<lparr>reserved := saturating_sub (reserved from_account) actual\<rparr>))))
        (\<lambda>(to_account, maybe_dust_1). ret (maybe_dust_1, to_account)))) s = (Inr (md1, md2), u)"
    and t: "core t = core (case md2 of Some dust \<Rightarrow> handle_raw_dust cfg dust
        (case md1 of Some dust \<Rightarrow> handle_raw_dust cfg dust u | None \<Rightarrow> u)
      | None \<Rightarrow> (case md1 of Some dust \<Rightarrow> handle_raw_dust cfg dust u | None \<Rightarrow> u))"
    by (auto simp: do_transfer_reserved_def monad Let_def bindE_eq_Inr g_def [abs_def] split: if_splits)
  have le: "actual \<le> reserved ?from"
    using act(2) by (simp add: reducible_total_balance_on_hold_def Let_def word_le_nat_alt unat_saturating_sub split: if_splits)
  have g: "\<forall>a s' r s''. g a s' = (r, s'') \<longrightarrow> s'' = s' \<and> (\<forall>b. r = Inr b \<longrightarrow>
      flags b = flags a \<and> frozen b = frozen a \<and> acct_total b = acct_total a + unat actual)"
    by (cases status) (auto simp: g_def monad bindE_def ok_or_def acct_total_def checked_add_eq_Some split: option.splits)
  obtain b v where o: "only_account slashed s v" "only_account beneficiary v u" "balances_ok cfg u"
    "g ?to s = (Inr b, s)" "account beneficiary u = settle cfg b" "?to \<noteq> account_data_default"
    and md: "md1 = dust_of cfg (?from\<lparr>reserved := saturating_sub (reserved ?from) actual\<rparr>)" "md2 = dust_of cfg b"
    and from': "account slashed u = settle cfg (?from\<lparr>reserved := saturating_sub (reserved ?from) actual\<rparr>)"
    and sum: "bal_sum u + val0 unat md1 + val0 unat md2 = bal_sum s"
    by (rule transfer_reserved_accounts [where g = g, OF m bal neq g le]) blast
  have b: "unat (free b) = unat (free ?to) + (if status = S_Free then unat actual else 0)"
    "unat (reserved b) = unat (reserved ?to) + (if status = S_Reserved then unat actual else 0)" "frozen b = frozen ?to"
    using o(4) by (cases status; auto simp: g_def monad bindE_def ok_or_def checked_add_eq_Some split: option.splits)+
  have live: "\<not> free b < ed cfg \<or> reserved b \<noteq> 0 \<or> frozen b \<noteq> 0"
    proof -
    have "account_ok (ed cfg) (account_get beneficiary s)" using bal by (simp add: balances_ok_def)
    then have "unat (ed cfg) \<le> unat (free ?to) \<or> reserved ?to \<noteq> 0 \<or> frozen ?to \<noteq> 0"
      using o(6) by (auto simp: account_ok_def account_def store_get_def word_le_nat_alt)
    with b show ?thesis by (auto simp: word_less_nat_alt unat_eq_zero [symmetric])
  qed
  then have "md2 = None" "settle cfg b = b" using md(2) by (auto simp: dust_of_def settle_def)
  moreover have "core t = core (handle_maybe_dust cfg md2 (handle_maybe_dust cfg md1 u))"
    using t unfolding raw_dust_opt [OF md(1)] raw_dust_opt [OF md(2)] .
  ultimately show ?thesis using that [OF act le o(1-3) _ b] o(5) from' sum md(1) by (simp add: handle_maybe_dust_def)
qed

lemma do_transfer_reserved_Ok:
  assumes run: "do_transfer_reserved cfg slashed beneficiary value precision fortitude status s = (Inr actual, t)"
    and ok: "books cfg c 0 s" and neq: "slashed \<noteq> beneficiary"
  shows "books cfg c 0 t \<and> actual \<le> value \<and> (precision = Exact \<longrightarrow> actual = value) \<and>
    actual \<le> reducible_total_balance_on_hold slashed fortitude s \<and>
    unat (reserved_balance slashed t) + unat actual = unat (reserved_balance slashed s) \<and>
    unat (reserved_balance beneficiary t) =
      unat (reserved_balance beneficiary s) + (if status = S_Reserved then unat actual else 0) \<and>
    reserves_map t = reserves_map s \<and>
    (\<forall>k. k \<noteq> slashed \<and> k \<noteq> beneficiary \<longrightarrow> reserved_balance k t = reserved_balance k s)"
proof (cases "value = 0")
  case True
  with run ok show ?thesis by (simp add: do_transfer_reserved_def monad)
next
  case False
  let ?m = "reducible_total_balance_on_hold slashed fortitude s"
  let ?from1 = "(account slashed s)\<lparr>reserved := saturating_sub (reserved (account slashed s)) actual\<rparr>"
  have bal: "balances_ok cfg s" using ok by (simp add: books_def)
  obtain b u v where act: "actual = (case precision of BestEffort \<Rightarrow> min value ?m | Exact \<Rightarrow> value)" "actual \<le> ?m"
    and le: "actual \<le> reserved (account slashed s)"
    and o: "only_account slashed s v" "only_account beneficiary v u" "balances_ok cfg u" "account beneficiary u = b"
      "unat (reserved b) = unat (reserved (account beneficiary s)) + (if status = S_Reserved then unat actual else 0)"
    and from': "account slashed u = settle cfg ?from1"
    and sum: "bal_sum u + val0 unat (dust_of cfg ?from1) = bal_sum s"
    and t: "core t = core (handle_maybe_dust cfg (dust_of cfg ?from1) u)"
    by (rule do_transfer_reserved_accounts [OF run bal neq False])
  have "books cfg (val0 unat (dust_of cfg ?from1) + c) 0 u"
    using o(3) sum ok only_account_fields(1) [OF o(1)] only_account_fields(1) [OF o(2)] by (simp add: books_def)
  then have "books cfg c 0 t" using handle_maybe_dust_books books_cong [OF t] by blast
  moreover have "keeps_claims u t"
    using keeps_claims_trans [OF handle_maybe_dust_claims keeps_claims_core [OF t]] .
  moreover have "actual \<le> value" using act(1) by (cases precision) simp_all
  ultimately show ?thesis
    using act le from' o(4,5) account_other [OF o(1)] account_other [OF o(2)] only_account_fields(4) [OF o(1)] only_account_fields(4) [OF o(2)]
    by (auto simp: keeps_claims_def reserved_balance_def settle_claims unat_saturating_sub word_le_nat_alt)
qed

lemma do_transfer_reserved_free:
  assumes run: "do_transfer_reserved cfg slashed beneficiary value precision fortitude status s = (Inr actual, t)"
    and ok: "books cfg c 0 s" and neq: "slashed \<noteq> beneficiary"
    and live: "ed cfg \<le> free_balance slashed s \<or> free_balance slashed s = 0 \<or> reserved_balance slashed t \<noteq> 0 \<or>
      frozen (account slashed s) \<noteq> 0"
  shows "free_balance slashed t = free_balance slashed s \<and>
    unat (free_balance beneficiary t) = unat (free_balance beneficiary s) + (if status = S_Free then unat actual else 0) \<and>
    (\<forall>k. k \<noteq> slashed \<and> k \<noteq> beneficiary \<longrightarrow> account k t = account k s)"
proof (cases "value = 0")
  case True
  with run ok show ?thesis by (simp add: do_transfer_reserved_def monad)
next
  case False
  let ?from1 = "(account slashed s)\<lparr>reserved := saturating_sub (reserved (account slashed s)) actual\<rparr>"
  have bal: "balances_ok cfg s" using ok by (simp add: books_def)
  obtain b u v where o: "only_account slashed s v" "only_account beneficiary v u" "account beneficiary u = b"
      "unat (free b) = unat (free (account beneficiary s)) + (if status = S_Free then unat actual else 0)"
    and le: "actual \<le> reserved (account slashed s)"
    and from': "account slashed u = settle cfg ?from1"
    and t: "core t = core (handle_maybe_dust cfg (dust_of cfg ?from1) u)"
    by (rule do_transfer_reserved_accounts [OF run bal neq False])
  have "unat (reserved_balance slashed t) + unat actual = unat (reserved_balance slashed s)"
    using do_transfer_reserved_Ok [OF run ok neq] by blast
  then have "reserved ?from1 = reserved_balance slashed t"
    by (simp add: word_unat_eq_iff unat_saturating_sub reserved_balance_def)
  with live have nd: "dust_of cfg ?from1 = None" by (auto simp: dust_of_def free_balance_def)
  with t have c: "account_map t = account_map u" using core_eqD(1) by (fastforce simp: handle_maybe_dust_def)
  show ?thesis
    using account_cong [OF c] no_dust_free [OF nd] from' o(3,4) account_other [OF o(1)] account_other [OF o(2)] 
    by (simp add: free_balance_def)
qed

end

section \<open>Properties\<close>



text \<open>
  C20. Reserving moves the amount from the free to the reserved balance, and unreserving the
  same amount afterwards moves all of it back: nothing is left over and both balances are what
  they were.
\<close>

theorem reserve_unreserve:
  assumes "books_cfg cfg" "books cfg c 0 s" "reserve cfg who value s = (Inr x, t)"
    "unreserve cfg who value t = (rest, u)"
  shows "rest = 0 \<and>
    free_balance who u = free_balance who s \<and>
    reserved_balance who u = reserved_balance who s \<and>
    books cfg c 0 u"
proof -
  note r = books_cfg.reserve_Ok [OF assms(1,3,2)]
  have t: "books cfg c 0 t" "unat (free_balance who t) + unat value = unat (free_balance who s)"
    "unat (reserved_balance who t) = unat (reserved_balance who s) + unat value"
    "frozen (account who t) = frozen (account who s)" using r by auto
  note u = books_cfg.unreserve_Ok [OF assms(1,4) t(1)]
  have "unat rest = 0" using u t(3) by simp
  then have rest: "rest = 0" by (simp add: unat_eq_zero)
  have live: "ed cfg \<le> free_balance who s \<or> reserved_balance who s \<noteq> 0 \<or> frozen (account who s) \<noteq> 0" if "value \<noteq> 0"
  proof -
    have "account_ok (ed cfg) (account_get who s)" using assms(2) by (simp add: books_def balances_ok_def)
    moreover have "free_balance who s \<noteq> 0" using t(2) that by (auto simp: unat_eq_zero)
    ultimately show ?thesis
      by (auto simp: account_ok_def free_balance_def reserved_balance_def account_def store_get_def)
  qed
  have "unat (saturating_add (free_balance who t) value) = unat (free_balance who s)"
    using t(2) unat_less_power [of "free_balance who s"] by (simp add: unat_saturating_add)
  then have "saturating_add (free_balance who t) value = free_balance who s" by (simp add: word_unat_eq_iff)
  moreover have "reserved_balance who s \<noteq> 0 \<Longrightarrow> unat value < unat (reserved_balance who t)"
    using t(3) by (simp add: unat_gt_0)
  ultimately have "unat (free_balance who u) = unat (free_balance who s)"
    using u live t(2,4) rest by auto
  moreover have "unat (reserved_balance who u) = unat (reserved_balance who s)" using u t(3) by simp
  ultimately show ?thesis using u rest by (simp add: word_unat_eq_iff)
qed

theorem reserve_unreserve_witness:
  "free_balance 1 (snd (unreserve (test_default_config 1 3 3 :: (nat, unit) cfg) 1 30
     (snd (reserve (test_default_config 1 3 3) 1 30 (two_accounts 50 20))))) = free_balance 1 (two_accounts 50 20)"
proof -
  let ?cfg = "test_default_config 1 3 3 :: (nat, unit) cfg"
  let ?s = "two_accounts 50 20"
  let ?t = "snd (reserve ?cfg 1 30 ?s)"
  have "fst (reserve ?cfg 1 30 ?s) = Inr ()" "fst (unreserve ?cfg 1 30 ?t) = 0" by code_simp+
  moreover have "books ?cfg 0 0 ?s"
    by (rule books_two_accounts) (simp_all add: test_default_config_def)
  ultimately show ?thesis
    using reserve_unreserve [OF default_cfg.books_cfg_axioms, of 3 3 0 ?s 1 30 "()" ?t 0 "snd (unreserve ?cfg 1 30 ?t)"]
    by (simp add: prod_eq_iff)
qed

text \<open>
  C21. Moving a reserve to another account takes from the reserved balance of the first exactly
  what it reports, never more than asked or than is reducible, and keeps the books balanced. The
  reserved balance of the second rises by it when it is to stay reserved. Unless the first account
  is left with dust only, its free balance is unchanged, the free balance of the second rises by the
  amount when it is to be free, and no third account changes.
\<close>

theorem repatriate_conserves:
  assumes "books_cfg cfg" "books cfg c 0 s" "slashed \<noteq> beneficiary"
    "do_transfer_reserved cfg slashed beneficiary value precision fortitude status s = (Inr actual, t)"
  shows "books cfg c 0 t \<and>
    actual \<le> value \<and>
    (precision = Exact \<longrightarrow> actual = value) \<and>
    actual \<le> reducible_total_balance_on_hold slashed fortitude s \<and>
    unat (reserved_balance slashed t) + unat actual = unat (reserved_balance slashed s) \<and>
    (unat (reserved_balance beneficiary t) =
      unat (reserved_balance beneficiary s) + (if status = S_Reserved then unat actual else 0)) \<and>
    (ed cfg \<le> free_balance slashed s \<or> free_balance slashed s = 0 \<or> reserved_balance slashed t \<noteq> 0 \<or>
      frozen (account slashed s) \<noteq> 0 \<longrightarrow>
        free_balance slashed t = free_balance slashed s \<and>
        unat (free_balance beneficiary t) =
          unat (free_balance beneficiary s) + (if status = S_Free then unat actual else 0) \<and>
        (\<forall>k. k \<noteq> slashed \<and> k \<noteq> beneficiary \<longrightarrow> account k t = account k s))"
  using books_cfg.do_transfer_reserved_Ok [OF assms(1,4,2,3)] books_cfg.do_transfer_reserved_free [OF assms(1,4,2,3)]
  by blast

theorem repatriate_conserves_witness:
  "unat (free_balance 2 (snd (do_transfer_reserved (test_default_config 1 3 3 :: (nat, unit) cfg) 1 2 20 BestEffort Polite S_Free
       (snd (reserve (test_default_config 1 3 3) 1 10 (two_accounts 50 20)))))) = 30"
proof -
  let ?cfg = "test_default_config 1 3 3 :: (nat, unit) cfg"
  let ?s = "two_accounts 50 20"
  let ?t = "snd (reserve ?cfg 1 10 ?s)"
  have run: "fst (reserve ?cfg 1 10 ?s) = Inr ()"
    "fst (do_transfer_reserved ?cfg 1 2 20 BestEffort Polite S_Free ?t) = Inr 10"
    "ed ?cfg \<le> free_balance 1 ?t" "free_balance 2 ?t = 20" by code_simp+
  have "books ?cfg 0 0 ?s"
    by (rule books_two_accounts) (simp_all add: test_default_config_def)
  then have "books ?cfg 0 0 ?t"
    using default_cfg.reserve_Ok [of 3 3 1 10 ?s "()" ?t 0] run(1) by (simp add: prod_eq_iff)
  then show ?thesis
    using repatriate_conserves [OF default_cfg.books_cfg_axioms, of 3 3 0 ?t 1 2 20 BestEffort Polite S_Free 10
      "snd (do_transfer_reserved ?cfg 1 2 20 BestEffort Polite S_Free ?t)"] run(2-4)
    by (simp add: prod_eq_iff)
qed

text \<open>
  A withdrawal that succeeds takes exactly the amount, returns it as an imbalance, leaves
  at least the frozen balance free, and with \<open>KeepAlive\<close> leaves no dust behind.
\<close>

lemma withdraw_accounts:
  assumes "books_cfg cfg" "books cfg c 0 s" "withdraw_cur cfg who value liveness s = (Inr imbalance, t)"
  shows "books cfg (unat imbalance + c) 0 t \<and>
    imbalance = value \<and>
    keeps_claims s t \<and>
    (value \<noteq> 0 \<longrightarrow> unat (frozen (account who s)) + unat value \<le> unat (free_balance who s)) \<and>
    (liveness = KeepAlive \<longrightarrow> unat (free_balance who t) + unat value = unat (free_balance who s))"
  using books_cfg.withdraw_cur_Ok [OF assms(1,3,2)] by auto

text \<open>
  C22. A withdrawal with \<open>AllowDeath\<close> whose own checks pass, and which is refused afterwards
  because a reference cannot be changed, drops the imbalance its closure has made: no balance and no
  claim changes, but the total issuance has shrunk by the amount.
\<close>

theorem withdraw_error_burns:
  assumes "books_cfg cfg" "books cfg 0 0 s" "withdraw_cur cfg who value AllowDeath s = (Inl e, t)"
    "unat (frozen (account who s)) + unat value \<le> unat (free_balance who s)"
  shows "(\<forall>k. free_balance k t = free_balance k s) \<and> keeps_claims s t \<and> bal_sum t = bal_sum s \<and>
    unat (total_issuance t) + unat value = unat (total_issuance s)"
proof -
  have "unat (free_balance who s) \<le> unat (total_issuance s)"
    using assms(2) account_le_sum [of s who] by (auto simp: books_def balances_ok_def acct_total_def free_balance_def)
  then show ?thesis using books_cfg.withdraw_cur_burns [OF assms(1,3,2,4)] assms(4) by simp
qed

theorem withdraw_error_burns_witness:
  "unat (total_issuance (snd (withdraw_cur (test_default_config 1 3 3 :: (nat, unit) cfg) 1 40 AllowDeath
      (snd (reserve (test_default_config 1 3 3) 1 10 (two_accounts 50 20)))))) = 30"
proof -
  let ?cfg = "test_default_config 1 3 3 :: (nat, unit) cfg" and ?s = "two_accounts 50 20"
  let ?t = "snd (reserve ?cfg 1 10 ?s)"
  have run: "fst (reserve ?cfg 1 10 ?s) = Inr ()" by code_simp
  have "books ?cfg 0 0 ?s"
    by (rule books_two_accounts) (simp_all add: test_default_config_def)
  then have "books ?cfg 0 0 ?t"
    using default_cfg.reserve_Ok [of 3 3 1 10 ?s "()" ?t 0] run by (simp add: prod_eq_iff)
  moreover have "fst (withdraw_cur ?cfg 1 40 AllowDeath ?t) = Inl DE_ConsumerRemaining"
    "frozen (account 1 ?t) = 0" "free_balance 1 ?t = 40" "total_issuance ?t = 70" by code_simp+
  ultimately show ?thesis
    using withdraw_error_burns [OF default_cfg.books_cfg_axioms, of 3 3 ?t 1 40 DE_ConsumerRemaining
      "snd (withdraw_cur ?cfg 1 40 AllowDeath ?t)"] by (simp add: prod_eq_iff)
qed

end
