(* ===== verification/Claims.thy ===== *)
theory Claims
  imports Currency
begin

text \<open>
  Named reserves and locks: the \<open>NamedReservableCurrency\<close> and \<open>LockableCurrency\<close> traits of
  \<open>frame/balances/src/impl_currency.rs\<close>, and \<open>update_locks\<close> of \<open>lib.rs\<close>. The named reserves of an
  account are a vector sorted by identifier, searched by bisection.

  The lemmas show that the bisection finds what a linear search finds, that named reserves stay
  sorted and backed by the reserved balance (so that the defensive subtractions of the source
  are exact), and that the frozen balance follows the locks.
\<close>

section \<open>Bisection\<close>

text \<open>
  \<open>binary_search_by_key\<close> of the standard library's slices, on the list of keys: \<open>Inr\<close> an index
  that has the key, or \<open>Inl\<close> the index where it can be inserted.
\<close>

function bisect :: "'k :: linorder list \<Rightarrow> 'k \<Rightarrow> nat \<Rightarrow> nat \<Rightarrow> nat" where
  "bisect ks k base sz =
     (if sz \<le> 1 then base
      else let half = sz div 2; mid = base + half
           in bisect ks k (if k < ks ! mid then base else mid) (sz - half))"
  by pat_completeness auto
termination
  by (relation "measure (\<lambda>(_, _, _, sz). sz)") auto

definition binary_search :: "'k :: linorder list \<Rightarrow> 'k \<Rightarrow> nat + nat" where
  "binary_search ks k =
     (if ks = [] then Inl 0
      else let base = bisect ks k 0 (length ks)
           in if ks ! base = k then Inr base
              else Inl (base + (if ks ! base < k then 1 else 0)))"

section \<open>Named reserves\<close>

abbreviation reserve_ids :: "reserve_data list \<Rightarrow> nat list" where
  "reserve_ids rs \<equiv> map reserve_id rs"

definition reserved_balance_named :: "nat \<Rightarrow> 'a \<Rightarrow> ('a, 'm) runtime_scheme \<Rightarrow> balance" where
  "reserved_balance_named i who s =
     (let rs = reserves who s
      in case binary_search (reserve_ids rs) i of Inr index \<Rightarrow> reserve_amount (rs ! index) | Inl _ \<Rightarrow> 0)"

text \<open>\<open>BoundedVec::try_insert\<close>: refused when the vector is full.\<close>

definition try_insert :: "nat \<Rightarrow> nat \<Rightarrow> 'v \<Rightarrow> 'v list \<Rightarrow> 'v list option" where
  "try_insert bound index x xs =
     (if length xs < bound then Some (take index xs @ x # drop index xs) else None)"

definition reserve_named ::
  "('a, 'm) cfg \<Rightarrow> nat \<Rightarrow> 'a \<Rightarrow> balance \<Rightarrow> (('a, 'm) runtime_scheme, dispatch_error, unit) comp" where
  "reserve_named cfg i who value =
     (if value = 0 then ret ()
      else
        storage_try_mutate reserves_map reserves_map_update [] who (\<lambda>rs.
          bindE (case binary_search (reserve_ids rs) i of
              Inr index \<Rightarrow>
                bindE (ok_or (checked_add (reserve_amount (rs ! index)) value) (DE_Arithmetic AE_Overflow)) (\<lambda>x.
                ret (rs[index := (rs ! index)\<lparr>reserve_amount := x\<rparr>]))
            | Inl index \<Rightarrow>
                ok_or (try_insert (unat (max_reserves cfg)) index \<lparr>reserve_id = i, reserve_amount = value\<rparr> rs)
                  (DE_Module TooManyReserves)) (\<lambda>rs.
          bindE (reserve cfg who value) (\<lambda>_.
          ret ((), rs)))))"

text \<open>The end of the three operations that take from a named reserve.\<close>

definition reduce_named :: "nat \<Rightarrow> balance \<Rightarrow> reserve_data list \<Rightarrow> reserve_data list option" where
  "reduce_named index actual rs =
     (let rs = rs[index := (rs ! index)\<lparr>reserve_amount := reserve_amount (rs ! index) - actual\<rparr>]
      in if reserve_amount (rs ! index) = 0
         then if length rs = 1 then None else Some (take index rs @ drop (Suc index) rs)
         else Some rs)"

definition unreserve_named ::
  "('a, 'm) cfg \<Rightarrow> nat \<Rightarrow> 'a \<Rightarrow> balance \<Rightarrow> ('a, 'm) runtime_scheme \<Rightarrow> balance \<times> ('a, 'm) runtime_scheme" where
  "unreserve_named cfg i who value s =
     (if value = 0 then (0, s)
      else
        storage_mutate_exists reserves_map reserves_map_update who (\<lambda>maybe_reserves s.
          case maybe_reserves of
            None \<Rightarrow> ((value, None), s)
          | Some rs \<Rightarrow>
              (case binary_search (reserve_ids rs) i of
                 Inl _ \<Rightarrow> ((value, Some rs), s)
               | Inr index \<Rightarrow>
                   let to_change = min (reserve_amount (rs ! index)) value;
                       (remain, s) = unreserve cfg who to_change s;
                       actual = saturating_sub to_change remain
                   in ((value - actual, reduce_named index actual rs), s))) s)"

definition slash_reserved_named ::
  "('a, 'm) cfg \<Rightarrow> nat \<Rightarrow> 'a \<Rightarrow> balance \<Rightarrow> ('a, 'm) runtime_scheme \<Rightarrow> (balance \<times> balance) \<times> ('a, 'm) runtime_scheme" where
  "slash_reserved_named cfg i who value s =
     (if value = 0 then ((0, 0), s)
      else
        storage_mutate_exists reserves_map reserves_map_update who (\<lambda>maybe_reserves s.
          case maybe_reserves of
            None \<Rightarrow> (((0, value), None), s)
          | Some rs \<Rightarrow>
              (case binary_search (reserve_ids rs) i of
                 Inl _ \<Rightarrow> (((0, value), Some rs), s)
               | Inr index \<Rightarrow>
                   let to_change = min (reserve_amount (rs ! index)) value;
                       ((imb, remain), s) = slash_reserved cfg who to_change s;
                       actual = saturating_sub to_change remain
                   in (((imb, value - actual), reduce_named index actual rs), s))) s)"

definition repatriate_reserved_named ::
  "('a, 'm) cfg \<Rightarrow> nat \<Rightarrow> 'a \<Rightarrow> 'a \<Rightarrow> balance \<Rightarrow> balance_status \<Rightarrow>
   (('a, 'm) runtime_scheme, dispatch_error, balance) comp" where
  "repatriate_reserved_named cfg i slashed beneficiary value status =
     (if value = 0 then ret 0
      else if slashed = beneficiary
      then (case status of
              S_Free \<Rightarrow> runE (unreserve_named cfg i slashed value)
            | S_Reserved \<Rightarrow> getsE (\<lambda>s. saturating_sub value (reserved_balance_named i slashed s)))
      else
        storage_try_mutate_exists reserves_map reserves_map_update slashed (\<lambda>maybe_reserves.
          case maybe_reserves of
            None \<Rightarrow> ret (value, None)
          | Some rs \<Rightarrow>
              (case binary_search (reserve_ids rs) i of
                 Inl _ \<Rightarrow> ret (value, Some rs)
               | Inr index \<Rightarrow>
                   let to_change = min (reserve_amount (rs ! index)) value in
                   bindE (case status of
                       S_Reserved \<Rightarrow>
                         storage_try_mutate reserves_map reserves_map_update [] beneficiary (\<lambda>rs'.
                           case binary_search (reserve_ids rs') i of
                             Inr index' \<Rightarrow>
                               bindE (repatriate_reserved cfg slashed beneficiary to_change status) (\<lambda>remain.
                               let actual = saturating_sub to_change remain in
                               ret (actual, rs'[index' := (rs' ! index')
                                 \<lparr>reserve_amount := saturating_add (reserve_amount (rs' ! index')) actual\<rparr>]))
                           | Inl index' \<Rightarrow>
                               bindE (repatriate_reserved cfg slashed beneficiary to_change status) (\<lambda>remain.
                               let actual = saturating_sub to_change remain in
                               if actual \<noteq> 0
                               then
                                 bindE (ok_or (try_insert (unat (max_reserves cfg)) index'
                                     \<lparr>reserve_id = i, reserve_amount = actual\<rparr> rs') (DE_Module TooManyReserves)) (\<lambda>rs'.
                                 ret (actual, rs'))
                               else ret (actual, rs')))
                     | S_Free \<Rightarrow>
                         bindE (repatriate_reserved cfg slashed beneficiary to_change status) (\<lambda>remain.
                         ret (saturating_sub to_change remain))) (\<lambda>actual.
                   ret (value - actual, reduce_named index actual rs)))))"

section \<open>Locks\<close>

text \<open>
  \<open>update_locks\<close> stores the locks whether or not the account could be changed; the previous and
  the new frozen balance are captured by the closure, which runs in both cases.
\<close>

definition update_locks ::
  "('a, 'm) cfg \<Rightarrow> 'a \<Rightarrow> balance_lock list \<Rightarrow> ('a, 'm) runtime_scheme \<Rightarrow> ('a, 'm) runtime_scheme" where
  "update_locks cfg who ls s =
     (let freezes = freezes_of who s;
          prev_frozen = frozen (account who s);
          after_frozen = frozen_for ls freezes;
          (maybe_dust, s) =
            (case mutate_account cfg no_drop who True (\<lambda>b. ((), b\<lparr>frozen := frozen_for ls freezes\<rparr>)) s of
               (Inr (_, maybe_dust), s') \<Rightarrow> (maybe_dust, s')
             | (Inl _, s') \<Rightarrow> (None, deposit_event (Balances (Ev_Unexpected FailedToMutateAccount)) s'));
          s = s\<lparr>locks_map := (locks_map s)(who := if ls = [] then None else Some ls)\<rparr>;
          s = (case maybe_dust of Some dust \<Rightarrow> handle_raw_dust cfg dust s | None \<Rightarrow> s)
      in if after_frozen < prev_frozen
         then deposit_event (Balances (Ev_Unlocked who (saturating_sub prev_frozen after_frozen))) s
         else if prev_frozen < after_frozen
         then deposit_event (Balances (Ev_Locked who (saturating_sub after_frozen prev_frozen))) s
         else s)"

definition remove_lock ::
  "('a, 'm) cfg \<Rightarrow> lock_identifier \<Rightarrow> 'a \<Rightarrow> ('a, 'm) runtime_scheme \<Rightarrow> ('a, 'm) runtime_scheme" where
  "remove_lock cfg i who s = update_locks cfg who (filter (\<lambda>l. lock_id l \<noteq> i) (locks who s)) s"

text \<open>
  The \<open>filter_map\<close> of \<open>set_lock\<close> and \<open>extend_lock\<close>: the first lock with the identifier is
  combined with the new one, which is then gone, and any further one is dropped. What is left of
  the new lock is pushed at the end.
\<close>

fun take_lock :: "(balance_lock \<Rightarrow> balance_lock \<Rightarrow> balance_lock) \<Rightarrow> lock_identifier \<Rightarrow> balance_lock option \<Rightarrow>
    balance_lock list \<Rightarrow> balance_lock list" where
  "take_lock comb i new_lock [] = (case new_lock of Some lock \<Rightarrow> [lock] | None \<Rightarrow> [])"
| "take_lock comb i new_lock (l # ls) =
     (if lock_id l = i
      then (case new_lock of
              Some nl \<Rightarrow> comb l nl # take_lock comb i None ls
            | None \<Rightarrow> take_lock comb i None ls)
      else l # take_lock comb i new_lock ls)"

definition set_lock ::
  "('a, 'm) cfg \<Rightarrow> lock_identifier \<Rightarrow> 'a \<Rightarrow> balance \<Rightarrow> withdraw_reasons \<Rightarrow>
   ('a, 'm) runtime_scheme \<Rightarrow> ('a, 'm) runtime_scheme" where
  "set_lock cfg i who amount rsn s =
     (if rsn = 0 \<or> amount = 0 then remove_lock cfg i who s
      else
        let new_lock = \<lparr>lock_id = i, lock_amount = amount, lock_reasons = reasons_from rsn\<rparr>
        in update_locks cfg who (take_lock (\<lambda>_ nl. nl) i (Some new_lock) (locks who s)) s)"

definition extend_lock ::
  "('a, 'm) cfg \<Rightarrow> lock_identifier \<Rightarrow> 'a \<Rightarrow> balance \<Rightarrow> withdraw_reasons \<Rightarrow>
   ('a, 'm) runtime_scheme \<Rightarrow> ('a, 'm) runtime_scheme" where
  "extend_lock cfg i who amount rsn s =
     (if amount = 0 \<or> rsn = 0 then s
      else
        let new_lock = \<lparr>lock_id = i, lock_amount = amount, lock_reasons = reasons_from rsn\<rparr>;
            comb = (\<lambda>l nl. \<lparr>lock_id = lock_id l, lock_amount = max (lock_amount l) (lock_amount nl),
                      lock_reasons = reasons_bitor (lock_reasons l) (lock_reasons nl)\<rparr>)
        in update_locks cfg who (take_lock comb i (Some new_lock) (locks who s)) s)"

definition balance_locked :: "lock_identifier \<Rightarrow> 'a \<Rightarrow> ('a, 'm) runtime_scheme \<Rightarrow> balance" where
  "balance_locked i who s =
     fold (\<lambda>l acc. acc + lock_amount l) (filter (\<lambda>l. lock_id l = i) (locks who s)) 0"

section \<open>The bisection is a search\<close>

text \<open>The reference: skip the smaller keys.\<close>

definition linear_search :: "'k :: linorder list \<Rightarrow> 'k \<Rightarrow> nat + nat" where
  "linear_search ks k =
     (let i = length (takeWhile (\<lambda>x. x < k) ks)
      in if i < length ks \<and> ks ! i = k then Inr i else Inl i)"

declare bisect.simps [simp del]

lemma bisect_bounds:
  assumes "sorted ks" "1 \<le> sz" "base + sz \<le> length ks"
    "\<forall>j. base + sz \<le> j \<and> j < length ks \<longrightarrow> k < ks ! j" "base = 0 \<or> ks ! base \<le> k"
  shows "bisect ks k base sz < length ks \<and>
    (bisect ks k base sz = 0 \<or> ks ! bisect ks k base sz \<le> k) \<and>
    (\<forall>j. bisect ks k base sz < j \<and> j < length ks \<longrightarrow> k < ks ! j)"
  using assms
proof (induction ks k base sz rule: bisect.induct)
  case (1 ks k base sz)
  show ?case
  proof (cases "sz \<le> 1")
    case True
    then have "sz = 1" using 1 by simp
    with 1 show ?thesis by (simp add: bisect.simps [of _ _ _ "Suc 0"])
  next
    case False
    define half where "half = sz div 2"
    define mid where "mid = base + half"
    define b where "b = (if k < ks ! mid then base else mid)"
    have half: "1 \<le> half" "half < sz" using False by (auto simp: half_def)
    have step: "bisect ks k base sz = bisect ks k b (sz - half)"
      using False by (simp add: bisect.simps [of _ _ _ sz] half_def mid_def b_def Let_def)
    have gt: "\<forall>j. b + (sz - half) \<le> j \<and> j < length ks \<longrightarrow> k < ks ! j"
    proof (intro allI impI)
      fix j assume j: "b + (sz - half) \<le> j \<and> j < length ks"
      show "k < ks ! j"
      proof (cases "k < ks ! mid")
        case True
        have "mid \<le> j" using j True half by (auto simp: b_def mid_def half_def)
        then have "ks ! mid \<le> ks ! j" using sorted_nth_mono [OF 1(2)] j by blast
        with True show ?thesis by simp
      next
        case False
        then show ?thesis using 1(5) j half by (auto simp: b_def mid_def)
      qed
    qed
    have b: "b + (sz - half) \<le> length ks" "b = 0 \<or> ks ! b \<le> k"
      using 1(4,6) half by (auto simp: b_def mid_def)
    have "1 \<le> sz - half" using half by simp
    from 1(1) [OF False half_def mid_def 1(2) this, folded b_def, OF b(1) gt b(2)] show ?thesis
      unfolding step .
  qed
qed

lemma length_takeWhile_less:
  fixes k :: "'k :: linorder"
  assumes "i \<le> length ks" "\<forall>j<i. ks ! j < k" "i < length ks \<longrightarrow> \<not> ks ! i < k"
  shows "length (takeWhile (\<lambda>x. x < k) ks) = i"
  using assms
proof (induction ks arbitrary: i)
  case (Cons a ks)
  show ?case
  proof (cases i)
    case 0
    with Cons show ?thesis by simp
  next
    case (Suc n)
    with Cons.prems have "n \<le> length ks" "\<forall>j<n. ks ! j < k" "n < length ks \<longrightarrow> \<not> ks ! n < k" "a < k"
      by fastforce+
    with Cons.IH [of n] Suc show ?thesis by simp
  qed
qed simp

lemma binary_search_strict:
  fixes ks :: "'k :: linorder list"
  assumes "sorted_wrt (<) ks"
  shows "binary_search ks k = linear_search ks k"
proof (cases "ks = []")
  case True
  then show ?thesis by (simp add: binary_search_def linear_search_def)
next
  case False
  define b where "b = bisect ks k 0 (length ks)"
  have sorted: "sorted ks" using assms by (simp add: strict_sorted_iff)
  have "b < length ks \<and> (b = 0 \<or> ks ! b \<le> k) \<and> (\<forall>j. b < j \<and> j < length ks \<longrightarrow> k < ks ! j)"
    unfolding b_def by (rule bisect_bounds [OF sorted]) (use False in \<open>auto simp: Suc_le_eq\<close>)
  then have b: "b < length ks" "b = 0 \<or> ks ! b \<le> k" "\<And>j. b < j \<Longrightarrow> j < length ks \<Longrightarrow> k < ks ! j"
    by blast+
  have below: "ks ! j < ks ! b" if "j < b" for j
    using sorted_wrt_nth_less [OF assms that b(1)] .
  let ?i = "b + (if ks ! b < k then 1 else 0)"
  have "length (takeWhile (\<lambda>x. x < k) ks) = ?i"
  proof (rule length_takeWhile_less)
    show "\<forall>j<?i. ks ! j < k"
    proof (intro allI impI)
      fix j assume j: "j < ?i"
      show "ks ! j < k"
      proof (cases "j < b")
        case True
        then have "ks ! b \<le> k" using b(2) by auto
        with below [OF True] show ?thesis by (rule less_le_trans)
      next
        case False
        with j show ?thesis by (auto split: if_splits simp: less_Suc_eq)
      qed
    qed
    show "?i < length ks \<longrightarrow> \<not> ks ! ?i < k" using b(3) [of "Suc b"] by (cases "ks ! b < k") auto
  qed (use b(1) in simp)
  moreover have "\<not> (Suc b < length ks \<and> ks ! Suc b = k)" using b(3) [of "Suc b"] by auto
  ultimately show ?thesis
    using False b(1) unfolding binary_search_def linear_search_def Let_def b_def [symmetric]
    by (cases "ks ! b < k") simp_all
qed

section \<open>Replacing a lock\<close>

lemma take_lock_None: "take_lock comb i None ls = filter (\<lambda>l. lock_id l \<noteq> i) ls"
  by (induction ls) auto

lemma take_lock_in:
  "lock_id new = i \<Longrightarrow> comb = (\<lambda>_ nl. nl) \<Longrightarrow> new \<in> set (take_lock comb i (Some new) ls)"
  by (induction ls) auto

lemma map_of_filter_lock:
  "map_of (map (\<lambda>l. (lock_id l, lock_amount l)) (filter (\<lambda>l. lock_id l \<noteq> i) ls)) =
     (map_of (map (\<lambda>l. (lock_id l, lock_amount l)) ls))(i := None)"
  by (induction ls) (auto simp: fun_eq_iff)

lemma map_of_take_lock:
  "lock_id new = i \<Longrightarrow>
     map_of (map (\<lambda>l. (lock_id l, lock_amount l)) (take_lock (\<lambda>_ nl. nl) i (Some new) ls)) =
     (map_of (map (\<lambda>l. (lock_id l, lock_amount l)) ls))(i \<mapsto> lock_amount new)"
  by (induction ls) (auto simp: fun_eq_iff take_lock_None map_of_filter_lock)

section \<open>Named reserves are backed\<close>

definition amount_of :: "nat \<Rightarrow> reserve_data list \<Rightarrow> balance" where
  "amount_of i rs = (case find (\<lambda>r. reserve_id r = i) rs of None \<Rightarrow> 0 | Some r \<Rightarrow> reserve_amount r)"

definition named_sum :: "reserve_data list \<Rightarrow> nat" where
  "named_sum rs = sum_list (map (\<lambda>r. unat (reserve_amount r)) rs)"

text \<open>The named reserves of every account are sorted, and backed by its reserved balance.\<close>

definition named_ok :: "('a, 'm) runtime_scheme \<Rightarrow> bool" where
  "named_ok s \<longleftrightarrow> (\<forall>k. sorted_wrt (<) (reserve_ids (reserves k s)) \<and>
     named_sum (reserves k s) \<le> unat (reserved_balance k s))"

lemma amount_of_mid:
  "i \<notin> set (reserve_ids xs) \<Longrightarrow> reserve_id r = i \<Longrightarrow>
     amount_of j (xs @ r # ys) = (if j = i then reserve_amount r else amount_of j (xs @ ys))"
  by (induction xs) (auto simp: amount_of_def)

lemma amount_of_absent: "i \<notin> set (reserve_ids xs) \<Longrightarrow> amount_of i xs = 0"
  by (induction xs) (auto simp: amount_of_def)

lemma amount_of_le: "unat (amount_of i rs) \<le> named_sum rs"
  by (induction rs) (auto simp: amount_of_def named_sum_def intro: trans_le_add2)

lemma named_sum_mid [simp]: "named_sum (xs @ r # ys) = unat (reserve_amount r) + named_sum (xs @ ys)"
  by (simp add: named_sum_def)

text \<open>What the search says of the list of reserves.\<close>

lemma search_found:
  assumes "sorted_wrt (<) (reserve_ids rs)" "binary_search (reserve_ids rs) i = Inr index"
  obtains xs r ys where "rs = xs @ r # ys" "length xs = index" "reserve_id r = i" "i \<notin> set (reserve_ids xs)"
proof -
  have "linear_search (reserve_ids rs) i = Inr index" using assms binary_search_strict by metis
  then have i: "index < length rs" "reserve_id (rs ! index) = i"
    by (auto simp: linear_search_def Let_def split: if_splits)
  have "i \<notin> set (reserve_ids (take index rs))"
    using sorted_wrt_nth_less [OF assms(1)] i by (fastforce simp: in_set_conv_nth)
  with i show ?thesis by (intro that [OF id_take_nth_drop [OF i(1)]]) simp_all
qed

lemma search_absent:
  assumes "sorted_wrt (<) (reserve_ids rs)" "binary_search (reserve_ids rs) i = Inl index"
  obtains xs ys where "rs = xs @ ys" "length xs = index" "\<forall>x\<in>set (reserve_ids xs). x < i" "\<forall>y\<in>set (reserve_ids ys). i < y"
proof -
  have l: "linear_search (reserve_ids rs) i = Inl index" using assms binary_search_strict by metis
  let ?t = "takeWhile (\<lambda>r. reserve_id r < i) rs" and ?d = "dropWhile (\<lambda>r. reserve_id r < i) rs"
  have len: "length (takeWhile (\<lambda>x. x < i) (reserve_ids rs)) = length ?t"
    by (simp add: takeWhile_map comp_def)
  with l have index: "index = length ?t" "\<not> (index < length rs \<and> reserve_id (rs ! index) = i)"
    by (auto simp: linear_search_def Let_def split: if_splits)
  have above: "i < y" if y: "y \<in> set (reserve_ids ?d)" for y
  proof -
    have ne: "?d \<noteq> []" using y by (metis empty_iff list.map(1) list.set(1))
    have "length ?t + length ?d = length rs" by (metis length_append takeWhile_dropWhile_id)
    moreover have "0 < length ?d" using ne by (rule length_greater_0_conv [THEN iffD2])
    ultimately have "index < length rs" using index(1) by linarith
    moreover have "hd ?d = rs ! index" 
      unfolding index(1) dropWhile_eq_drop by (rule hd_drop_conv_nth) (use \<open>index < length rs\<close> index(1) in simp)
    ultimately have hd: "i < reserve_id (hd ?d)"
      using hd_dropWhile [OF ne] index(2) by auto
    have "sorted_wrt (<) (reserve_ids (?t @ ?d))" using assms(1) by simp
    then have "sorted (reserve_ids ?d)" unfolding map_append sorted_wrt_append strict_sorted_iff by blast
    then have "reserve_id (hd ?d) \<le> y" using y ne by (cases ?d) auto
    with hd show ?thesis by simp
  qed
  have below: "\<forall>x\<in>set (reserve_ids ?t). x < i" by (auto dest: set_takeWhileD)
  show ?thesis by (rule that [OF takeWhile_dropWhile_id [symmetric] index(1) [symmetric] below]) (use above in blast)
qed

lemma named_amount:
  assumes "named_ok s"
  shows "reserved_balance_named i who s = amount_of i (reserves who s)"
proof -
  have sorted: "sorted_wrt (<) (reserve_ids (reserves who s))" using assms by (simp add: named_ok_def)
  show ?thesis
  proof (cases "binary_search (reserve_ids (reserves who s)) i")
    case (Inr index)
    obtain xs r ys where "reserves who s = xs @ r # ys" "length xs = index" "reserve_id r = i" "i \<notin> set (reserve_ids xs)"
      by (rule search_found [OF sorted Inr])
    with Inr amount_of_mid [of i xs r i ys] show ?thesis by (auto simp: reserved_balance_named_def)
  next
    case (Inl index)
    obtain xs ys where "reserves who s = xs @ ys" "\<forall>x\<in>set (reserve_ids xs). x < i" "\<forall>y\<in>set (reserve_ids ys). i < y"
      by (rule search_absent [OF sorted Inl])
    then have "i \<notin> set (reserve_ids (reserves who s))" by auto
    with Inl show ?thesis by (simp add: reserved_balance_named_def amount_of_absent)
  qed
qed

text \<open>Reducing a named reserve, and removing it when nothing is left.\<close>

lemma reduce_named_Ok:
  assumes "sorted_wrt (<) (reserve_ids (xs @ r # ys))" "reserve_id r = i" "actual \<le> reserve_amount r"
    "rs' = (case reduce_named (length xs) actual (xs @ r # ys) of None \<Rightarrow> [] | Some rs' \<Rightarrow> rs')"
  shows "sorted_wrt (<) (reserve_ids rs')" "named_sum rs' + unat actual = named_sum (xs @ r # ys)"
    "amount_of j rs' = amount_of j (xs @ r # ys) - (if j = i then actual else 0)"
proof -
  have i: "i \<notin> set (reserve_ids xs)" "i \<notin> set (reserve_ids ys)" using assms(1,2) by (auto simp: sorted_wrt_append)
  let ?r = "r\<lparr>reserve_amount := reserve_amount r - actual\<rparr>"
  have rs: "rs' = (if reserve_amount r = actual then xs @ ys else xs @ ?r # ys)"
    using assms(4) by (auto simp: reduce_named_def Let_def nth_append)
  have sub: "unat (reserve_amount r - actual) + unat actual = unat (reserve_amount r)"
    using assms(3) by (simp add: unat_sub word_le_nat_alt)
  show "sorted_wrt (<) (reserve_ids rs')" using assms(1) by (auto simp: rs sorted_wrt_append)
  show "named_sum rs' + unat actual = named_sum (xs @ r # ys)" using sub by (simp add: rs)
  show "amount_of j rs' = amount_of j (xs @ r # ys) - (if j = i then actual else 0)"
    using amount_of_mid [OF i(1) assms(2), of j ys] amount_of_mid [OF i(1), of ?r j ys] assms(2)
      amount_of_absent [of i "xs @ ys"] i by (auto simp: rs)
qed

lemma account_claims_upd [simp]:
  "account k (reserves_map_update f s) = account k s" "account k (locks_map_update g s) = account k s"
  by (simp_all add: account_def store_get_def account_get_def storage_get_def)

lemma books_claims_upd [simp]:
  "books cfg c d (reserves_map_update f s) = books cfg c d s" "books cfg c d (locks_map_update g s) = books cfg c d s"
  by (simp_all add: books_def bal_sum_def balances_ok_def account_get_def storage_get_def)

lemma reserved_claims_upd [simp]:
  "reserved_balance k (reserves_map_update f s) = reserved_balance k s"
  by (simp add: reserved_balance_def)

lemma reserves_upd:
  "reserves k (s\<lparr>reserves_map := (reserves_map s)(who := v)\<rparr>) =
     (if k = who then (case v of None \<Rightarrow> [] | Some rs \<Rightarrow> rs) else reserves k s)"
  by (simp add: reserves_def storage_get_def)

text \<open>A change of one account's named reserves that its reserved balance follows.\<close>

lemma named_ok_upd:
  assumes "named_ok s" "reserves_map u = reserves_map s"
    "\<forall>k. k \<noteq> who \<longrightarrow> reserved_balance k u = reserved_balance k s"
    "sorted_wrt (<) (reserve_ids rs)" "rs = (case v of None \<Rightarrow> [] | Some rs \<Rightarrow> rs)"
    "named_sum rs + unat (reserved_balance who s) = named_sum (reserves who s) + unat (reserved_balance who u)"
  shows "named_ok (u\<lparr>reserves_map := (reserves_map u)(who := v)\<rparr>)"
proof -
  have same: "reserves k u = reserves k s" for k using assms(2) by (simp add: reserves_def storage_get_def)
  have "named_sum (reserves who s) \<le> unat (reserved_balance who s)" using assms(1) by (simp add: named_ok_def)
  then have "named_sum rs \<le> unat (reserved_balance who u)" using assms(6) by linarith
  with assms(1,3,4,5) show ?thesis unfolding named_ok_def reserves_upd same by simp
qed

context books_cfg
begin

lemma reserve_named_Ok:
  assumes run: "reserve_named cfg i who value s = (Inr x, t)" and ok: "books cfg c 0 s" and named: "named_ok s"
  shows "books cfg c 0 t \<and> named_ok t \<and>
    unat (reserved_balance_named j who t) = unat (reserved_balance_named j who s) + (if j = i then unat value else 0)"
proof (cases "value = 0")
  case True
  with run ok named show ?thesis by (simp add: reserve_named_def monad)
next
  case False
  let ?rs = "reserves who s"
  have sorted: "sorted_wrt (<) (reserve_ids ?rs)" using named by (simp add: named_ok_def)
  from run False obtain rs' y u where
    rs': "(case binary_search (reserve_ids ?rs) i of
              Inr index \<Rightarrow>
                bindE (ok_or (checked_add (reserve_amount (?rs ! index)) value) (DE_Arithmetic AE_Overflow)) (\<lambda>x.
                ret (?rs[index := (?rs ! index)\<lparr>reserve_amount := x\<rparr>]))
            | Inl index \<Rightarrow>
                ok_or (try_insert (unat (max_reserves cfg)) index \<lparr>reserve_id = i, reserve_amount = value\<rparr> ?rs)
                  (DE_Module TooManyReserves)) s = (Inr rs', s)"
    and r: "reserve cfg who value s = (Inr y, u)"
    and t: "t = u\<lparr>reserves_map := (reserves_map u)(who := Some rs')\<rparr>"
    by (auto simp: reserve_named_def storage_try_mutate_def reserves_def [symmetric] monad bindE_eq_Inr
        split: prod.splits sum.splits option.splits)
  have new: "sorted_wrt (<) (reserve_ids rs') \<and> named_sum rs' = named_sum ?rs + unat value \<and>
    unat (amount_of j rs') = unat (amount_of j ?rs) + (if j = i then unat value else 0)"
  proof (cases "binary_search (reserve_ids ?rs) i")
    case (Inr index)
    obtain xs z ys where z: "?rs = xs @ z # ys" "length xs = index" "reserve_id z = i" "i \<notin> set (reserve_ids xs)"
      by (rule search_found [OF sorted Inr])
    from rs' Inr z obtain w where w: "unat w = unat (reserve_amount z) + unat value"
      "rs' = xs @ z\<lparr>reserve_amount := w\<rparr> # ys"
      by (auto simp: monad bindE_eq_Inr checked_add_eq_Some nth_append split: option.splits)
    then show ?thesis
      using sorted amount_of_mid [OF z(4,3), of j ys] amount_of_mid [OF z(4), of "z\<lparr>reserve_amount := w\<rparr>" j ys] z(3)
      by (auto simp: z(1) sorted_wrt_append)
  next
    case (Inl index)
    obtain xs ys where z: "?rs = xs @ ys" "length xs = index" "\<forall>x\<in>set (reserve_ids xs). x < i" "\<forall>y\<in>set (reserve_ids ys). i < y"
      by (rule search_absent [OF sorted Inl])
    from rs' Inl z have w: "rs' = xs @ \<lparr>reserve_id = i, reserve_amount = value\<rparr> # ys"
      by (auto simp: monad try_insert_def split: option.splits if_splits)
    have "i \<notin> set (reserve_ids xs)" "i \<notin> set (reserve_ids (xs @ ys))" using z(3,4) by auto
    with z(3,4) sorted amount_of_mid [of i xs "\<lparr>reserve_id = i, reserve_amount = value\<rparr>" j ys] amount_of_absent [of i "xs @ ys"]
    show ?thesis by (auto simp: z(1) w sorted_wrt_append)
  qed
  note u = reserve_Ok [OF r ok]
  have only: "only_account who s u" using u by blast
  have others: "\<forall>k. k \<noteq> who \<longrightarrow> reserved_balance k u = reserved_balance k s"
    using account_other [OF only] by (simp add: reserved_balance_def)
  have "named_ok t" unfolding t
    by (rule named_ok_upd [OF named only_account_fields(4) [OF only] others, of rs']) (use new u in auto)
  moreover have "books cfg c 0 t" using u by (simp add: t)
  ultimately show ?thesis
    using new unfolding named_amount [OF named] by (auto simp: named_amount t reserves_upd)
qed

text \<open>Both operations that take from a named reserve of one account end in the same way.\<close>

lemma reduce_named_state:
  assumes named: "named_ok s" and rs: "reserves_map s who = Some rs" "binary_search (reserve_ids rs) i = Inr index"
  shows "reserve_amount (rs ! index) = reserved_balance_named i who s"
    and "reserved_balance_named i who s \<le> reserved_balance who s"
    and "actual \<le> reserve_amount (rs ! index) \<Longrightarrow> reserves_map u = reserves_map s \<Longrightarrow>
      unat (reserved_balance who u) + unat actual = unat (reserved_balance who s) \<Longrightarrow>
      \<forall>k. k \<noteq> who \<longrightarrow> reserved_balance k u = reserved_balance k s \<Longrightarrow>
      t = u\<lparr>reserves_map := (reserves_map u)(who := reduce_named index actual rs)\<rparr> \<Longrightarrow>
      named_ok t \<and> reserved_balance_named j who t = reserved_balance_named j who s - (if j = i then actual else 0)"
proof -
  have r: "reserves who s = rs" using rs(1) by (simp add: reserves_def storage_get_def)
  then have sorted: "sorted_wrt (<) (reserve_ids rs)" using named by (auto simp: named_ok_def)
  obtain xs z ys where z: "rs = xs @ z # ys" "length xs = index" "reserve_id z = i" "i \<notin> set (reserve_ids xs)"
    by (rule search_found [OF sorted rs(2)])
  have nth: "rs ! index = z" using z by auto
  show am: "reserve_amount (rs ! index) = reserved_balance_named i who s"
    by (simp add: reserved_balance_named_def r rs(2))
  have "unat (reserved_balance_named i who s) \<le> unat (reserved_balance who s)"
    using named amount_of_le [of i rs] unfolding named_amount [OF named] r named_ok_def by (metis r order_trans)
  then show "reserved_balance_named i who s \<le> reserved_balance who s" by (simp add: word_le_nat_alt)
  assume le: "actual \<le> reserve_amount (rs ! index)" and u: "reserves_map u = reserves_map s"
    "unat (reserved_balance who u) + unat actual = unat (reserved_balance who s)"
    "\<forall>k. k \<noteq> who \<longrightarrow> reserved_balance k u = reserved_balance k s"
    and t: "t = u\<lparr>reserves_map := (reserves_map u)(who := reduce_named index actual rs)\<rparr>"
  define rs' where "rs' = (case reduce_named (length xs) actual (xs @ z # ys) of None \<Rightarrow> [] | Some rs' \<Rightarrow> rs')"
  note red = reduce_named_Ok [OF sorted [unfolded z(1)] z(3) le [unfolded nth] rs'_def]
  have rs'': "rs' = (case reduce_named index actual rs of None \<Rightarrow> [] | Some rs' \<Rightarrow> rs')"
    by (simp add: rs'_def z)
  have n: "named_ok t" unfolding t
    by (rule named_ok_upd [OF named u(1,3) red(1) rs'']) (use red(2) u(2) r z(1) in simp)
  have "reserves who t = rs'" by (simp add: t reserves_upd rs'')
  with n red(3) [of j] show "named_ok t \<and>
      reserved_balance_named j who t = reserved_balance_named j who s - (if j = i then actual else 0)"
    by (simp add: named_amount [OF named] named_amount r z(1))
qed

lemma reserves_absent:
  assumes "reserves_map s who = None \<or> (\<exists>rs x. reserves_map s who = Some rs \<and> binary_search (reserve_ids rs) i = Inl x)"
  shows "reserved_balance_named i who s = 0"
  using assms by (auto simp: reserved_balance_named_def reserves_def storage_get_def binary_search_def Let_def)

lemma unreserve_named_Ok:
  assumes run: "unreserve_named cfg i who value s = (rest, t)" and ok: "books cfg c 0 s" and named: "named_ok s"
  shows "books cfg c 0 t \<and> named_ok t \<and>
    unat rest = unat value - unat (reserved_balance_named i who s) \<and>
    reserved_balance_named j who t = reserved_balance_named j who s - (if j = i then value - rest else 0)"
proof (cases "value = 0")
  case True
  with run ok named show ?thesis by (simp add: unreserve_named_def)
next
  case False
  show ?thesis
  proof (cases "reserves_map s who = None \<or> (\<exists>rs x. reserves_map s who = Some rs \<and> binary_search (reserve_ids rs) i = Inl x)")
    case True
    with run \<open>value \<noteq> 0\<close> have "t = s" "rest = value"
      by (auto simp: unreserve_named_def storage_mutate_exists_def fun_upd_idem intro!: reserves.upd_same)
    with reserves_absent [OF True] ok named show ?thesis by simp
  next
    case False
    then obtain rs index where rs: "reserves_map s who = Some rs" "binary_search (reserve_ids rs) i = Inr index"
      by (metis not_None_eq sum.exhaust)
    note r = reduce_named_state [OF named rs]
    define x where "x = min (reserve_amount (rs ! index)) value"
    obtain remain u where un: "unreserve cfg who x s = (remain, u)" by fastforce
    note u = unreserve_Ok [OF un ok]
    have x: "x \<le> reserved_balance who s" using r(1,2) by (simp add: x_def min.coboundedI1)
    then have "unat remain = 0" using u by (simp add: word_le_nat_alt)
    then have "remain = 0" by (simp add: unat_eq_zero)
    then have act: "saturating_sub x remain = x" by (simp add: saturating_sub_def)
    from run \<open>value \<noteq> 0\<close> rs un act have t: "rest = value - x"
      "t = u\<lparr>reserves_map := (reserves_map u)(who := reduce_named index x rs)\<rparr>"
      by (auto simp: unreserve_named_def storage_mutate_exists_def Let_def x_def)
    have "named_ok t \<and> reserved_balance_named j who t = reserved_balance_named j who s - (if j = i then x else 0)"
    proof (rule r(3) [OF _ _ _ _ t(2)])
      show "x \<le> reserve_amount (rs ! index)" by (simp add: x_def)
      show "unat (reserved_balance who u) + unat x = unat (reserved_balance who s)"
        using u x by (simp add: word_le_nat_alt)
    qed (use u in blast)+
    moreover have "unat rest = unat value - unat (reserved_balance_named i who s)"
      by (simp add: t(1) x_def r(1) unat_sub unat_min)
    moreover have "books cfg c 0 t" using u by (simp add: t(2))
    ultimately show ?thesis using t(1) by simp
  qed
qed

lemma slash_reserved_named_Ok:
  assumes run: "slash_reserved_named cfg i who value s = ((imbalance, rest), t)"
    and ok: "books cfg c 0 s" and named: "named_ok s"
  shows "books cfg (unat imbalance + c) 0 t \<and> named_ok t \<and> unat imbalance + unat rest = unat value \<and>
    unat rest = unat value - unat (reserved_balance_named i who s) \<and>
    reserved_balance_named j who t = reserved_balance_named j who s - (if j = i then imbalance else 0)"
proof (cases "value = 0")
  case True
  with run ok named show ?thesis by (simp add: slash_reserved_named_def)
next
  case False
  show ?thesis
  proof (cases "reserves_map s who = None \<or> (\<exists>rs x. reserves_map s who = Some rs \<and> binary_search (reserve_ids rs) i = Inl x)")
    case True
    with run \<open>value \<noteq> 0\<close> have "t = s"
      "rest = value" "imbalance = 0"
      by (auto simp: slash_reserved_named_def storage_mutate_exists_def fun_upd_idem intro!: reserves.upd_same)
    with reserves_absent [OF True] ok named show ?thesis by simp
  next
    case False
    then obtain rs index where rs: "reserves_map s who = Some rs" "binary_search (reserve_ids rs) i = Inr index"
      by (metis not_None_eq sum.exhaust)
    note r = reduce_named_state [OF named rs]
    define x where "x = min (reserve_amount (rs ! index)) value"
    obtain imb remain u where un: "slash_reserved cfg who x s = ((imb, remain), u)" by (metis surj_pair)
    note u = slash_reserved_Ok [OF un ok]
    have x: "x \<le> reserved_balance who s" using r(1,2) by (simp add: x_def min.coboundedI1)
    then have "unat imb = unat x" using u by (simp add: word_le_nat_alt)
    then have imb: "imb = x" by (simp add: word_unat_eq_iff)
    then have "remain = 0" using u by (simp add: unat_eq_zero)
    then have act: "saturating_sub x remain = x" by (simp add: saturating_sub_def)
    from run \<open>value \<noteq> 0\<close> rs un act imb have t: "rest = value - x" "imbalance = x"
      "t = u\<lparr>reserves_map := (reserves_map u)(who := reduce_named index x rs)\<rparr>"
      by (auto simp: slash_reserved_named_def storage_mutate_exists_def Let_def x_def)
    have "named_ok t \<and> reserved_balance_named j who t = reserved_balance_named j who s - (if j = i then x else 0)"
    proof (rule r(3) [OF _ _ _ _ t(3)])
      show "x \<le> reserve_amount (rs ! index)" by (simp add: x_def)
      show "unat (reserved_balance who u) + unat x = unat (reserved_balance who s)" using u imb by simp
    qed (use u in blast)+
    moreover have "unat rest = unat value - unat (reserved_balance_named i who s)" "unat x + unat rest = unat value"
      by (simp_all add: t(1) x_def r(1) unat_sub unat_min)
    moreover have "books cfg (unat x + c) 0 t" using u imb by (simp add: t(3))
    ultimately show ?thesis using t(2) by simp
  qed
qed

text \<open>
  With a forced consumer reference, freezing fails only for an account without providers.
\<close>

lemma freeze_succeeds:
  assumes bal: "balances_ok cfg s"
    and f: "f (account who s) (account who s = account_data_default) s = (Inr (r, (account who s)\<lparr>frozen := x\<rparr>), s)"
    and refs: "providers_of who s \<noteq> 0 \<or> x = 0"
  shows "\<exists>md t. try_mutate_account cfg no_drop who True f s = (Inr (r, md), t)"
proof -
  let ?a = "account who s"
  let ?ma = "if ?a = account_data_default then None else Some ?a"
  let ?a1 = "?a\<lparr>frozen := x\<rparr>"
  have acc: "account_ok (ed cfg) (account_get who s)" using bal by (simp add: balances_ok_def)
  then have up: "ensure_upgraded cfg who s = (False, s)"
    by (simp add: ensure_upgraded_noop account_ok_def)
  have ma: "(case ?ma of None \<Rightarrow> account_data_default | Some a \<Rightarrow> a) = ?a" "(?ma = None) = (?a = account_data_default)"
    by auto
  define dc where "dc \<longleftrightarrow> (?a \<noteq> account_data_default \<and> (reserved ?a \<noteq> 0 \<or> frozen ?a \<noteq> 0))"
  define sc where "sc \<longleftrightarrow> (reserved ?a1 \<noteq> 0 \<or> frozen ?a1 \<noteq> 0)"
  have dc: "dc \<longrightarrow> consumers (account_get who s) \<noteq> 0"
    using acc by (auto simp: dc_def account_ok_def account_def store_get_def)
  have prov: "sc \<and> \<not> dc \<longrightarrow> providers (account_get who s) \<noteq> 0"
    using refs by (auto simp: dc_def sc_def providers_of_def account_def store_get_def)
  have "\<exists>t. update_refs cfg who True p dc p sc s = (Inr (), t)" for p
  proof (cases "\<not> dc \<and> sc")
    case True
    then obtain s3 where s3: "inc_consumers_without_limit who s = (Inr (), s3)"
      using prov by (auto simp: inc_consumers_without_limit_eq Let_def word_gt_0)
    from inc_consumers_account(2) [OF disjI2 [OF s3]] saturating_inc_pos
    have "consumers_of who s3 \<noteq> 0" by (simp add: consumers_of_def)
    with s3 True show ?thesis by (simp add: update_refs_eq Let_def bindE_def)
  next
    case False
    then show ?thesis
      using dc by (auto simp: update_refs_eq Let_def bindE_def consumers_of_def)
  qed
  then obtain t where refs: "update_refs cfg who True (ed cfg \<le> free ?a)
      (?a \<noteq> account_data_default \<and> (reserved ?a \<noteq> 0 \<or> frozen ?a \<noteq> 0)) (ed cfg \<le> free ?a1)
      (reserved ?a1 \<noteq> 0 \<or> frozen ?a1 \<noteq> 0) s = (Inr (), t)"
    unfolding dc_def sc_def by auto
  have "\<exists>me md v t. mutate_closure cfg no_drop who True f ?ma s = (Inr ((me, md, r), v), t)"
    unfolding mutate_closure_def Let_def ma using f refs by (simp add: bindE_def split: prod.split)
  then obtain me md v u where "mutate_closure cfg no_drop who True f ?ma s = (Inr ((me, md, r), v), u)"
    by blast
  then have "\<exists>t. store_try_mutate_exists who (mutate_closure cfg no_drop who True f) s = (Inr (me, md, r), t)"
    unfolding store_try_mutate_exists_def account_def store_get_def Let_def by simp
  then show ?thesis by (auto simp: try_mutate_account_def monad up bindE_def)
qed

text \<open>\<open>update_locks\<close> on an account that has a provider, or with nothing to freeze.\<close>

lemma update_locks_Ok:
  assumes ok: "books cfg c 0 s"
    and refs: "providers_of who s \<noteq> 0 \<or> frozen_for ls (freezes_of who s) = 0"
  shows "books cfg c 0 (update_locks cfg who ls s)"
    "locks k (update_locks cfg who ls s) = (if k = who then ls else locks k s)"
    "frozen (account k (update_locks cfg who ls s)) =
       (if k = who then frozen_for ls (freezes_of who s) else frozen (account k s))"
    "freezes_map (update_locks cfg who ls s) = freezes_map s"
    "reserved (account k (update_locks cfg who ls s)) = reserved (account k s)"
proof -
  let ?a = "account who s" and ?ff = "frozen_for ls (freezes_of who s)"
  let ?a1 = "?a\<lparr>frozen := ?ff\<rparr>"
  define f :: "account_data \<Rightarrow> bool \<Rightarrow> (('a, 'm) runtime_scheme, dispatch_error, unit \<times> account_data) comp"
    where "f = (\<lambda>b _. ret ((), b\<lparr>frozen := ?ff\<rparr>))"
  have bal: "balances_ok cfg s" using ok by (simp add: books_def)
  have res: "f ?a (?a = account_data_default) s = (Inr ((), ?a1), s)" by (simp add: f_def monad)
  obtain md u where m: "try_mutate_account cfg no_drop who True f s = (Inr ((), md), u)"
    using freeze_succeeds [where f = f, OF bal res refs] by blast
  have flag: "\<forall>r1 a1. (Inr ((), ?a1) :: dispatch_error + _) = Inr (r1, a1) \<longrightarrow> is_new_logic (flags a1)"
    using books_new_logic [OF bal, of who] by simp
  obtain a1 where a1: "(Inr ((), ?a1) :: dispatch_error + _) = Inr ((), a1)"
    and u: "md = dust_of cfg a1" "account who u = settle cfg a1" "only_account who s u" "balances_ok cfg u"
      "bal_sum u + val0 unat md + acct_total ?a = bal_sum s + acct_total a1"
    by (rule try_mutate_pure [where f = f, OF m bal res flag])
  from a1 have [simp]: "a1 = ?a1" by simp
  define v where "v = u\<lparr>locks_map := (locks_map u)(who := if ls = [] then None else Some ls)\<rparr>"
  have "core (update_locks cfg who ls s) =
      core (case md of Some dust \<Rightarrow> handle_raw_dust cfg dust v | None \<Rightarrow> v)"
    using m by (cases md) (auto simp: update_locks_def mutate_account_def f_def Let_def v_def)
  then have t': "core (update_locks cfg who ls s) = core (handle_maybe_dust cfg md v)"
    unfolding raw_dust_opt [OF u(1)] .
  note only = only_account_fields [OF u(3)]
  have "books cfg (val0 unat md + c) 0 v"
    using u(4,5) ok only(1) by (simp add: v_def) (simp add: books_def acct_total_def)
  then show "books cfg c 0 (update_locks cfg who ls s)"
    using handle_maybe_dust_books books_cong [OF t'] by blast
  have k: "keeps_claims v (update_locks cfg who ls s)"
    using handle_maybe_dust_claims keeps_claims_core [OF t'] keeps_claims_trans by metis
  show "locks k (update_locks cfg who ls s) = (if k = who then ls else locks k s)"
    unfolding keeps_claims_reads(3) [OF k] by (simp add: v_def locks_def storage_get_def only)
  show "frozen (account k (update_locks cfg who ls s)) = (if k = who then ?ff else frozen (account k s))"
    unfolding keeps_claims_reads(7) [OF k] using account_other [OF u(3), of k] u(2) by (simp add: v_def settle_claims)
  show "freezes_map (update_locks cfg who ls s) = freezes_map s"
    using k by (simp add: keeps_claims_def v_def only)
  show "reserved (account k (update_locks cfg who ls s)) = reserved (account k s)"
    unfolding keeps_claims_reads(6) [OF k] using account_other [OF u(3), of k] u(2)
    by (cases "k = who") (simp_all add: v_def settle_claims)
qed

lemma set_lock_Ok:
  assumes ok: "books cfg c 0 s" and fz: "frozen_ok s" and prov: "providers_of who s \<noteq> 0"
    and t: "t = set_lock cfg i who amount rsn s" and pos: "amount \<noteq> 0" "rsn \<noteq> 0"
  shows "books cfg c 0 t \<and> frozen_ok t \<and> amount \<le> frozen (account who t) \<and>
    map_of (map (\<lambda>l. (lock_id l, lock_amount l)) (locks who t)) =
      (map_of (map (\<lambda>l. (lock_id l, lock_amount l)) (locks who s)))(i \<mapsto> amount)"
proof -
  let ?new = "\<lparr>lock_id = i, lock_amount = amount, lock_reasons = reasons_from rsn\<rparr>"
  let ?ls = "take_lock (\<lambda>_ nl. nl) i (Some ?new) (locks who s)"
  from t pos have t: "t = update_locks cfg who ?ls s" by (simp add: set_lock_def Let_def)
  note up = update_locks_Ok [where ls = ?ls, OF ok disjI1 [OF prov], folded t]
  have "?new \<in> set ?ls" by (rule take_lock_in) simp_all
  then have "amount \<le> frozen_for ?ls (freezes_of who s)" using frozen_for_ge(1) by fastforce
  moreover have "freezes_of k t = freezes_of k s" for k using up(4) by (simp add: freezes_of_def storage_get_def)
  then have "frozen_ok t" using fz up(2,3) by (simp add: frozen_ok_def)
  ultimately show ?thesis using map_of_take_lock [of ?new i] by (simp add: up)
qed

text \<open>On an account without a provider the balance cannot be frozen, but the locks are stored.\<close>

lemma unprovided_account:
  assumes "balances_ok cfg s" "providers_of who s = 0"
  shows "account who s = account_data_default" "\<not> ed cfg \<le> free account_data_default"
proof -
  have "account_ok (ed cfg) (account_get who s)" using assms(1) by (simp add: balances_ok_def)
  then show "account who s = account_data_default" "\<not> ed cfg \<le> free account_data_default"
    using assms(2) by (auto simp: account_ok_def account_def store_get_def providers_of_def)
qed

lemma update_locks_unprovided:
  assumes ok: "balances_ok cfg s" and prov: "providers_of who s = 0" and ff: "frozen_for ls (freezes_of who s) \<noteq> 0"
    and ne: "ls \<noteq> []"
  shows "update_locks cfg who ls s =
    deposit_event (Balances (Ev_Locked who (frozen_for ls (freezes_of who s))))
      ((deposit_event (Balances (Ev_Unexpected FailedToMutateAccount)) s)\<lparr>locks_map := (locks_map s)(who \<mapsto> ls)\<rparr>)"
proof -
  let ?ff = "frozen_for ls (freezes_of who s)"
  note un = unprovided_account [OF ok prov]
  have new: "is_new_logic (flags (account who s))" by (rule books_new_logic [OF ok])
  have "mutate_closure cfg no_drop who True (\<lambda>a _. ret ((), a\<lparr>frozen := ?ff\<rparr>)) None s = (Inl DE_NoProviders, s)"
    using prov ff un(2)
    by (simp add: mutate_closure_def Let_def bindE_def ret_def update_refs_eq inc_consumers_without_limit_eq
        providers_of_def account_data_default_def)
  then have m: "mutate_account cfg no_drop who True (\<lambda>b. ((), b\<lparr>frozen := ?ff\<rparr>)) s = (Inl DE_NoProviders, s)"
    using un(1) new
    by (simp add: mutate_account_def try_mutate_account_def monad bindE_def ensure_upgraded_noop
        store_try_mutate_exists_def account_def store_get_def)
  have "frozen (account who s) = 0" using un(1) by (simp add: account_data_default_def)
  moreover have "0 < ?ff" using ff by (simp add: word_gt_0)
  ultimately show ?thesis
    unfolding update_locks_def Let_def m using ne by (simp add: saturating_sub_def)
qed

lemma set_lock_unprovided:
  assumes ok: "books cfg c 0 s" and prov: "providers_of who s = 0"
    and t: "t = set_lock cfg i who amount rsn s" and pos: "amount \<noteq> 0" "rsn \<noteq> 0"
  shows "map_of (map (\<lambda>l. (lock_id l, lock_amount l)) (locks who t)) =
      (map_of (map (\<lambda>l. (lock_id l, lock_amount l)) (locks who s)))(i \<mapsto> amount)"
    "account k t = account k s" "frozen (account who t) = 0"
    "\<exists>x. amount \<le> x \<and> t = deposit_event (Balances (Ev_Locked who x))
      ((deposit_event (Balances (Ev_Unexpected FailedToMutateAccount)) s)\<lparr>locks_map := locks_map t\<rparr>)"
proof -
  let ?new = "\<lparr>lock_id = i, lock_amount = amount, lock_reasons = reasons_from rsn\<rparr>"
  let ?ls = "take_lock (\<lambda>_ nl. nl) i (Some ?new) (locks who s)"
  let ?ff = "frozen_for ?ls (freezes_of who s)"
  have bal: "balances_ok cfg s" using ok by (simp add: books_def)
  have mem: "?new \<in> set ?ls" by (rule take_lock_in) simp_all
  then have ge: "amount \<le> ?ff" using frozen_for_ge(1) by fastforce
  with pos have "?ff \<noteq> 0" by auto
  moreover have "?ls \<noteq> []" using mem by auto
  ultimately have u: "t = deposit_event (Balances (Ev_Locked who ?ff))
      ((deposit_event (Balances (Ev_Unexpected FailedToMutateAccount)) s)\<lparr>locks_map := (locks_map s)(who \<mapsto> ?ls)\<rparr>)"
    using update_locks_unprovided [OF bal prov] t pos by (simp add: set_lock_def Let_def)
  have core: "core t = core (s\<lparr>locks_map := (locks_map s)(who \<mapsto> ?ls)\<rparr>)"
    unfolding u by (simp add: core_def deposit_event_def Let_def split: option.split)
  note c = core_eqD [OF core]
  have lm: "locks_map t = (locks_map s)(who \<mapsto> ?ls)" using c by simp
  then have "locks who t = ?ls" by (simp add: locks_def storage_get_def)
  then show "map_of (map (\<lambda>l. (lock_id l, lock_amount l)) (locks who t)) =
      (map_of (map (\<lambda>l. (lock_id l, lock_amount l)) (locks who s)))(i \<mapsto> amount)"
    using map_of_take_lock [of ?new i] by simp
  show acc: "account k t = account k s" for k
    using c(1) by (intro account_cong) simp
  show "frozen (account who t) = 0" using acc unprovided_account(1) [OF bal prov] by (simp add: account_data_default_def)
  show "\<exists>x. amount \<le> x \<and> t = deposit_event (Balances (Ev_Locked who x))
      ((deposit_event (Balances (Ev_Unexpected FailedToMutateAccount)) s)\<lparr>locks_map := locks_map t\<rparr>)"
    using u ge lm by (intro exI [of _ ?ff] conjI) simp_all
qed

end

section \<open>Properties\<close>

lemma named_ok_two_accounts: "named_ok (two_accounts x y)"
  by (simp add: named_ok_def reserves_def storage_get_def two_accounts_def empty_runtime_def named_sum_def)

text \<open>
  Looking up a named reserve by bisection, which inspects logarithmically many entries
  and always terminates, returns what a linear search through the account's reserves returns.
\<close>

lemma reserved_balance_named_find:
  assumes "named_ok s"
  shows "reserved_balance_named i who s =
    (case find (\<lambda>r. reserve_id r = i) (reserves who s) of None \<Rightarrow> 0 | Some r \<Rightarrow> reserve_amount r)"
  using named_amount [OF assms] by (simp add: amount_of_def)

text \<open>
  C23. The named reserves of every account stay sorted by identifier and backed by its reserved
  balance through \<open>reserve_named\<close>, which adds exactly the amount to the one named reserve.
\<close>

theorem reserve_named_backed:
  assumes "books_cfg cfg" "books cfg c 0 s" "named_ok s" "reserve_named cfg i who value s = (Inr x, t)"
  shows "books cfg c 0 t \<and>
    named_ok t \<and>
    (unat (reserved_balance_named j who t) = unat (reserved_balance_named j who s) + (if j = i then unat value else 0))"
  using books_cfg.reserve_named_Ok [OF assms(1,4,2,3), of j] by auto

theorem reserve_named_backed_witness:
  "named_ok (snd (reserve_named (test_default_config 1 3 3 :: (nat, unit) cfg) 7 1 30 (two_accounts 50 20)))"
proof -
  let ?cfg = "test_default_config 1 3 3 :: (nat, unit) cfg"
  have "fst (reserve_named ?cfg 7 1 30 (two_accounts 50 20)) = Inr ()" by code_simp
  moreover have "books ?cfg 0 0 (two_accounts 50 20)"
    by (rule books_two_accounts) (simp_all add: test_default_config_def)
  ultimately show ?thesis
    using reserve_named_backed [OF default_cfg.books_cfg_axioms, of 3 3 0 "two_accounts 50 20" 7 1 30 "()"
      "snd (reserve_named ?cfg 7 1 30 (two_accounts 50 20))"] named_ok_two_accounts
    by (simp add: prod_eq_iff)
qed

text \<open>
  C24. Unreserving from a named reserve reports exactly what the named reserve could not cover,
  takes the rest from this named reserve alone, and keeps the named reserves sorted and backed:
  the remainder that the code subtracts defensively is always zero.
\<close>

theorem unreserve_named_exact:
  assumes "books_cfg cfg" "books cfg c 0 s" "named_ok s" "unreserve_named cfg i who value s = (rest, t)"
  shows "books cfg c 0 t \<and>
    named_ok t \<and>
    unat rest = unat value - unat (reserved_balance_named i who s) \<and>
    (reserved_balance_named j who t = reserved_balance_named j who s - (if j = i then value - rest else 0))"
  using books_cfg.unreserve_named_Ok [OF assms(1,4,2,3), of j] by auto

theorem unreserve_named_exact_witness:
  "named_ok (snd (unreserve_named (test_default_config 1 3 3 :: (nat, unit) cfg) 7 1 40
     (snd (reserve_named (test_default_config 1 3 3) 7 1 30 (two_accounts 50 20)))))"
proof -
  let ?cfg = "test_default_config 1 3 3 :: (nat, unit) cfg"
  let ?t = "snd (reserve_named ?cfg 7 1 30 (two_accounts 50 20))"
  have run: "fst (reserve_named ?cfg 7 1 30 (two_accounts 50 20)) = Inr ()" "fst (unreserve_named ?cfg 7 1 40 ?t) = 10"
    by code_simp+
  have "books ?cfg 0 0 (two_accounts 50 20)"
    by (rule books_two_accounts) (simp_all add: test_default_config_def)
  then have "books ?cfg 0 0 ?t \<and> named_ok ?t"
    using default_cfg.reserve_named_Ok [of 3 3 7 1 30 "two_accounts 50 20" "()" ?t 0] run(1) named_ok_two_accounts
    by (simp add: prod_eq_iff)
  then show ?thesis
    using unreserve_named_exact [OF default_cfg.books_cfg_axioms, of 3 3 0 ?t 7 1 40 10 "snd (unreserve_named ?cfg 7 1 40 ?t)"] run(2)
    by (simp add: prod_eq_iff)
qed

text \<open>
  C25. Setting a lock on an account that exists takes effect: the amount is frozen, the lock
  is the only one with its identifier that counts, and the frozen balance of every account is
  still the largest of its locks and freezes.
\<close>

theorem set_lock_effective:
  assumes "books_cfg cfg" "books cfg c 0 s" "frozen_ok s" "providers_of who s \<noteq> 0" "amount \<noteq> 0" "rsn \<noteq> 0"
  shows "books cfg c 0 (set_lock cfg i who amount rsn s) \<and>
    frozen_ok (set_lock cfg i who amount rsn s) \<and>
    amount \<le> frozen (account who (set_lock cfg i who amount rsn s)) \<and>
    map_of (map (\<lambda>l. (lock_id l, lock_amount l)) (locks who (set_lock cfg i who amount rsn s))) =
      (map_of (map (\<lambda>l. (lock_id l, lock_amount l)) (locks who s)))(i \<mapsto> amount)"
  using books_cfg.set_lock_Ok [OF assms(1,2,3,4) refl assms(5,6), of i] by auto

theorem set_lock_effective_witness:
  "30 \<le> frozen (account 1 (set_lock (test_default_config 1 3 3 :: (nat, unit) cfg) [1] 1 30 3 (two_accounts 50 20)))"
proof -
  let ?cfg = "test_default_config 1 3 3 :: (nat, unit) cfg"
  have "books ?cfg 0 0 (two_accounts 50 20)"
    by (rule books_two_accounts) (simp_all add: test_default_config_def)
  moreover have "providers_of 1 (two_accounts 50 20) \<noteq> 0" by code_simp
  ultimately show ?thesis
    using set_lock_effective [OF default_cfg.books_cfg_axioms, of 3 3 0 "two_accounts 50 20" 1 30 3 "[1]"]
      claims_two_accounts(2) by simp
qed

text \<open>
  C26. A lock on an account without a provider is stored without being enforced: freezing the
  balance fails, although the call forces the consumer reference so that it cannot fail. The
  lock is recorded, no account changes, the frozen balance stays zero, and of the two events
  deposited the second says that at least the amount was locked.
\<close>

theorem set_lock_not_enforced:
  assumes "books_cfg cfg" "books cfg c 0 s" "providers_of who s = 0" "amount \<noteq> 0" "rsn \<noteq> 0"
    "t = set_lock cfg i who amount rsn s"
  shows "map_of (map (\<lambda>l. (lock_id l, lock_amount l)) (locks who t)) i = Some amount \<and>
    frozen (account who t) = 0 \<and> (\<forall>k. account k t = account k s) \<and>
    (\<exists>x. amount \<le> x \<and> t = deposit_event (Balances (Ev_Locked who x))
      ((deposit_event (Balances (Ev_Unexpected FailedToMutateAccount)) s)\<lparr>locks_map := locks_map t\<rparr>))"
  using books_cfg.set_lock_unprovided [OF assms(1-3,6,4,5)] by simp

theorem set_lock_not_enforced_witness:
  "frozen (account 3 (set_lock (test_default_config 1 3 3 :: (nat, unit) cfg) [1] 3 30 3 (two_accounts 50 20))) = 0"
proof -
  let ?cfg = "test_default_config 1 3 3 :: (nat, unit) cfg"
  have "books ?cfg 0 0 (two_accounts 50 20)"
    by (rule books_two_accounts) (simp_all add: test_default_config_def)
  moreover have "providers_of 3 (two_accounts 50 20) = 0" by code_simp
  ultimately show ?thesis
    using set_lock_not_enforced [OF default_cfg.books_cfg_axioms, of 3 3 0 "two_accounts 50 20" 3 30 3 _ "[1]", OF _ _ _ _ refl]
    by fastforce
qed

end
