(* ===== verification/Helpers128.thy ===== *)
theory Helpers128
  imports Prelude
begin

text \<open>
  The 128-bit helpers of the arithmetic primitives (\<open>primitives/arithmetic/src/helpers_128bit.rs\<close>):
  binary greatest common divisor, integer square root, 256-bit products and quotients, and the
  multiplication by a rational number that the fixed-point types rest on.

  The lemmas relate each of them to the natural numbers: the machine arithmetic, in which every
  step could wrap around, computes the exact result, and the loops terminate.
\<close>

unbundle bit_operations_syntax

section \<open>Conversions between widths\<close>

lemma unat_cast: "unat (ucast (x :: 'a::len word) :: 'b::len word) = unat x mod 2 ^ LENGTH('b)"
  by (simp add: unsigned_ucast_eq take_bit_eq_mod)

lemma unat_cast_fits: "unat x < 2 ^ LENGTH('b) \<Longrightarrow> unat (ucast (x :: 'a::len word) :: 'b::len word) = unat x"
  by (simp add: unat_cast)

lemma unat_cast_up:
  assumes "LENGTH('a) \<le> LENGTH('b)"
  shows "unat (ucast (x :: 'a::len word) :: 'b::len word) = unat x"
proof -
  have "(2 :: nat) ^ LENGTH('a) \<le> 2 ^ LENGTH('b)" using assms by (intro power_increasing) simp_all
  then show ?thesis using unat_less_power [of x] by (intro unat_cast_fits) (rule less_le_trans)
qed

section \<open>Rounding\<close>

datatype rounding = Up | Down | NearestPrefUp | NearestPrefDown

datatype signed_rounding =
    High | Low | NearestPrefHigh | NearestPrefLow | Major | Minor | NearestPrefMajor | NearestPrefMinor

fun from_signed :: "signed_rounding \<Rightarrow> bool \<Rightarrow> rounding" where
  "from_signed Low True = Up"
| "from_signed Major _ = Up"
| "from_signed High False = Up"
| "from_signed High True = Down"
| "from_signed Minor _ = Down"
| "from_signed Low False = Down"
| "from_signed NearestPrefMajor _ = NearestPrefUp"
| "from_signed NearestPrefHigh False = NearestPrefUp"
| "from_signed NearestPrefLow True = NearestPrefUp"
| "from_signed NearestPrefMinor _ = NearestPrefDown"
| "from_signed NearestPrefLow False = NearestPrefDown"
| "from_signed NearestPrefHigh True = NearestPrefDown"

section \<open>Greatest common divisor\<close>

function gcd_u128 :: "u128 \<Rightarrow> u128 \<Rightarrow> u128" where
  "gcd_u128 a b =
     (if a = b then b
      else if a = 0 then b
      else if b = 0 then a
      else if a AND 1 = 0 \<and> b AND 1 = 1 then gcd_u128 (drop_bit 1 a) b
      else if a AND 1 = 1 \<and> b AND 1 = 0 then gcd_u128 (drop_bit 1 b) a
      else if a AND 1 = 0 \<and> b AND 1 = 0 then push_bit 1 (gcd_u128 (drop_bit 1 a) (drop_bit 1 b))
      else let x = min a b; y = max a b in gcd_u128 (drop_bit 1 (y - x)) x)"
  by pat_completeness auto

lemma unat_drop_bit: "unat (drop_bit n (a :: 'w::len word)) = unat a div 2 ^ n"
  by (simp only: unat_drop_bit_eq) (rule drop_bit_eq_div)

lemma unat_half_less: "a \<noteq> 0 \<Longrightarrow> unat (drop_bit 1 (a :: 'w::len word)) < unat a"
  unfolding unat_drop_bit by (simp add: unat_gt_0)

termination gcd_u128
proof (relation "measure (\<lambda>(a, b). unat a + unat b)")
  fix a b x y :: u128
  assume "a \<noteq> b" "a \<noteq> 0" "b \<noteq> 0" and x: "x = min a b" and y: "y = max a b"
  then have "unat x < unat y" by (auto simp: x y min_def max_def word_le_nat_alt word_unat_eq_iff)
  then have "unat (y - x) = unat y - unat x" "0 < unat y" by (simp_all add: unat_sub word_le_nat_alt)
  then have "unat (drop_bit 1 (y - x)) < unat y" by (simp add: unat_drop_bit)
  moreover have "unat x + unat y = unat a + unat b" by (simp add: x y unat_min unat_max)
  ultimately show "((drop_bit 1 (y - x), x), a, b) \<in> measure (\<lambda>(a, b). unat a + unat b)" by simp
next
  fix a b :: u128
  assume "a \<noteq> 0"
  from unat_half_less [OF this] show "((drop_bit 1 a, b), a, b) \<in> measure (\<lambda>(a, b). unat a + unat b)"
    by (simp only: in_measure case_prod_conv; linarith)
next
  fix a b :: u128
  assume "b \<noteq> 0"
  from unat_half_less [OF this] show "((drop_bit 1 b, a), a, b) \<in> measure (\<lambda>(a, b). unat a + unat b)"
    by (simp only: in_measure case_prod_conv; linarith)
next
  fix a b :: u128
  assume "a \<noteq> 0" "b \<noteq> 0"
  from this [THEN unat_half_less]
  show "((drop_bit 1 a, drop_bit 1 b), a, b) \<in> measure (\<lambda>(a, b). unat a + unat b)"
    by (simp only: in_measure case_prod_conv; linarith)
qed simp

section \<open>Square root\<close>

text \<open>The number of leading zeros, counted from the highest bit.\<close>

primrec zeros_from :: "nat \<Rightarrow> 'w::len word \<Rightarrow> nat" where
  "zeros_from 0 n = 0"
| "zeros_from (Suc k) n = (if bit n k then 0 else Suc (zeros_from k n))"

definition leading_zeros :: "'w::len word \<Rightarrow> nat" where
  "leading_zeros n = zeros_from LENGTH('w) n"

function sqrt_loop :: "u128 \<Rightarrow> u128 \<Rightarrow> u128 \<Rightarrow> u128" where
  "sqrt_loop n result bt =
     (if bt = 0 then result
      else if result + bt \<le> n
      then sqrt_loop (n - (result + bt)) (drop_bit 1 result + bt) (drop_bit 2 bt)
      else sqrt_loop n (drop_bit 1 result) (drop_bit 2 bt))"
  by pat_completeness auto
termination
  by (relation "measure (\<lambda>(_, _, bt). unat bt)") (auto simp: unat_drop_bit unat_gt_0 [symmetric] simp del: unat_gt_0)

definition sqrt_u128 :: "u128 \<Rightarrow> u128" where
  "sqrt_u128 n =
     (if n = 0 then 0
      else
        let max_shift = leading_zeros (0 :: u128) - 1;
            shift = (max_shift - leading_zeros n) - (max_shift - leading_zeros n) mod 2;
            bt = push_bit shift 1
        in sqrt_loop n 0 bt)"

section \<open>Double width\<close>

definition low_64 :: "u128 \<Rightarrow> u128" where
  "low_64 a = a AND (push_bit 64 1 - 1)"

definition high_64 :: "u128 \<Rightarrow> u128" where
  "high_64 a = drop_bit 64 a"

definition neg128 :: "u128 \<Rightarrow> u128" where
  "neg128 a = NOT a + 1"

definition div128 :: "u128 \<Rightarrow> u128" where
  "div128 a = neg128 a div a + 1"

definition mod128 :: "u128 \<Rightarrow> u128" where
  "mod128 a = neg128 a mod a"

record double128 =
  d_high :: u128
  d_low :: u128

definition try_into_u128 :: "double128 \<Rightarrow> u128 option" where
  "try_into_u128 d = (if d_high d = 0 then Some (d_low d) else None)"

definition d_zero :: double128 where
  "d_zero = \<lparr>d_high = 0, d_low = 0\<rparr>"

definition left_shift_64 :: "u128 \<Rightarrow> double128" where
  "left_shift_64 scaled_value = \<lparr>d_high = drop_bit 64 scaled_value, d_low = push_bit 64 scaled_value\<rparr>"

definition from_low :: "u128 \<Rightarrow> double128" where
  "from_low low = \<lparr>d_high = 0, d_low = low\<rparr>"

definition low_part :: "double128 \<Rightarrow> double128" where
  "low_part d = d\<lparr>d_high := 0\<rparr>"

text \<open>\<open>overflowing_add\<close> of the standard library: the wrapped sum and whether it wrapped.\<close>

definition overflowing_add :: "'w::len word \<Rightarrow> 'w word \<Rightarrow> 'w word \<times> bool" where
  "overflowing_add a b = (a + b, a + b < a)"

definition d_add :: "double128 \<Rightarrow> double128 \<Rightarrow> double128" where
  "d_add a b =
     (let (low, overflow) = overflowing_add (d_low a) (d_low b);
          carry = (if overflow then 1 else 0);
          high = (d_high a + d_high b) + carry
      in \<lparr>d_high = high, d_low = low\<rparr>)"

definition product_of :: "u128 \<Rightarrow> u128 \<Rightarrow> double128" where
  "product_of a b =
     (let a_low = low_64 a; a_high = high_64 a;
          b_low = low_64 b; b_high = high_64 b;
          f = a_low * b_low; o' = a_low * b_high; i = a_high * b_low; l = a_high * b_high;
          fl = \<lparr>d_high = l, d_low = f\<rparr>
      in d_add (d_add fl (left_shift_64 i)) (left_shift_64 o'))"

section \<open>Values of the double-width operations\<close>

definition d_val :: "double128 \<Rightarrow> nat" where
  "d_val d = unat (d_high d) * 2 ^ 128 + unat (d_low d)"

lemma d_val_less: "d_val d < 2 ^ 256"
proof -
  have "unat (d_high d) \<le> 2 ^ 128 - 1" "unat (d_low d) < 2 ^ 128"
    using unat_less_power [of "d_high d"] unat_less_power [of "d_low d"] by simp_all
  then have "d_val d < (2 ^ 128 - 1) * 2 ^ 128 + 2 ^ 128" unfolding d_val_def by (intro add_le_less_mono mult_right_mono) auto
  then show ?thesis by simp
qed

lemma mod_split:
  assumes "(r :: nat) < M"
  shows "(q * M + r) mod (M * M) = q mod M * M + r"
  using assms mod_mult2_eq [of "q * M + r" M M] by (simp add: mult.commute)

lemma overflowing_add_eq:
  "overflowing_add a b = (c, ov) \<Longrightarrow>
     unat (a :: 'w::len word) + unat b = (if ov then 2 ^ LENGTH('w) else 0) + unat c"
proof -
  assume "overflowing_add a b = (c, ov)"
  then have c: "c = a + b" "ov \<longleftrightarrow> \<not> unat a + unat b < 2 ^ LENGTH('w)"
    by (auto simp: overflowing_add_def no_olen_add_nat [symmetric] not_le)
  have "unat a + unat b - 2 ^ LENGTH('w) < 2 ^ LENGTH('w)" if ov
    using that unat_less_power [of a] unat_less_power [of b] by linarith
  with c show ?thesis by (auto simp: unat_word_ariths le_mod_geq)
qed

lemma d_val_add: "d_val (d_add x y) = (d_val x + d_val y) mod 2 ^ 256"
proof -
  obtain low ov where lo: "overflowing_add (d_low x) (d_low y) = (low, ov)" by fastforce
  define c :: nat where "c = (if ov then 1 else 0)"
  let ?M = "(2 :: nat) ^ 128"
  have l: "unat (d_low x) + unat (d_low y) = c * ?M + unat low"
    using overflowing_add_eq [OF lo] by (simp add: c_def)
  have h: "unat (d_high x + d_high y + (if ov then 1 else 0)) = (unat (d_high x) + unat (d_high y) + c) mod ?M"
    by (simp add: c_def unat_word_ariths mod_add_left_eq)
  have "d_val x + d_val y = (unat (d_high x) + unat (d_high y) + c) * ?M + unat low"
    using l by (simp add: d_val_def algebra_simps)
  moreover have "?M * ?M = 2 ^ 256" by simp
  moreover have "d_val (d_add x y) = (unat (d_high x) + unat (d_high y) + c) mod ?M * ?M + unat low"
    using lo h by (simp add: d_add_def d_val_def)
  ultimately show ?thesis
    using mod_split [of "unat low" ?M "unat (d_high x) + unat (d_high y) + c"] unat_less_power [of low] by simp
qed

lemma d_val_add_exact: "d_val x + d_val y < 2 ^ 256 \<Longrightarrow> d_val (d_add x y) = d_val x + d_val y"
  by (simp add: d_val_add)

lemma d_val_simps [simp]:
  "d_val (from_low a) = unat a" "d_val d_zero = 0" "d_val (low_part d) = unat (d_low d)"
  by (simp_all add: d_val_def from_low_def d_zero_def low_part_def)

lemma unat_low_64: "unat (low_64 a) = unat a mod 2 ^ 64"
proof -
  have "low_64 a = take_bit 64 a" by (simp add: low_64_def take_bit_eq_mask mask_eq_exp_minus_1 push_bit_eq_mult)
  then have "unat (low_64 a) = take_bit 64 (unat a)" by (simp only: unsigned_take_bit_eq)
  then show ?thesis by (simp only: take_bit_eq_mod)
qed

lemma unat_high_64: "unat (high_64 a) = unat a div 2 ^ 64"
  by (simp only: high_64_def unat_drop_bit)

lemma d_val_left_shift: "d_val (left_shift_64 a) = unat a * 2 ^ 64"
proof -
  have "unat (push_bit 64 a) = unat a * 2 ^ 64 mod 2 ^ 128"
    by (simp add: push_bit_eq_mult unat_word_ariths)
  also have "\<dots> = unat a mod 2 ^ 64 * 2 ^ 64"
    using mult_mod_left [of "unat a" "2 ^ 64" "2 ^ 64"] by simp
  finally have "d_val (left_shift_64 a) = unat a div 2 ^ 64 * 2 ^ 64 * 2 ^ 64 + unat a mod 2 ^ 64 * 2 ^ 64"
    unfolding d_val_def left_shift_64_def by (simp add: unat_drop_bit del: drop_bit_eq_div)
  also have "\<dots> = (unat a div 2 ^ 64 * 2 ^ 64 + unat a mod 2 ^ 64) * 2 ^ 64"
    by (simp only: add_mult_distrib)
  also have "\<dots> = unat a * 2 ^ 64" by (simp only: div_mult_mod_eq)
  finally show ?thesis .
qed

lemma unat_mult_small:
  assumes "unat (a :: u128) < 2 ^ 64" "unat b < 2 ^ 64"
  shows "unat (a * b) = unat a * unat b"
proof -
  have "unat a * unat b \<le> (2 ^ 64 - 1) * (2 ^ 64 - 1)" using assms by (intro mult_mono) simp_all
  then have "unat a * unat b < 2 ^ LENGTH(128)" by simp
  then show ?thesis by (rule unat_mult_lem [THEN iffD1])
qed

text \<open>The 256-bit product is exact.\<close>

lemma d_val_product: "d_val (product_of a b) = unat a * unat b"
proof -
  define al ah bl bh where "al = unat (low_64 a)" and "ah = unat (high_64 a)"
    and "bl = unat (low_64 b)" and "bh = unat (high_64 b)"
  have bnd: "al < 2 ^ 64" "ah < 2 ^ 64" "bl < 2 ^ 64" "bh < 2 ^ 64"
    unfolding al_def ah_def bl_def bh_def unat_low_64 unat_high_64
    using unat_less_power [of a] unat_less_power [of b] by (simp_all add: less_mult_imp_div_less)
  have a: "unat a = ah * 2 ^ 64 + al" and b: "unat b = bh * 2 ^ 64 + bl"
    unfolding al_def ah_def bl_def bh_def unat_low_64 unat_high_64 by (simp_all only: div_mult_mod_eq)
  have m: "unat (low_64 a * low_64 b) = al * bl" "unat (low_64 a * high_64 b) = al * bh"
    "unat (high_64 a * low_64 b) = ah * bl" "unat (high_64 a * high_64 b) = ah * bh"
    using bnd unfolding al_def ah_def bl_def bh_def by (simp_all add: unat_mult_small)
  let ?fl = "\<lparr>d_high = high_64 a * high_64 b, d_low = low_64 a * low_64 b\<rparr>"
  let ?i = "left_shift_64 (high_64 a * low_64 b)" and ?o = "left_shift_64 (low_64 a * high_64 b)"
  have v: "d_val ?fl = ah * bh * 2 ^ 128 + al * bl" "d_val ?i = ah * bl * 2 ^ 64" "d_val ?o = al * bh * 2 ^ 64"
    by (simp_all only: d_val_left_shift m) (simp add: d_val_def m)
  have sum: "d_val ?fl + d_val ?i + d_val ?o = unat a * unat b"
    unfolding v a b by (simp add: algebra_simps)
  have "unat a * unat b \<le> (2 ^ 128 - 1) * (2 ^ 128 - 1)"
    using unat_less_power [of a] unat_less_power [of b] by (intro mult_mono) simp_all
  then have "unat a * unat b < 2 ^ 256" by simp
  with sum show ?thesis
    unfolding product_of_def Let_def by (simp add: d_val_add_exact)
qed

function div_loop :: "u128 \<Rightarrow> u128 \<Rightarrow> double128 \<Rightarrow> double128 \<Rightarrow> double128 \<times> double128" where
  "div_loop q r x a =
     (if d_high a = 0 then (x, a)
      else div_loop q r (d_add x (product_of (d_high a) q)) (d_add (product_of (d_high a) r) (low_part a)))"
  by pat_completeness auto

text \<open>One round of the division: the high half is folded into a smaller number.\<close>

lemma fold_high:
  "d_val (d_add (product_of (d_high a) r) (low_part a)) = unat (d_high a) * unat r + unat (d_low a)"
  "unat (d_high a) * unat r + unat (d_low a) + unat (d_high a) \<le> d_val a"
proof -
  have "unat (d_high a) * Suc (unat r) \<le> unat (d_high a) * 2 ^ 128"
    using unat_less_power [of r] by (intro mult_left_mono) auto
  then show le: "unat (d_high a) * unat r + unat (d_low a) + unat (d_high a) \<le> d_val a"
    by (simp add: d_val_def)
  show "d_val (d_add (product_of (d_high a) r) (low_part a)) = unat (d_high a) * unat r + unat (d_low a)"
    using le d_val_less [of a] by (subst d_val_add_exact) (simp_all add: d_val_product)
qed

termination div_loop
proof (relation "measure (\<lambda>(_, _, _, a). d_val a)")
  fix q r :: u128 and x a :: double128
  assume "d_high a \<noteq> 0"
  then have "0 < unat (d_high a)" by (simp add: unat_gt_0)
  with fold_high [of a r]
  show "((q, r, d_add x (product_of (d_high a) q), d_add (product_of (d_high a) r) (low_part a)), q, r, x, a)
      \<in> measure (\<lambda>(_, _, _, a). d_val a)" by simp
qed simp

declare div_loop.simps [simp del]

definition d_div :: "double128 \<Rightarrow> u128 \<Rightarrow> double128 \<times> u128" where
  "d_div self rhs =
     (if rhs = 1 then (self, 0)
      else
        let q = div128 rhs; r = mod128 rhs;
            (x, self) = div_loop q r d_zero self
        in (d_add x (from_low (d_low self div rhs)), d_low self mod rhs))"

definition multiply_by_rational_with_rounding :: "u128 \<Rightarrow> u128 \<Rightarrow> u128 \<Rightarrow> rounding \<Rightarrow> u128 option" where
  "multiply_by_rational_with_rounding a b c r =
     (if c = 0 then None
      else
        let (result, remainder) = d_div (product_of a b) c in
        case try_into_u128 result of
          None \<Rightarrow> None
        | Some result \<Rightarrow>
            if (case r of
                  Up \<Rightarrow> 0 < remainder
                | NearestPrefUp \<Rightarrow> c div 2 + c mod 2 \<le> remainder
                | NearestPrefDown \<Rightarrow> c div 2 < remainder
                | Down \<Rightarrow> False)
            then checked_add result 1
            else Some result)"

section \<open>Division is exact\<close>

lemma two_power_div:
  assumes "1 < unat b"
  shows "unat (div128 b) = 2 ^ 128 div unat b" "unat (mod128 b) = 2 ^ 128 mod unat b"
proof -
  have "neg128 b = 0 - b" by (simp add: neg128_def minus_eq_not_plus_1)
  then have neg: "unat (neg128 b) = 2 ^ 128 - unat b"
    using assms by (simp only: unat_sub_if') simp
  have le: "unat b \<le> 2 ^ 128" using unat_less_power [of b] by simp
  have "unat (neg128 b div b) + 1 = 2 ^ 128 div unat b"
    using le_div_geq [OF _ le] assms neg by (simp add: unat_div)
  moreover have "2 ^ 128 div unat b \<le> 2 ^ 128 div 2" using assms by (intro div_le_mono2) simp_all
  ultimately show "unat (div128 b) = 2 ^ 128 div unat b"
    unfolding div128_def by (simp add: unat_word_ariths)
  show "unat (mod128 b) = 2 ^ 128 mod unat b"
    using le_mod_geq [OF le] neg by (simp add: mod128_def unat_mod)
qed

text \<open>The loop keeps quotient and remainder.\<close>

lemma div_loop_exact:
  assumes b: "0 < b" and q: "2 ^ 128 = unat q * b + unat r"
    and fits: "d_val x + d_val a div b < 2 ^ 256" and run: "div_loop q r x a = (x', a')"
  shows "d_high a' = 0 \<and> d_val x' + d_val a' div b = d_val x + d_val a div b \<and> d_val a' mod b = d_val a mod b"
  using q fits run
proof (induction q r x a arbitrary: x' a' rule: div_loop.induct)
  case (1 q r x a)
  show ?case
  proof (cases "d_high a = 0")
    case True
    with 1 show ?thesis by (simp add: div_loop.simps)
  next
    case False
    let ?x = "d_add x (product_of (d_high a) q)" and ?a = "d_add (product_of (d_high a) r) (low_part a)"
    let ?h = "unat (d_high a)"
    have "d_val a = ?h * (unat q * b + unat r) + unat (d_low a)"
      unfolding d_val_def 1(2) ..
    then have "d_val a = (unat (d_low a) + ?h * unat r) + b * (?h * unat q)" by (simp add: algebra_simps)
    then have a: "d_val a div b = ?h * unat q + d_val ?a div b" "d_val a mod b = d_val ?a mod b"
      using b by (simp_all add: fold_high(1) add.commute)
    then have x: "d_val ?x = d_val x + ?h * unat q"
      using 1(3) by (subst d_val_add_exact) (simp_all add: d_val_product)
    have "div_loop q r ?x ?a = (x', a')" using 1(4) False by (simp add: div_loop.simps [of q r x a])
    moreover have "d_val ?x + d_val ?a div b < 2 ^ 256" using 1(3) a x by simp
    ultimately have "d_high a' = 0 \<and> d_val x' + d_val a' div b = d_val ?x + d_val ?a div b \<and>
        d_val a' mod b = d_val ?a mod b"
      using 1(1) [OF False 1(2)] by blast
    with a x show ?thesis by simp
  qed
qed

lemma d_div_exact:
  assumes "rhs \<noteq> 0" "d_div d rhs = (x, r)"
  shows "d_val x = d_val d div unat rhs" "unat r = d_val d mod unat rhs"
proof -
  have pos: "0 < unat rhs" using assms(1) by (simp add: unat_gt_0)
  have "d_val x = d_val d div unat rhs \<and> unat r = d_val d mod unat rhs"
  proof (cases "rhs = 1")
    case True
    with assms show ?thesis by (simp add: d_div_def)
  next
    case False
    then have "unat rhs \<noteq> unat (1 :: u128)" by (simp only: word_unat_eq_iff not_False_eq_True)
    then have "1 < unat rhs" using pos by simp
    note pow = two_power_div [OF this]
    obtain y a where loop: "div_loop (div128 rhs) (mod128 rhs) d_zero d = (y, a)" by fastforce
    have "d_val d_zero + d_val d div unat rhs < 2 ^ 256"
      using d_val_less [of d] div_le_dividend [of "d_val d" "unat rhs"] by (simp del: div_le_dividend)
    from div_loop_exact [OF pos _ this loop] pow have
      ex: "d_high a = 0" "d_val y + d_val a div unat rhs = d_val d div unat rhs" "d_val a mod unat rhs = d_val d mod unat rhs"
      by simp_all
    from ex(1) have low: "d_val a = unat (d_low a)" by (simp add: d_val_def)
    have x: "x = d_add y (from_low (d_low a div rhs))" "r = d_low a mod rhs"
      using assms(2) False loop by (simp_all add: d_div_def)
    have "d_val y + d_val a div unat rhs < 2 ^ 256"
      using ex(2) d_val_less [of d] div_le_dividend [of "d_val d" "unat rhs"] by (simp del: div_le_dividend)
    then have "d_val x = d_val d div unat rhs"
      unfolding x(1) using ex(2) low by (subst d_val_add_exact) (simp_all add: unat_div)
    then show ?thesis using ex(3) low x(2) by (simp add: unat_mod)
  qed
  then show "d_val x = d_val d div unat rhs" "unat r = d_val d mod unat rhs" by auto
qed

section \<open>Multiplication by a rational\<close>

text \<open>The reference: divide, and round as asked.\<close>

definition round_div :: "rounding \<Rightarrow> nat \<Rightarrow> nat \<Rightarrow> nat" where
  "round_div r n d =
     n div d + (if (case r of
        Up \<Rightarrow> 0 < n mod d | NearestPrefUp \<Rightarrow> d \<le> 2 * (n mod d)
      | NearestPrefDown \<Rightarrow> d < 2 * (n mod d) | Down \<Rightarrow> False) then 1 else 0)"

lemma half_tests:
  "(c div 2 + c mod 2 \<le> m) = (c \<le> 2 * m)" "(c div 2 < m) = (c < 2 * m)" for c m :: nat
  by presburger+

lemma unat_half:
  assumes "1 < LENGTH('w)"
  shows "unat (c div 2 + c mod 2 :: 'w::len word) = unat c div 2 + unat c mod 2"
    and "unat (c div 2 :: 'w::len word) = unat c div 2"
proof -
  have two: "unat (2 :: 'w word) = 2"
  proof -
    have "(2 :: nat) ^ 1 < 2 ^ LENGTH('w)" using assms by (intro power_strict_increasing) simp_all
    then show ?thesis using unat_of_nat [of 2, where 'a = 'w] by simp
  qed
  show h: "unat (c div 2) = unat c div 2" by (simp only: unat_div two)
  have m: "unat (c mod 2) = unat c mod 2" by (simp only: unat_mod two)
  have "unat c div 2 + unat c mod 2 \<le> unat c" by presburger
  then have "unat (c div 2) + unat (c mod 2) < 2 ^ LENGTH('w)"
    unfolding h m using unat_less_power [of c] by (rule order.strict_trans1)
  then have "unat (c div 2 + c mod 2) = unat (c div 2) + unat (c mod 2)" by (rule unat_add_lem [THEN iffD1])
  then show "unat (c div 2 + c mod 2) = unat c div 2 + unat c mod 2" by (simp only: h m)
qed

lemmas unat_half_128 = unat_half [where 'w = 128, simplified]

text \<open>Facts of the reference rounding.\<close>

lemma round_div_add: "0 < d \<Longrightarrow> round_div r (d * k + n) d = k + round_div r n d"
  by (cases r) (simp_all add: round_div_def)

lemma round_div_le: "0 < d \<Longrightarrow> n \<le> k * d \<Longrightarrow> round_div r n d \<le> k"
proof -
  assume d: "0 < d" and le: "n \<le> k * d"
  have "n div d \<le> k" using le d by (metis div_le_mono nonzero_mult_div_cancel_right not_gr_zero)
  moreover have "n mod d = 0" if "n div d = k" using that le d
    by (metis add_le_same_cancel1 div_mult_mod_eq le_zero_eq)
  ultimately show ?thesis using d unfolding round_div_def by (cases r) (auto simp: le_less Suc_le_eq)
qed

lemma multiply_by_rational_eq:
  "multiply_by_rational_with_rounding a b c r =
     (if c = 0 \<or> 2 ^ 128 \<le> round_div r (unat a * unat b) (unat c) then None
      else Some (of_nat (round_div r (unat a * unat b) (unat c))))"
proof (cases "c = 0")
  case False
  obtain x m where div: "d_div (product_of a b) c = (x, m)" by fastforce
  let ?n = "unat a * unat b"
  have x: "d_val x = ?n div unat c" and m: "unat m = ?n mod unat c"
    using d_div_exact [OF False div] by (simp_all add: d_val_product)
  define up where "up = (case r of Up \<Rightarrow> 0 < m | NearestPrefUp \<Rightarrow> c div 2 + c mod 2 \<le> m
    | NearestPrefDown \<Rightarrow> c div 2 < m | Down \<Rightarrow> False)"
  have rd: "round_div r ?n (unat c) = d_val x + (if up then 1 else 0)"
    unfolding round_div_def up_def x m [symmetric] word_less_nat_alt word_le_nat_alt unat_half_128 half_tests
    by (simp cong: rounding.case_cong)
  have run: "multiply_by_rational_with_rounding a b c r =
      (case try_into_u128 x of None \<Rightarrow> None | Some y \<Rightarrow> if up then checked_add y 1 else Some y)"
    using False unfolding up_def by (simp add: multiply_by_rational_with_rounding_def div cong: option.case_cong)
  show ?thesis
  proof (cases "d_high x = 0")
    case True
    then have v: "d_val x = unat (d_low x)" by (simp add: d_val_def)
    have "checked_add (d_low x) 1 = (if 2 ^ 128 \<le> unat (d_low x) + 1 then None else Some (of_nat (unat (d_low x) + 1)))"
      by (auto simp: checked_add_eq_None checked_add_eq_Some unat_of_nat simp del: of_nat_add of_nat_Suc)
    with True run rd v False unat_less_power [of "d_low x"] show ?thesis
      by (simp add: try_into_u128_def)
  next
    case high: False
    then have "2 ^ 128 \<le> d_val x" by (simp add: d_val_def unat_gt_0 [symmetric] del: unat_gt_0)
    with high run rd False show ?thesis by (simp add: try_into_u128_def)
  qed
qed (simp add: multiply_by_rational_with_rounding_def)

section \<open>The greatest common divisor is one\<close>

declare gcd_u128.simps [simp del] sqrt_loop.simps [simp del]

lemma parity_word:
  "(a AND 1 = 0) = even (unat (a :: u128))" "(a AND 1 = 1) = odd (unat a)"
proof -
  have "a AND 1 = of_nat (unat a mod 2)"
    by (simp add: and_one_eq word_unat_eq_iff unat_mod unat_of_nat)
  then show "(a AND 1 = 0) = even (unat a)" "(a AND 1 = 1) = odd (unat a)"
    by (cases "even (unat a)"; simp add: odd_iff_mod_2_eq_one even_iff_mod_2_eq_zero)+
qed

lemma gcd_half: "even a \<Longrightarrow> odd b \<Longrightarrow> gcd (a div 2) b = gcd a (b :: nat)"
proof -
  assume "even a" "odd b"
  then have "coprime b 2" by (simp add: coprime_right_2_iff_odd)
  then have "gcd (2 * (a div 2)) b = gcd (a div 2) b" by (rule gcd_mult_left_left_cancel)
  then show ?thesis using \<open>even a\<close> by simp
qed

lemma gcd_halves: "even a \<Longrightarrow> even b \<Longrightarrow> 2 * gcd (a div 2) (b div 2) = gcd a (b :: nat)"
  by (simp add: gcd_mult_distrib_nat)

lemma gcd_u128_correct: "unat (gcd_u128 a b) = gcd (unat a) (unat b)"
proof (induction a b rule: gcd_u128.induct)
  case (1 a b)
  let ?A = "unat a" and ?B = "unat b"
  have half: "unat (drop_bit (Suc 0) c) = unat c div 2" for c :: u128 using unat_drop_bit [of 1 c] by simp
  consider "a = b" | "a \<noteq> b" "a = 0" | "a \<noteq> b" "a \<noteq> 0" "b = 0"
    | (eo) "a \<noteq> b" "a \<noteq> 0" "b \<noteq> 0" "even ?A" "odd ?B"
    | (oe) "a \<noteq> b" "a \<noteq> 0" "b \<noteq> 0" "odd ?A" "even ?B"
    | (ee) "a \<noteq> b" "a \<noteq> 0" "b \<noteq> 0" "even ?A" "even ?B"
    | (oo) "a \<noteq> b" "a \<noteq> 0" "b \<noteq> 0" "odd ?A" "odd ?B" by blast
  then show ?case
  proof cases
    case eo
    then have "gcd_u128 a b = gcd_u128 (drop_bit 1 a) b" by (simp add: gcd_u128.simps [of a b] parity_word)
    with 1(1) eo gcd_half [of ?A ?B] show ?thesis by (simp add: parity_word half)
  next
    case oe
    then have "gcd_u128 a b = gcd_u128 (drop_bit 1 b) a" by (simp add: gcd_u128.simps [of a b] parity_word)
    with 1(2) oe gcd_half [of ?B ?A] show ?thesis by (simp add: parity_word half gcd.commute)
  next
    case ee
    then have run: "gcd_u128 a b = push_bit 1 (gcd_u128 (drop_bit 1 a) (drop_bit 1 b))"
      by (simp add: gcd_u128.simps [of a b] parity_word)
    have ih: "2 * unat (gcd_u128 (drop_bit 1 a) (drop_bit 1 b)) = gcd ?A ?B"
      using 1(3) ee gcd_halves [of ?A ?B] by (simp add: parity_word half)
    have "gcd ?A ?B \<le> ?A" using ee(2) by (intro gcd_le1_nat) (simp add: unat_eq_zero)
    then have "gcd ?A ?B < 2 ^ 128" using unat_less_power [of a] by simp
    with ih show ?thesis unfolding run by (simp add: push_bit_eq_mult unat_word_ariths mult.commute)
  next
    case oo
    let ?x = "min a b" and ?y = "max a b"
    have run: "gcd_u128 a b = gcd_u128 (drop_bit 1 (?y - ?x)) ?x"
      using oo by (simp add: gcd_u128.simps [of a b] parity_word Let_def)
    have le: "unat ?x \<le> unat ?y" by (simp add: unat_min unat_max)
    then have sub: "unat (?y - ?x) = unat ?y - unat ?x" by (simp add: unat_sub word_le_nat_alt)
    have odd: "odd (unat ?x)" "even (unat ?y - unat ?x)"
      using oo(4,5) by (auto simp: min_def max_def)
    have "unat (gcd_u128 a b) = gcd ((unat ?y - unat ?x) div 2) (unat ?x)"
      unfolding run using 1(4) oo by (simp add: parity_word half sub)
    also have "\<dots> = gcd (unat ?y) (unat ?x)" using odd le by (simp add: gcd_half gcd_diff1_nat)
    also have "\<dots> = gcd ?A ?B" by (simp add: min_def max_def gcd.commute)
    finally show ?thesis .
  qed (simp_all add: gcd_u128.simps [of b b] gcd_u128.simps [of 0 b] gcd_u128.simps [of a 0])
qed

section \<open>The square root is one\<close>

lemma top_bit_clear: "unat (n :: 'w::len word) < 2 ^ Suc k \<Longrightarrow> \<not> bit n k \<Longrightarrow> unat n < 2 ^ k"
proof -
  assume "unat n < 2 ^ Suc k" "\<not> bit n k"
  then have "unat n div 2 ^ k < 2" "\<not> bit (unat n) k" by (simp_all add: less_mult_imp_div_less bit_unsigned_iff)
  then have "even (unat n div 2 ^ k)" by (simp only: bit_iff_odd not_not)
  with \<open>unat n div 2 ^ k < 2\<close> have "unat n div 2 ^ k = 0" by (elim evenE) simp
  then show ?thesis by (simp add: div_eq_0_iff)
qed

lemma zeros_from_bound: "unat (n :: 'w::len word) < 2 ^ k \<Longrightarrow> zeros_from k n \<le> k \<and> unat n < 2 ^ (k - zeros_from k n)"
proof (induction k)
  case (Suc k)
  show ?case
  proof (cases "bit n k")
    case False
    from Suc.IH [OF top_bit_clear [OF Suc.prems False]] False show ?thesis by simp
  qed (use Suc in simp)
qed simp

text \<open>
  One round of the loop, with \<open>p\<close> the weight of the digit it decides and \<open>r\<close> the root so far:
  \<open>result\<close> is \<open>2 p r\<close> and \<open>n\<close> is what is left of the number.
\<close>

lemma sqrt_step:
  assumes bt: "unat bt = p * p" "p \<noteq> 0" and res: "unat result = 2 * p * r" and n: "unat n + r * r = N"
    and lt: "N < (r + 2 * p) * (r + 2 * p)" and le: "r + 2 * p \<le> 2 ^ 64"
  obtains n' result' r' where "sqrt_loop n result bt = sqrt_loop n' result' (drop_bit 2 bt)"
    "unat result' = p * r'" "unat n' + r' * r' = N" "N < (r' + p) * (r' + p)" "r' + p \<le> 2 ^ 64"
proof -
  have sq: "(r + p) * (r + p) = r * r + (2 * p * r + p * p)" by (simp add: algebra_simps)
  have "0 < p" using bt(2) by simp
  then have "r + p \<le> 2 ^ 64 - 1" using le by linarith
  from mult_le_mono [OF this this] have "(r + p) * (r + p) \<le> (2 ^ 64 - 1) * (2 ^ 64 - 1)" .
  then have fits: "2 * p * r + p * p < 2 ^ 128" using sq by simp
  have sum: "unat (result + bt) = 2 * p * r + p * p"
    using unat_add_lem [of result bt] fits res bt(1) by simp
  have nz: "bt \<noteq> 0" using bt by auto
  have half: "unat (drop_bit 1 result) = p * r" unfolding unat_drop_bit res by simp
  show ?thesis
  proof (cases "result + bt \<le> n")
    case True
    have "unat (drop_bit 1 result + bt) = p * (r + p)"
    proof -
      have "p * r + p * p < 2 ^ LENGTH(128)" using fits by simp
      then have "unat (drop_bit 1 result + bt) = unat (drop_bit 1 result) + unat bt"
        by (intro unat_add_lem [THEN iffD1]) (simp only: half bt(1))
      then show ?thesis unfolding half bt(1) by (simp only: distrib_left)
    qed
    moreover have "unat (n - (result + bt)) + (r + p) * (r + p) = N"
      using True n unfolding unat_sub [OF True] sum sq by (simp add: word_le_nat_alt sum)
    moreover have "N < (r + p + p) * (r + p + p)" "r + p + p \<le> 2 ^ 64" using lt le by (simp_all add: algebra_simps)
    moreover have "sqrt_loop n result bt = sqrt_loop (n - (result + bt)) (drop_bit 1 result + bt) (drop_bit 2 bt)"
      using True nz by (simp add: sqrt_loop.simps [of n result bt])
    ultimately show ?thesis using that by blast
  next
    case False
    then have "unat n < 2 * p * r + p * p" by (simp only: word_le_nat_alt sum not_le)
    then have "N < (r + p) * (r + p)" using n unfolding sq by linarith
    moreover have "sqrt_loop n result bt = sqrt_loop n (drop_bit 1 result) (drop_bit 2 bt)"
      using False nz by (simp add: sqrt_loop.simps [of n result bt])
    moreover have "r + p \<le> 2 ^ 64" using le by simp
    ultimately show ?thesis using that half n by blast
  qed
qed

lemma sqrt_loop_correct:
  assumes "unat bt = 2 ^ i * 2 ^ i" "unat result = 2 * 2 ^ i * r" "unat n + r * r = N"
    "N < (r + 2 * 2 ^ i) * (r + 2 * 2 ^ i)" "r + 2 * 2 ^ i \<le> 2 ^ 64"
  shows "unat (sqrt_loop n result bt) * unat (sqrt_loop n result bt) \<le> N \<and>
    N < (unat (sqrt_loop n result bt) + 1) * (unat (sqrt_loop n result bt) + 1)"
  using assms
proof (induction i arbitrary: bt result n r)
  case (0 bt result n r)
  obtain n' result' r' where st: "sqrt_loop n result bt = sqrt_loop n' result' (drop_bit 2 bt)"
    "unat result' = 1 * r'" "unat n' + r' * r' = N" "N < (r' + 1) * (r' + 1)"
    by (rule sqrt_step [of bt 1 result r n N]) (use 0 in auto)
  have "unat (drop_bit 2 bt) = 0" unfolding unat_drop_bit using 0 by simp
  then have "drop_bit 2 bt = 0" by (simp only: unat_eq_zero)
  then have "sqrt_loop n result bt = result'" using st(1) by (simp add: sqrt_loop.simps [of n' result'])
  with st show ?case by simp
next
  case (Suc i)
  obtain n' result' r' where st: "sqrt_loop n result bt = sqrt_loop n' result' (drop_bit 2 bt)"
    "unat result' = 2 ^ Suc i * r'" "unat n' + r' * r' = N" "N < (r' + 2 ^ Suc i) * (r' + 2 ^ Suc i)" "r' + 2 ^ Suc i \<le> 2 ^ 64"
    by (rule sqrt_step [of bt "2 ^ Suc i" result r n N]) (use Suc.prems in auto)
  have "unat (drop_bit 2 bt) = 2 ^ i * 2 ^ i" unfolding unat_drop_bit Suc.prems(1) by simp
  from Suc.IH [OF this, of result' r' n'] st show ?case by simp
qed

text \<open>The result is the integer square root: the largest number whose square is not larger.\<close>

lemma sqrt_u128_correct:
  "unat (sqrt_u128 n) * unat (sqrt_u128 n) \<le> unat n \<and>
   unat n < (unat (sqrt_u128 n) + 1) * (unat (sqrt_u128 n) + 1)"
proof (cases "n = 0")
  case False
  define z where "z = leading_zeros n"
  have "unat n < 2 ^ 128" using unat_less_power [of n] by simp
  from zeros_from_bound [OF this] have z: "z \<le> 128" "unat n < 2 ^ (128 - z)" by (simp_all add: z_def leading_zeros_def)
  have "z \<noteq> 128" using z(2) False by (auto simp: unat_eq_zero)
  define i where "i = (127 - z) div 2"
  have zero: "leading_zeros (0 :: u128) = 128" by (simp add: leading_zeros_def eval_nat_numeral)
  have split: "i + i + (127 - z) mod 2 = 127 - z" "(127 - z) mod 2 < 2"
    using mult_div_mod_eq [of 2 "127 - z"] by (simp_all add: i_def mult_2)
  then have shift: "127 - z - (127 - z) mod 2 = i + i" by linarith
  have i: "i \<le> 63" "128 - z \<le> i + i + 2" using split z(1) \<open>z \<noteq> 128\<close> by linarith+
  have run: "sqrt_u128 n = sqrt_loop n 0 (push_bit (i + i) 1)"
  proof -
    have "128 - 1 - z - (128 - 1 - z) mod 2 = i + i" using shift by simp
    then show ?thesis unfolding sqrt_u128_def Let_def zero z_def [symmetric] using False by (simp only: if_False)
  qed
  have bt: "unat (push_bit (i + i) 1 :: u128) = 2 ^ i * 2 ^ i"
  proof -
    have "(2 :: nat) ^ (i + i) < 2 ^ 128" using i(1) by (intro power_strict_increasing) simp_all
    moreover have "(push_bit (i + i) 1 :: u128) = of_nat (2 ^ (i + i))" by (simp add: push_bit_eq_mult)
    ultimately have "unat (push_bit (i + i) 1 :: u128) = 2 ^ (i + i)" by (simp only: unat_of_nat) simp
    then show ?thesis by (simp only: power_add)
  qed
  have "(2 :: nat) ^ (128 - z) \<le> 2 ^ (i + i + 2)" using i(2) by (intro power_increasing) simp_all
  then have lt: "unat n < (0 + 2 * 2 ^ i) * (0 + 2 * 2 ^ i)" using z(2) by (simp add: power_add)
  have le: "(0 :: nat) + 2 * 2 ^ i \<le> 2 ^ 64"
    using power_increasing [of "Suc i" 64 "2 :: nat"] i(1) by simp
  show ?thesis unfolding run by (rule sqrt_loop_correct [OF bt _ _ lt le]) simp_all
qed (simp add: sqrt_u128_def)

section \<open>Properties\<close>

text \<open>
  C27. Multiplying by a rational is exact for all 128-bit arguments: the result is the quotient
  of the 256-bit product, rounded as asked, and \<open>None\<close> exactly for a zero denominator or a
  result of more than 128 bits. The division loop always terminates.
\<close>

theorem multiply_by_rational_exact:
  "multiply_by_rational_with_rounding a b c r =
     (if c = 0 \<or> 2 ^ 128 \<le> round_div r (unat a * unat b) (unat c) then None
      else Some (of_nat (round_div r (unat a * unat b) (unat c))))"
  by (rule multiply_by_rational_eq)

text \<open>C28. The square root of every 128-bit number is the largest number whose square is at most the argument.\<close>

theorem sqrt_u128_floor:
  "unat (sqrt_u128 n) = (GREATEST x. x * x \<le> unat n)"
proof (rule Greatest_equality [symmetric])
  show "unat (sqrt_u128 n) * unat (sqrt_u128 n) \<le> unat n" using sqrt_u128_correct by blast
  fix y assume y: "y * y \<le> unat n"
  show "y \<le> unat (sqrt_u128 n)"
  proof (rule ccontr)
    assume "\<not> y \<le> unat (sqrt_u128 n)"
    then have "unat (sqrt_u128 n) + 1 \<le> y" by simp
    from mult_le_mono [OF this this] y sqrt_u128_correct [of n] show False by linarith
  qed
qed

text \<open>
  C29. The binary algorithm terminates on all arguments and computes the greatest common divisor,
  with the convention that the divisor of zero and a number is that number.
\<close>

theorem gcd_u128_is_gcd: "unat (gcd_u128 a b) = gcd (unat a) (unat b)"
  by (rule gcd_u128_correct)

end
