(* ===== verification/Per_Things.thy ===== *)
theory Per_Things
  imports Complex_Main Helpers128
begin

text \<open>
  The fixed-point fractions of the arithmetic primitives (\<open>primitives/arithmetic/src/per_things.rs\<close>)
  and the multiplication by a rational of the primitive integers (\<open>rational.rs\<close>).

  The macro \<open>implement_per_thing\<close> defines each of \<open>Percent\<close>, \<open>PerU16\<close>, \<open>Permill\<close>, \<open>Perbill\<close> and
  \<open>Perquintill\<close> from an inner integer type, a wider upper type and the number of parts of one.
  The definitions here are generic in the same way: \<open>'i\<close> is the inner, \<open>'u\<close> the upper width,
  \<open>acc\<close> the constant \<open>ACCURACY\<close>, and a fraction is its number of parts. The locales are the
  contracts of the two traits: \<open>rational_mul\<close> says what \<open>MultiplyRational\<close> computes, \<open>per_thing\<close>
  what the constants of a type have to satisfy; both are interpreted on every instance of the code.
\<close>

section \<open>MultiplyRational\<close>

text \<open>The macro \<open>impl_rrm\<close>: the product is computed in the wider type \<open>'h\<close>.\<close>

definition multiply_rational ::
  "'h::len itself \<Rightarrow> 'l::len word \<Rightarrow> 'l word \<Rightarrow> 'l word \<Rightarrow> rounding \<Rightarrow> 'l word option" where
  "multiply_rational _ self n d r =
     (if d = 0 then None
      else
        let sn = (ucast self :: 'h word) * ucast n;
            result = sn div ucast d;
            remainder = (ucast (sn mod ucast d) :: 'l word)
        in case (if (case r of
                       Up \<Rightarrow> 0 < remainder
                     | NearestPrefUp \<Rightarrow> d div 2 + d mod 2 \<le> remainder
                     | NearestPrefDown \<Rightarrow> d div 2 < remainder
                     | Down \<Rightarrow> False)
                 then checked_add result 1 else Some result) of
             None \<Rightarrow> None
           | Some result \<Rightarrow>
               if ucast (max_value :: 'l word) < result then None else Some (ucast result))"

section \<open>Operations of a per-thing\<close>

text \<open>\<open>saturated_into\<close> between unsigned integers.\<close>

definition saturated_into :: "'a::len word \<Rightarrow> 'b::len word" where
  "saturated_into x = (if unat x < 2 ^ LENGTH('b) then ucast x else max_value)"

definition from_parts :: "'i::len word \<Rightarrow> 'i word \<Rightarrow> 'i word" where
  "from_parts acc parts = min parts acc"

definition less_epsilon :: "'i::len word \<Rightarrow> 'i word \<Rightarrow> 'i word" where
  "less_epsilon acc p = (if p = 0 then p else from_parts acc (p - 1))"

definition try_less_epsilon :: "'i::len word \<Rightarrow> 'i word \<Rightarrow> 'i word + 'i word" where
  "try_less_epsilon acc p = (if p = 0 then Inl p else Inr (from_parts acc (p - 1)))"

definition plus_epsilon :: "'i::len word \<Rightarrow> 'i word \<Rightarrow> 'i word" where
  "plus_epsilon acc p = (if p = acc then p else from_parts acc (p + 1))"

definition try_plus_epsilon :: "'i::len word \<Rightarrow> 'i word \<Rightarrow> 'i word + 'i word" where
  "try_plus_epsilon acc p = (if p = acc then Inl p else Inr (from_parts acc (p + 1)))"

text \<open>
  \<open>from_rational_with_rounding\<close> computes in an integer type \<open>N\<close> of its own, through that type's
  \<open>multiply_rational\<close>, which is the argument \<open>mr\<close>; \<open>Inl ()\<close> is the error.
\<close>

definition from_rational_with_rounding ::
  "('n::len word \<Rightarrow> 'n word \<Rightarrow> 'n word \<Rightarrow> rounding \<Rightarrow> 'n word option) \<Rightarrow>
   'i::len word \<Rightarrow> 'n word \<Rightarrow> 'n word \<Rightarrow> rounding \<Rightarrow> unit + 'i word" where
  "from_rational_with_rounding mr acc p q r =
     (if q = 0 then Inl ()
      else if q < p then Inl ()
      else
        case mr (ucast acc) p q r of
          None \<Rightarrow> Inl ()
        | Some x \<Rightarrow> if unat x < 2 ^ LENGTH('i) then Inr (ucast x) else Inl ())"

definition from_rational ::
  "('n::len word \<Rightarrow> 'n word \<Rightarrow> 'n word \<Rightarrow> rounding \<Rightarrow> 'n word option) \<Rightarrow>
   'i::len word \<Rightarrow> 'n word \<Rightarrow> 'n word \<Rightarrow> 'i word" where
  "from_rational mr acc p q =
     (case from_rational_with_rounding mr acc p q Down of Inr x \<Rightarrow> x | Inl _ \<Rightarrow> from_parts acc acc)"

text \<open>\<open>from_percent\<close> of the trait, and the \<open>const\<close> function of the same name.\<close>

definition from_percent ::
  "('i::len word \<Rightarrow> 'i word \<Rightarrow> 'i word \<Rightarrow> rounding \<Rightarrow> 'i word option) \<Rightarrow> 'i word \<Rightarrow> 'i word \<Rightarrow> 'i word" where
  "from_percent mr acc x = (let a = min x 100; b = 100 in from_rational mr acc a b)"

definition const_from_percent :: "'u::len itself \<Rightarrow> 'i::len word \<Rightarrow> 'i word \<Rightarrow> 'i word" where
  "const_from_percent _ acc x =
     ucast ((ucast (if 100 < x then 100 else x) :: 'u word) * ucast acc div 100)"

definition square ::
  "('u::len word \<Rightarrow> 'u word \<Rightarrow> 'u word \<Rightarrow> rounding \<Rightarrow> 'u word option) \<Rightarrow> 'i::len word \<Rightarrow> 'i word \<Rightarrow> 'i word" where
  "square mr acc self =
     (let p = ucast self; q = ucast acc in from_rational mr acc (p * p) (q * q))"

definition per_saturating_add :: "'i::len word \<Rightarrow> 'i word \<Rightarrow> 'i word \<Rightarrow> 'i word" where
  "per_saturating_add acc p q = from_parts acc (saturating_add p q)"

definition per_saturating_sub :: "'i::len word \<Rightarrow> 'i word \<Rightarrow> 'i word \<Rightarrow> 'i word" where
  "per_saturating_sub acc p q = from_parts acc (saturating_sub p q)"

definition left_from_one :: "'i::len word \<Rightarrow> 'i word \<Rightarrow> 'i word" where
  "left_from_one acc p = per_saturating_sub acc (from_parts acc acc) p"

text \<open>The error of the integer division in \<open>x / denom * numer\<close>.\<close>

definition rational_mul_correction ::
  "'u::len itself \<Rightarrow> 'n::len word \<Rightarrow> 'i::len word \<Rightarrow> 'i word \<Rightarrow> rounding \<Rightarrow> 'n word" where
  "rational_mul_correction _ x numer denom rounding =
     (let numer_upper = (ucast numer :: 'u word);
          denom_n = (ucast denom :: 'n word);
          denom_upper = (ucast denom :: 'u word);
          rem = x mod denom_n;
          rem_inner = (saturated_into rem :: 'i word);
          rem_mul_upper = ucast rem_inner * numer_upper;
          rem_mul_div_inner = (saturated_into (rem_mul_upper div denom_upper) :: 'i word);
          rem_mul_div_inner =
            (case rounding of
               Down \<Rightarrow> rem_mul_div_inner
             | Up \<Rightarrow>
                 if 0 < rem_mul_upper mod denom_upper then rem_mul_div_inner + 1 else rem_mul_div_inner
             | NearestPrefDown \<Rightarrow>
                 if denom_upper div 2 < rem_mul_upper mod denom_upper
                 then rem_mul_div_inner + 1 else rem_mul_div_inner
             | NearestPrefUp \<Rightarrow>
                 if denom_upper div 2 + denom_upper mod 2 \<le> rem_mul_upper mod denom_upper
                 then rem_mul_div_inner + 1 else rem_mul_div_inner)
      in ucast rem_mul_div_inner)"

definition overflow_prune_mul ::
  "'u::len itself \<Rightarrow> 'i::len word \<Rightarrow> 'n::len word \<Rightarrow> 'i word \<Rightarrow> rounding \<Rightarrow> 'n word" where
  "overflow_prune_mul u acc x part rounding =
     (let maximum = ucast acc; part_n = ucast part;
          c = rational_mul_correction u x part acc rounding
      in (x div maximum) * part_n + c)"

text \<open>Dividing by the fraction zero panics, which is \<open>None\<close>.\<close>

definition saturating_reciprocal_mul ::
  "'u::len itself \<Rightarrow> 'i::len word \<Rightarrow> 'n::len word \<Rightarrow> 'i word \<Rightarrow> rounding \<Rightarrow> 'n word option" where
  "saturating_reciprocal_mul u acc x part rounding =
     (if part = 0 then None
      else
        let maximum = ucast acc;
            c = rational_mul_correction u x acc part rounding
        in Some (saturating_add (saturating_mul (x div ucast part) maximum) c))"

definition mul_floor :: "'u::len itself \<Rightarrow> 'i::len word \<Rightarrow> 'i word \<Rightarrow> 'n::len word \<Rightarrow> 'n word" where
  "mul_floor u acc self b = overflow_prune_mul u acc b self Down"

definition mul_ceil :: "'u::len itself \<Rightarrow> 'i::len word \<Rightarrow> 'i word \<Rightarrow> 'n::len word \<Rightarrow> 'n word" where
  "mul_ceil u acc self b = overflow_prune_mul u acc b self Up"

text \<open>The \<open>*\<close> of a per-thing and an integer.\<close>

definition mul_nearest :: "'u::len itself \<Rightarrow> 'i::len word \<Rightarrow> 'i word \<Rightarrow> 'n::len word \<Rightarrow> 'n word" where
  "mul_nearest u acc self b = overflow_prune_mul u acc b self NearestPrefDown"

definition reciprocal_mul_nearest :: "'u::len itself \<Rightarrow> 'i::len word \<Rightarrow> 'i word \<Rightarrow> 'n::len word \<Rightarrow> 'n word option" where
  "reciprocal_mul_nearest u acc self b = saturating_reciprocal_mul u acc b self NearestPrefUp"

definition reciprocal_mul_floor :: "'u::len itself \<Rightarrow> 'i::len word \<Rightarrow> 'i word \<Rightarrow> 'n::len word \<Rightarrow> 'n word option" where
  "reciprocal_mul_floor u acc self b = saturating_reciprocal_mul u acc b self Down"

definition reciprocal_mul_ceil :: "'u::len itself \<Rightarrow> 'i::len word \<Rightarrow> 'i word \<Rightarrow> 'n::len word \<Rightarrow> 'n word option" where
  "reciprocal_mul_ceil u acc self b = saturating_reciprocal_mul u acc b self Up"

definition int_mul :: "'i::len word \<Rightarrow> 'i word \<Rightarrow> 'i word \<Rightarrow> 'i word" where
  "int_mul acc self b = from_parts acc (saturating_mul self b)"

definition int_div :: "'i::len word \<Rightarrow> 'i word \<Rightarrow> 'i word option" where
  "int_div self b = (if b = 0 then None else Some (self div b))"

definition per_saturating_div ::
  "('i::len word \<Rightarrow> 'i word \<Rightarrow> 'i word \<Rightarrow> rounding \<Rightarrow> 'i word option) \<Rightarrow>
   'i word \<Rightarrow> 'i word \<Rightarrow> 'i word \<Rightarrow> rounding \<Rightarrow> 'i word" where
  "per_saturating_div mr acc self rhs r =
     (case from_rational_with_rounding mr acc self rhs r of Inr x \<Rightarrow> x | Inl _ \<Rightarrow> from_parts acc acc)"

definition per_mul :: "'u::len itself \<Rightarrow> 'i::len word \<Rightarrow> 'i word \<Rightarrow> 'i word \<Rightarrow> 'i word" where
  "per_mul _ acc self rhs =
     (let a = (ucast self :: 'u word); b = ucast rhs; m = ucast acc; parts = a * b div m
      in from_parts acc (ucast parts))"

function pow_loop ::
  "('u::len word \<Rightarrow> 'u word \<Rightarrow> 'u word \<Rightarrow> rounding \<Rightarrow> 'u word option) \<Rightarrow>
   'i::len word \<Rightarrow> 'i word \<Rightarrow> 'i word \<Rightarrow> nat \<Rightarrow> 'i word" where
  "pow_loop mr acc result self e =
     (if 0 < e \<and> result \<noteq> 0
      then
        let (result, e) = (if e mod 2 \<noteq> 0 then (per_mul TYPE('u) acc result self, e - 1) else (result, e))
        in pow_loop mr acc result (square mr acc self) (e div 2)
      else result)"
  by pat_completeness auto
termination
  by (relation "measure (\<lambda>(_, _, _, _, e). e)") (auto split: if_splits)

definition per_pow ::
  "('u::len word \<Rightarrow> 'u word \<Rightarrow> 'u word \<Rightarrow> rounding \<Rightarrow> 'u word option) \<Rightarrow>
   'i::len word \<Rightarrow> 'i word \<Rightarrow> nat \<Rightarrow> 'i word" where
  "per_pow mr acc self e =
     (if e = 0 \<or> self = acc then from_parts acc acc else pow_loop mr acc self self (e - 1))"

definition per_div ::
  "('i::len word \<Rightarrow> 'i word \<Rightarrow> 'i word \<Rightarrow> rounding \<Rightarrow> 'i word option) \<Rightarrow> 'i word \<Rightarrow> 'i word \<Rightarrow> 'i word \<Rightarrow> 'i word" where
  "per_div mr acc self rhs = from_rational mr acc self rhs"

text \<open>Division by an integer; \<open>None\<close> is the panic of a division by zero.\<close>

definition per_div_int :: "'i::len word \<Rightarrow> 'i word \<Rightarrow> 'n::len word \<Rightarrow> 'i word option" where
  "per_div_int acc self b =
     (if unat b < 2 ^ LENGTH('i)
      then if b = 0 then None else Some (from_parts acc (self div ucast b))
      else Some 0)"

text \<open>
  \<open>+\<close> and \<open>-\<close> wrap, as the integers do in a release build; the \<open>debug_assert\<close> is not compiled there.
\<close>

definition per_add :: "'i::len word \<Rightarrow> 'i word \<Rightarrow> 'i word \<Rightarrow> 'i word" where
  "per_add acc self rhs = from_parts acc (self + rhs)"

definition per_checked_add :: "'i::len word \<Rightarrow> 'i word \<Rightarrow> 'i word \<Rightarrow> 'i word option" where
  "per_checked_add acc self rhs =
     (case checked_add self rhs of
        None \<Rightarrow> None | Some inner \<Rightarrow> if acc < inner then None else Some (from_parts acc inner))"

definition per_sub :: "'i::len word \<Rightarrow> 'i word \<Rightarrow> 'i word \<Rightarrow> 'i word" where
  "per_sub acc self rhs = from_parts acc (self - rhs)"

definition per_checked_sub :: "'i::len word \<Rightarrow> 'i word \<Rightarrow> 'i word \<Rightarrow> 'i word option" where
  "per_checked_sub acc self v = map_option (from_parts acc) (checked_sub self v)"

text \<open>Decoding refuses what compact decoding saturates.\<close>

definition per_decode :: "'i::len word \<Rightarrow> 'i word \<Rightarrow> string + 'i word" where
  "per_decode acc inner =
     (if inner \<le> acc then Inr inner else Inl ''Value is greater than allowed maximum!'')"

definition per_decode_compact :: "'i::len word \<Rightarrow> 'i word \<Rightarrow> 'i word" where
  "per_decode_compact acc x = from_parts acc x"

section \<open>The contract of MultiplyRational\<close>

lemma product_below: "a < L \<Longrightarrow> b < L \<Longrightarrow> 2 \<le> L \<Longrightarrow> a * b + 1 < L * (L :: nat)"
proof -
  assume "a < L" "b < L" "2 \<le> L"
  then obtain k where k: "L = Suc k" "a \<le> k" "b \<le> k" "0 < k" by (cases L) auto
  then have "a * b \<le> k * k" by (intro mult_le_mono)
  with k show ?thesis by simp
qed

locale rational_mul =
  fixes mr :: "'n::len word \<Rightarrow> 'n word \<Rightarrow> 'n word \<Rightarrow> rounding \<Rightarrow> 'n word option"
  assumes mr_exact: "mr a b c r =
    (if c = 0 \<or> 2 ^ LENGTH('n) \<le> round_div r (unat a * unat b) (unat c) then None
     else Some (of_nat (round_div r (unat a * unat b) (unat c))))"

lemma multiply_rational_eq:
  fixes self n d :: "'l::len word"
  assumes w: "2 * LENGTH('l) \<le> LENGTH('h)" "1 < LENGTH('l)"
  shows "multiply_rational TYPE('h::len) self n d r =
    (if d = 0 \<or> 2 ^ LENGTH('l) \<le> round_div r (unat self * unat n) (unat d) then None
     else Some (of_nat (round_div r (unat self * unat n) (unat d))))"
proof (cases "d = 0")
  case False
  let ?n = "unat self * unat n" and ?L = "(2 :: nat) ^ LENGTH('l)"
  have up: "unat (ucast x :: 'h word) = unat x" for x :: "'l word" using w by (intro unat_cast_up) simp
  have "(2 :: nat) ^ 1 < ?L" using w(2) by (intro power_strict_increasing) simp_all
  then have sq: "?n + 1 < ?L * ?L"
    using unat_less_power [of self] unat_less_power [of n] by (intro product_below) simp_all
  have "?L * ?L \<le> 2 ^ LENGTH('h)"
    using power_increasing [OF w(1), of "2 :: nat"] by (simp add: mult_2 power_add)
  with sq have fits: "?n + 1 < 2 ^ LENGTH('h)" by simp
  define sn where "sn = (ucast self :: 'h word) * ucast n"
  have sn: "unat sn = ?n"
    unfolding sn_def using unat_mult_lem [of "ucast self :: 'h word" "ucast n"] fits by (simp add: up)
  define res where "res = sn div ucast d"
  define m :: "'l word" where "m = ucast (sn mod ucast d)"
  have res: "unat res = ?n div unat d" by (simp add: res_def unat_div sn up)
  have pos: "0 < unat d" using False by (simp add: unat_gt_0)
  have m: "unat m = ?n mod unat d"
  proof -
    have "unat (sn mod ucast d :: 'h word) = ?n mod unat d" by (simp add: unat_mod sn up)
    moreover have "?n mod unat d < ?L" using pos unat_less_power [of d] by (meson less_trans mod_less_divisor)
    ultimately show ?thesis unfolding m_def by (simp add: unat_cast)
  qed
  define test where "test = (case r of Up \<Rightarrow> 0 < m | NearestPrefUp \<Rightarrow> d div 2 + d mod 2 \<le> m
    | NearestPrefDown \<Rightarrow> d div 2 < m | Down \<Rightarrow> False)"
  have rd: "round_div r ?n (unat d) = unat res + (if test then 1 else 0)"
    unfolding round_div_def test_def res m [symmetric] word_less_nat_alt word_le_nat_alt unat_half [OF w(2)] half_tests
    by (simp cong: rounding.case_cong)
  have "unat res + 1 < 2 ^ LENGTH('h)" using fits div_le_dividend [of ?n "unat d"] unfolding res by linarith
  then have plus: "checked_add res 1 = Some (res + 1)" "unat (res + 1) = unat res + 1"
    using checked_add_eq_Some [of res 1 "res + 1"] unat_add_lem [of res 1] by simp_all
  define y where "y = (if test then res + 1 else res)"
  have y: "unat y = round_div r ?n (unat d)" by (simp add: y_def rd plus(2))
  have run: "multiply_rational TYPE('h) self n d r =
      (if ucast (max_value :: 'l word) < y then None else Some (ucast y))"
    using False unfolding multiply_rational_def Let_def sn_def [symmetric] res_def [symmetric] m_def [symmetric]
      test_def [symmetric] y_def by (simp add: plus(1))
  have "(ucast (max_value :: 'l word) < y) = (?L \<le> unat y)"
    unfolding word_less_nat_alt up unat_max_value using zero_less_power [of "2 :: nat" "LENGTH('l)"] by linarith
  moreover have "ucast y = (of_nat (unat y) :: 'l word)"
    by (simp add: word_unat_eq_iff unat_cast unat_of_nat)
  ultimately show ?thesis using False run by (simp add: y)
qed (simp add: multiply_rational_def)

interpretation mr_u8: rational_mul "multiply_rational TYPE(16) :: 8 word \<Rightarrow> _"
  by unfold_locales (rule multiply_rational_eq; simp)

interpretation mr_u16: rational_mul "multiply_rational TYPE(32) :: 16 word \<Rightarrow> _"
  by unfold_locales (rule multiply_rational_eq; simp)

interpretation mr_u32: rational_mul "multiply_rational TYPE(64) :: 32 word \<Rightarrow> _"
  by unfold_locales (rule multiply_rational_eq; simp)

interpretation mr_u64: rational_mul "multiply_rational TYPE(128) :: 64 word \<Rightarrow> _"
  by unfold_locales (rule multiply_rational_eq; simp)

interpretation mr_u128: rational_mul multiply_by_rational_with_rounding
  by unfold_locales (simp add: multiply_by_rational_eq)

section \<open>The contract of a per-thing\<close>

definition ratio :: "nat \<Rightarrow> nat \<Rightarrow> real" where
  "ratio m n = real m / real n"

lemma ratio_simps [simp]: "0 \<le> ratio m n" "ratio 0 n = 0" "n \<noteq> 0 \<Longrightarrow> ratio n n = 1"
  by (simp_all add: ratio_def)

lemma ratio_mul: "m * c \<le> a * b \<Longrightarrow> 0 < c \<Longrightarrow> ratio m c \<le> ratio a c * ratio b c"
proof -
  assume le: "m * c \<le> a * b" and c: "0 < c"
  have "real m * real c \<le> real a * real b" using le by (metis of_nat_le_iff of_nat_mult)
  then show ?thesis using c by (simp add: ratio_def field_simps)
qed

locale per_thing =
  fixes acc :: "'i::len word" and upper :: "'u::len itself"
  assumes acc_pos: "acc \<noteq> 0"
    and acc_upper: "unat acc * unat acc < 2 ^ LENGTH('u)"
    and inner_upper: "LENGTH('i) \<le> LENGTH('u)"
    and inner_bits: "7 < LENGTH('i)"
begin

lemma pos: "0 < unat acc"
  using acc_pos by (simp add: unat_gt_0)

lemma bits: "1 < LENGTH('i)" "1 < LENGTH('u)"
  using inner_bits inner_upper by simp_all

lemma up: "unat (ucast (x :: 'i word) :: 'u word) = unat x"
  using inner_upper by (rule unat_cast_up)

text \<open>The correction is the rounded remainder, computed without loss.\<close>

lemma correction_exact:
  fixes x :: "'n::len word" and numer denom :: "'i word"
  assumes w: "LENGTH('i) \<le> LENGTH('n)" and d: "denom \<noteq> 0" "denom \<le> acc" "numer \<le> acc"
  shows "unat (rational_mul_correction upper x numer denom r) =
    round_div r ((unat x mod unat denom) * unat numer) (unat denom)"
proof -
  let ?d = "unat denom" and ?n = "unat numer" and ?m = "unat x mod unat denom"
  have up_n: "unat (ucast y :: 'n word) = unat y" for y :: "'i word" using w by (rule unat_cast_up)
  have dpos: "0 < ?d" using d(1) by (simp add: unat_gt_0)
  have le: "?d \<le> unat acc" "?n \<le> unat acc" using d by (simp_all add: word_le_nat_alt)
  define rem where "rem = x mod ucast denom"
  have rem: "unat rem = ?m" by (simp add: rem_def unat_mod up_n)
  have m: "?m < ?d" using dpos by simp
  then have "?m < 2 ^ LENGTH('i)" using unat_less_power [of denom] by linarith
  then have inner: "unat (saturated_into rem :: 'i word) = ?m" by (simp add: saturated_into_def rem unat_cast)
  define mu where "mu = (ucast (saturated_into rem :: 'i word) :: 'u word) * ucast numer"
  have "?m * ?n \<le> unat acc * unat acc" using m le by (intro mult_le_mono) simp_all
  then have fits: "?m * ?n < 2 ^ LENGTH('u)" using acc_upper by simp
  have mu: "unat mu = ?m * ?n"
    unfolding mu_def using unat_mult_lem [of "ucast (saturated_into rem :: 'i word) :: 'u word" "ucast numer"] fits
    by (simp add: up inner)
  define q :: "'i word" where "q = saturated_into (mu div ucast denom :: 'u word)"
  have small: "round_div r (?m * ?n) ?d \<le> ?n" by (rule round_div_le [OF dpos]) (use m in simp)
  have "?m * ?n div ?d \<le> round_div r (?m * ?n) ?d" by (simp add: round_div_def)
  also note small
  finally have "?m * ?n div ?d < 2 ^ LENGTH('i)" using unat_less_power [of numer] by linarith
  then have q: "unat q = ?m * ?n div ?d" by (simp add: q_def saturated_into_def unat_div mu up unat_cast)
  define test where "test = (case r of Up \<Rightarrow> 0 < mu mod ucast denom
    | NearestPrefUp \<Rightarrow> ucast denom div 2 + ucast denom mod 2 \<le> mu mod ucast denom
    | NearestPrefDown \<Rightarrow> ucast denom div 2 < mu mod ucast denom | Down \<Rightarrow> False)"
  have rd: "round_div r (?m * ?n) ?d = unat q + (if test then 1 else 0)"
    unfolding round_div_def test_def q word_less_nat_alt word_le_nat_alt unat_half [OF bits(2)] unat_mod mu up half_tests
    by (simp cong: rounding.case_cong)
  define q' where "q' = (if test then q + 1 else q)"
  have q': "unat q' = round_div r (?m * ?n) ?d"
  proof -
    have "unat q + 1 \<le> unat numer" if test using small rd that by simp
    then have "unat q + 1 < 2 ^ LENGTH('i)" if test using that unat_less_power [of numer] by (meson le_less_trans)
    then have "unat (q + 1) = unat q + 1" if test using that unat_add_lem [of q 1] by simp
    then show ?thesis by (simp add: q'_def rd)
  qed
  have "rational_mul_correction upper x numer denom r = ucast q'"
    unfolding rational_mul_correction_def Let_def rem_def [symmetric] mu_def [symmetric] q_def [symmetric] q'_def test_def
    by (cases r) simp_all
  then show ?thesis by (simp add: up_n q')
qed

text \<open>Multiplying an integer by a fraction neither overflows nor loses anything but the rounding.\<close>

lemma prune_mul_exact:
  fixes x :: "'n::len word"
  assumes w: "LENGTH('i) \<le> LENGTH('n)" and p: "part \<le> acc"
  shows "unat (overflow_prune_mul upper acc x part r) = round_div r (unat x * unat part) (unat acc)"
proof -
  let ?a = "unat acc" and ?p = "unat part" and ?x = "unat x"
  have up_n: "unat (ucast y :: 'n word) = unat y" for y :: "'i word" using w by (rule unat_cast_up)
  have "?x * ?p = ?a * (?x div ?a * ?p) + (?x mod ?a) * ?p"
    using mult_div_mod_eq [of ?a ?x] by (metis add_mult_distrib mult.assoc)
  then have rd: "round_div r (?x * ?p) ?a = ?x div ?a * ?p + round_div r ((?x mod ?a) * ?p) ?a"
    using round_div_add [OF pos] by metis
  have "round_div r (?x * ?p) ?a \<le> ?x"
    by (rule round_div_le [OF pos]) (use p in \<open>simp add: word_le_nat_alt\<close>)
  then have fits: "?x div ?a * ?p + round_div r ((?x mod ?a) * ?p) ?a < 2 ^ LENGTH('n)"
    using rd unat_less_power [of x] by linarith
  have prod: "unat ((x div ucast acc) * ucast part :: 'n word) = ?x div ?a * ?p"
    using unat_mult_lem [of "x div ucast acc" "ucast part :: 'n word"] fits by (simp add: unat_div up_n)
  show ?thesis
    unfolding overflow_prune_mul_def Let_def rd
    using unat_add_lem [of "(x div ucast acc) * ucast part" "rational_mul_correction upper x part acc r"] fits
    by (simp add: prod correction_exact [OF w acc_pos order_refl p])
qed

lemma reciprocal_mul_exact:
  fixes x :: "'n::len word"
  assumes w: "LENGTH('i) \<le> LENGTH('n)" and p: "part \<le> acc" "part \<noteq> 0"
  shows "map_option unat (saturating_reciprocal_mul upper acc x part r) =
    Some (min (round_div r (unat x * unat acc) (unat part)) (2 ^ LENGTH('n) - 1))"
proof -
  let ?a = "unat acc" and ?p = "unat part" and ?x = "unat x"
  have up_n: "unat (ucast y :: 'n word) = unat y" for y :: "'i word" using w by (rule unat_cast_up)
  have ppos: "0 < ?p" using p(2) by (simp add: unat_gt_0)
  have "?x * ?a = ?p * (?x div ?p * ?a) + (?x mod ?p) * ?a"
    using mult_div_mod_eq [of ?p ?x] by (metis add_mult_distrib mult.assoc)
  then have rd: "round_div r (?x * ?a) ?p = ?x div ?p * ?a + round_div r ((?x mod ?p) * ?a) ?p"
    using round_div_add [OF ppos] by metis
  have "unat (saturating_add (saturating_mul (x div ucast part) (ucast acc))
      (rational_mul_correction upper x acc part r) :: 'n word) = min (round_div r (?x * ?a) ?p) (2 ^ LENGTH('n) - 1)"
    unfolding rd unat_saturating_add unat_saturating_mul correction_exact [OF w p(2,1) order_refl] unat_div up_n by simp
  with p(2) show ?thesis by (simp add: saturating_reciprocal_mul_def)
qed

text \<open>Products and squares of fractions round down.\<close>

lemma per_mul_exact:
  assumes "p \<le> acc" "q \<le> acc"
  shows "unat (per_mul upper acc p q) = unat p * unat q div unat acc"
proof -
  let ?a = "unat acc"
  have le: "unat p \<le> ?a" "unat q \<le> ?a" using assms by (simp_all add: word_le_nat_alt)
  then have "unat p * unat q \<le> ?a * ?a" by (rule mult_le_mono)
  then have fits: "unat p * unat q < 2 ^ LENGTH('u)" using acc_upper by simp
  then have prod: "unat ((ucast p :: 'u word) * ucast q) = unat p * unat q"
    using unat_mult_lem [of "ucast p :: 'u word" "ucast q"] by (simp add: up)
  have small: "unat p * unat q div ?a \<le> ?a"
    using \<open>unat p * unat q \<le> ?a * ?a\<close> pos by (metis div_le_mono nonzero_mult_div_cancel_right not_gr_zero)
  then have "unat p * unat q div ?a < 2 ^ LENGTH('i)" using unat_less_power [of acc] by linarith
  moreover have "unat ((ucast p :: 'u word) * ucast q div ucast acc) = unat p * unat q div ?a"
    by (simp add: unat_div prod up)
  ultimately have "unat (ucast ((ucast p :: 'u word) * ucast q div ucast acc) :: 'i word) = unat p * unat q div ?a"
    using unat_cast_fits by metis
  with small show ?thesis by (simp add: per_mul_def Let_def from_parts_def unat_min)
qed

lemma from_rational_exact:
  fixes mr :: "'n::len word \<Rightarrow> 'n word \<Rightarrow> 'n word \<Rightarrow> rounding \<Rightarrow> 'n word option"
  assumes mr: "rational_mul mr" and w: "LENGTH('i) \<le> LENGTH('n)"
  shows "from_rational_with_rounding mr acc p q r =
    (if q = 0 \<or> q < p then Inl () else Inr (of_nat (round_div r (unat acc * unat p) (unat q))))"
proof (cases "q = 0 \<or> q < p")
  case False
  let ?x = "round_div r (unat acc * unat p) (unat q)"
  have q: "0 < unat q" "unat p \<le> unat q" using False by (auto simp: unat_gt_0 word_le_nat_alt not_less)
  have up_n: "unat (ucast y :: 'n word) = unat y" for y :: "'i word" using w by (rule unat_cast_up)
  have "?x \<le> unat acc" by (rule round_div_le [OF q(1)]) (use q(2) in simp)
  then have small: "?x < 2 ^ LENGTH('i)" using unat_less_power [of acc] by linarith
  have "(2 :: nat) ^ LENGTH('i) \<le> 2 ^ LENGTH('n)" using w by (intro power_increasing) simp_all
  with small have "?x < 2 ^ LENGTH('n)" by linarith
  then have m: "mr (ucast acc) p q r = Some (of_nat ?x)" "unat (of_nat ?x :: 'n word) = ?x"
    using False by (simp_all add: rational_mul.mr_exact [OF mr] up_n unat_of_nat)
  have "(ucast (of_nat ?x :: 'n word) :: 'i word) = of_nat ?x"
  proof -
    have "unat (ucast (of_nat ?x :: 'n word) :: 'i word) = ?x" using unat_cast_fits small m(2) by metis
    moreover have "unat (of_nat ?x :: 'i word) = ?x" using small by (simp add: unat_of_nat)
    ultimately show ?thesis by (simp only: word_unat_eq_iff)
  qed
  with False m small show ?thesis by (simp add: from_rational_with_rounding_def)
qed (auto simp: from_rational_with_rounding_def)

lemma unat_from_rational:
  fixes mr :: "'n::len word \<Rightarrow> 'n word \<Rightarrow> 'n word \<Rightarrow> rounding \<Rightarrow> 'n word option"
  assumes mr: "rational_mul mr" and w: "LENGTH('i) \<le> LENGTH('n)"
  shows "unat (from_rational mr acc p q) = (if q = 0 \<or> q < p then unat acc else unat acc * unat p div unat q)"
proof (cases "q = 0 \<or> q < p")
  case False
  have q: "0 < unat q" "unat p \<le> unat q" using False by (auto simp: unat_gt_0 word_le_nat_alt not_less)
  have "unat acc * unat p div unat q \<le> unat acc"
    using q by (metis div_le_mono mult_le_mono2 nonzero_mult_div_cancel_right not_gr_zero)
  then have "unat acc * unat p div unat q < 2 ^ LENGTH('i)" using unat_less_power [of acc] by linarith
  with False show ?thesis
    unfolding from_rational_def from_rational_exact [OF mr w] by (simp add: round_div_def unat_of_nat)
qed (auto simp: from_rational_def from_rational_exact [OF mr w] from_parts_def)

lemma square_mul:
  fixes mr :: "'u word \<Rightarrow> 'u word \<Rightarrow> 'u word \<Rightarrow> rounding \<Rightarrow> 'u word option"
  assumes mr: "rational_mul mr" and p: "p \<le> acc"
  shows "square mr acc p = per_mul upper acc p p"
proof -
  let ?a = "unat acc"
  have le: "unat p \<le> ?a" using p by (simp add: word_le_nat_alt)
  then have pp: "unat p * unat p \<le> ?a * ?a" by (intro mult_le_mono)
  have P: "unat ((ucast p :: 'u word) * ucast p) = unat p * unat p"
    using unat_mult_lem [of "ucast p :: 'u word" "ucast p"] pp acc_upper by (simp add: up)
  have Q: "unat ((ucast acc :: 'u word) * ucast acc) = ?a * ?a"
    using unat_mult_lem [of "ucast acc :: 'u word" "ucast acc"] acc_upper by (simp add: up)
  have "\<not> ((ucast acc :: 'u word) * ucast acc = 0 \<or> (ucast acc :: 'u word) * ucast acc < ucast p * ucast p)"
    using pos pp by (simp add: word_less_nat_alt P Q not_less unat_eq_zero [symmetric])
  then have "unat (square mr acc p) = ?a * (unat p * unat p) div (?a * ?a)"
    unfolding square_def Let_def unat_from_rational [OF mr inner_upper] by (simp add: P Q)
  also have "\<dots> = unat p * unat p div ?a" using pos by simp
  finally show ?thesis by (simp add: word_unat_eq_iff per_mul_exact [OF p p])
qed

lemma per_mul_le: "per_mul upper acc p q \<le> acc"
  by (simp add: per_mul_def Let_def from_parts_def)

lemma from_rational_le:
  fixes mr :: "'n::len word \<Rightarrow> 'n word \<Rightarrow> 'n word \<Rightarrow> rounding \<Rightarrow> 'n word option"
  assumes mr: "rational_mul mr" and w: "LENGTH('i) \<le> LENGTH('n)"
  shows "from_rational_with_rounding mr acc p q r = Inr x \<Longrightarrow> x \<le> acc" "from_rational mr acc p q \<le> acc"
proof -
  have le: "x \<le> acc" if "from_rational_with_rounding mr acc p q r = Inr x" for x r
  proof -
    from that have q: "0 < unat q" "unat p \<le> unat q" and x: "x = of_nat (round_div r (unat acc * unat p) (unat q))"
      unfolding from_rational_exact [OF mr w] by (auto simp: unat_gt_0 word_le_nat_alt not_less split: if_splits)
    have "round_div r (unat acc * unat p) (unat q) \<le> unat acc" by (rule round_div_le [OF q(1)]) (use q(2) in simp)
    moreover from this have "unat x = round_div r (unat acc * unat p) (unat q)"
      using unat_less_power [of acc] unfolding x unat_of_nat by (intro mod_less) linarith
    ultimately show ?thesis by (simp add: word_le_nat_alt)
  qed
  then show "from_rational_with_rounding mr acc p q r = Inr x \<Longrightarrow> x \<le> acc" by blast
  show "from_rational mr acc p q \<le> acc"
    using le by (cases "from_rational_with_rounding mr acc p q Down") (simp_all add: from_rational_def from_parts_def)
qed

text \<open>As real numbers, powers never exceed the real power.\<close>

abbreviation frac :: "'i word \<Rightarrow> real" where
  "frac p \<equiv> ratio (unat p) (unat acc)"

lemma frac_mul: "p \<le> acc \<Longrightarrow> q \<le> acc \<Longrightarrow> frac (per_mul upper acc p q) \<le> frac p * frac q"
  by (rule ratio_mul [OF _ pos]) (simp add: per_mul_exact)

declare pow_loop.simps [simp del]

lemma pow_loop_le:
  fixes mr :: "'u word \<Rightarrow> 'u word \<Rightarrow> 'u word \<Rightarrow> rounding \<Rightarrow> 'u word option"
  assumes mr: "rational_mul mr" and le: "result \<le> acc" "self \<le> acc"
  shows "pow_loop mr acc result self e \<le> acc \<and> frac (pow_loop mr acc result self e) \<le> frac result * frac self ^ e"
  using le
proof (induction e arbitrary: result self rule: less_induct)
  case (less e)
  show ?case
  proof (cases "0 < e \<and> result \<noteq> 0")
    case False
    then have "frac result \<le> frac result * frac self ^ e" by (cases "e = 0") auto
    moreover have "pow_loop mr acc result self e = result" using False by (subst pow_loop.simps) (simp only: if_False)
    ultimately show ?thesis using less.prems by simp
  next
    case True
    define result' where "result' = (if e mod 2 \<noteq> 0 then per_mul upper acc result self else result)"
    let ?sq = "per_mul upper acc self self" and ?k = "e div 2"
    have up: "per_mul TYPE('u) acc p q = per_mul upper acc p q" for p q by (simp add: per_mul_def)
    have step: "pow_loop mr acc result self e = pow_loop mr acc result' ?sq ?k"
    proof -
      have "(e - 1) div 2 = e div 2" if "e mod 2 \<noteq> 0" using that by presburger
      with True show ?thesis
        by (simp add: pow_loop.simps [of mr acc result self e] square_mul [OF mr less.prems(2)] result'_def up)
    qed
    have le': "result' \<le> acc" using less.prems(1) per_mul_le by (simp add: result'_def)
    have sq: "frac ?sq ^ ?k \<le> (frac self * frac self) ^ ?k"
      using frac_mul [OF less.prems(2,2)] by (rule power_mono) simp
    have r': "frac result' \<le> frac result * frac self ^ (e mod 2)"
      using frac_mul [OF less.prems] by (auto simp: result'_def mod2_eq_if)
    have "?k < e" using True by simp
    from less.IH [OF this le' per_mul_le] have
      "pow_loop mr acc result' ?sq ?k \<le> acc" "frac (pow_loop mr acc result' ?sq ?k) \<le> frac result' * frac ?sq ^ ?k"
      by auto
    moreover have "frac result' * frac ?sq ^ ?k \<le> (frac result * frac self ^ (e mod 2)) * (frac self * frac self) ^ ?k"
      using r' sq by (intro mult_mono) simp_all
    moreover have "(frac result * frac self ^ (e mod 2)) * (frac self * frac self) ^ ?k = frac result * frac self ^ e"
    proof -
      have "frac self ^ e = frac self ^ (e mod 2) * (frac self * frac self) ^ ?k"
        by (metis add.commute mult_div_mod_eq power_add power_mult power2_eq_square)
      then show ?thesis by simp
    qed
    ultimately show ?thesis unfolding step by linarith
  qed
qed

lemma per_pow_le:
  fixes mr :: "'u word \<Rightarrow> 'u word \<Rightarrow> 'u word \<Rightarrow> rounding \<Rightarrow> 'u word option"
  assumes mr: "rational_mul mr" and le: "self \<le> acc"
  shows "per_pow mr acc self e \<le> acc \<and> frac (per_pow mr acc self e) \<le> frac self ^ e"
proof (cases "e = 0 \<or> self = acc")
  case True
  have "frac acc = 1" using pos by simp
  with True show ?thesis by (auto simp: per_pow_def from_parts_def)
next
  case False
  then have "frac self * frac self ^ (e - 1) = frac self ^ e" by (cases e) simp_all
  with False pow_loop_le [OF mr le le, of "e - 1"] show ?thesis by (simp add: per_pow_def)
qed

text \<open>The two ways to build a fraction from a percentage agree.\<close>

lemma percent_agree:
  fixes mr :: "'i word \<Rightarrow> 'i word \<Rightarrow> 'i word \<Rightarrow> rounding \<Rightarrow> 'i word option"
  assumes mr: "rational_mul mr" and h: "100 \<le> unat acc"
  shows "from_percent mr acc x = const_from_percent upper acc x"
proof -
  let ?y = "min (unat x) 100"
  have "(100 :: nat) < 2 ^ 7" by simp
  also have "\<dots> \<le> 2 ^ LENGTH('i)" using inner_bits by (intro power_increasing) simp_all
  finally have b: "(100 :: nat) < 2 ^ LENGTH('i)" .
  then have c: "unat (100 :: 'i word) = 100" using unat_of_nat [of 100, where 'a = 'i] by simp
  have "(2 :: nat) ^ LENGTH('i) \<le> 2 ^ LENGTH('u)" using inner_upper by (intro power_increasing) simp_all
  then have "(100 :: nat) < 2 ^ LENGTH('u)" using b by linarith
  then have C: "unat (100 :: 'u word) = 100" using unat_of_nat [of 100, where 'a = 'u] by simp
  have "?y * unat acc \<le> unat acc * unat acc" using h by (intro mult_le_mono) simp_all
  then have "?y * unat acc < 2 ^ LENGTH('u)" using acc_upper by linarith
  moreover have m: "unat (min x 100 :: 'i word) = ?y" by (simp only: unat_min c)
  moreover have i: "(if 100 < x then 100 else x) = min x 100" by (auto simp: min_def)
  ultimately have prod: "unat ((ucast (if 100 < x then 100 else x) :: 'u word) * ucast acc) = ?y * unat acc"
    using unat_mult_lem [of "ucast (min x 100) :: 'u word" "ucast acc"] by (simp add: up)
  have small: "?y * unat acc div 100 \<le> unat acc" using div_le_mono [of "?y * unat acc" "100 * unat acc" 100] by simp
  then have "?y * unat acc div 100 < 2 ^ LENGTH('i)" using unat_less_power [of acc] by linarith
  moreover have "unat ((ucast (if 100 < x then 100 else x) :: 'u word) * ucast acc div 100) = ?y * unat acc div 100"
    by (simp only: unat_div prod C)
  ultimately have "unat (const_from_percent upper acc x) = ?y * unat acc div 100"
    unfolding const_from_percent_def using unat_cast_fits by metis
  moreover have "\<not> ((100 :: 'i word) = 0 \<or> 100 < min x 100)"
  proof -
    have "(100 :: 'i word) \<noteq> 0" using c by (metis unat_0 zero_neq_numeral)
    then show ?thesis unfolding word_less_nat_alt m c by simp
  qed
  then have "unat (from_percent mr acc x) = unat acc * ?y div 100"
    unfolding from_percent_def Let_def unat_from_rational [OF mr order_refl] m c by (simp only: if_False)
  ultimately show ?thesis by (simp add: word_unat_eq_iff mult.commute)
qed

end

section \<open>The five types\<close>

interpretation percent: per_thing "100 :: 8 word" "TYPE(16)"
  by unfold_locales simp_all

interpretation peru16: per_thing "65535 :: 16 word" "TYPE(32)"
  by unfold_locales simp_all

interpretation permill: per_thing "1000000 :: 32 word" "TYPE(64)"
  by unfold_locales simp_all

interpretation perbill: per_thing "1000000000 :: 32 word" "TYPE(64)"
  by unfold_locales simp_all

interpretation perquintill: per_thing "1000000000000000000 :: 64 word" "TYPE(128)"
  by unfold_locales simp_all

section \<open>Properties\<close>

text \<open>
  C30. Multiplying an integer by a fraction is exact for every type of fraction and every
  integer type at least as wide: the result is the integer times the number of parts, divided
  by the number of parts of one and rounded as asked. No step of the computation overflows.
\<close>

theorem overflow_prune_mul_exact:
  fixes acc part :: "'i::len word" and x :: "'n::len word"
  assumes "per_thing TYPE('u::len) acc" "LENGTH('i) \<le> LENGTH('n)" "part \<le> acc"
  shows "unat (overflow_prune_mul TYPE('u) acc x part r) = round_div r (unat x * unat part) (unat acc)"
  using assms by (rule per_thing.prune_mul_exact)

theorem overflow_prune_mul_exact_witness:
  "unat (overflow_prune_mul TYPE(64) 1000000000 (1001 :: 128 word) (500000000 :: 32 word) NearestPrefDown) = 500 \<and>
   round_div NearestPrefDown (1001 * 500000000) 1000000000 = 500"
  using overflow_prune_mul_exact [OF perbill.per_thing_axioms, of 500000000 "1001 :: 128 word" NearestPrefDown]
  by (simp add: round_div_def)

text \<open>
  C31. Dividing an integer by a fraction is exact and saturates: the result is the integer times
  the number of parts of one, divided by the number of parts of the fraction and rounded as asked,
  or the largest integer of the type. It panics exactly for the fraction zero.
\<close>

theorem saturating_reciprocal_mul_exact:
  fixes acc part :: "'i::len word" and x :: "'n::len word"
  assumes "per_thing TYPE('u::len) acc" "LENGTH('i) \<le> LENGTH('n)" "part \<le> acc"
  shows "map_option unat (saturating_reciprocal_mul TYPE('u) acc x part r) =
    (if part = 0 then None else Some (min (round_div r (unat x * unat acc) (unat part)) (2 ^ LENGTH('n) - 1)))"
  using per_thing.reciprocal_mul_exact [OF assms, where upper = "TYPE('u)"]
  by (cases "part = 0") (simp_all add: saturating_reciprocal_mul_def)

theorem saturating_reciprocal_mul_exact_witness:
  "map_option unat (saturating_reciprocal_mul TYPE(32) 65535 (4000000000 :: 32 word) (21845 :: 16 word) Down) = Some 4294967295 \<and>
   map_option unat (saturating_reciprocal_mul TYPE(32) 65535 (10 :: 32 word) (21845 :: 16 word) Down) = Some 30"
  using saturating_reciprocal_mul_exact [OF peru16.per_thing_axioms, of 21845 "4000000000 :: 32 word" Down]
    saturating_reciprocal_mul_exact [OF peru16.per_thing_axioms, of 21845 "10 :: 32 word" Down]
  by (simp add: round_div_def)

text \<open>
  C32. Building a fraction from a rational is exact: it fails exactly for a zero denominator or
  a numerator larger than the denominator, and otherwise returns the number of parts times the
  numerator divided by the denominator, rounded as asked.
\<close>

theorem from_rational_rounds:
  fixes acc :: "'i::len word" and p q :: "'n::len word"
  assumes "per_thing TYPE('u::len) acc" "rational_mul mr" "LENGTH('i) \<le> LENGTH('n)"
  shows "from_rational_with_rounding mr acc p q r =
    (if q = 0 \<or> q < p then Inl () else Inr (of_nat (round_div r (unat acc * unat p) (unat q))))"
  using assms by (rule per_thing.from_rational_exact)

theorem from_rational_rounds_witness:
  "from_rational_with_rounding multiply_by_rational_with_rounding (100 :: 8 word) 985 1000 NearestPrefUp = Inr 99"
  using from_rational_rounds [OF percent.per_thing_axioms mr_u128.rational_mul_axioms, of 985 1000 NearestPrefUp]
  by (simp add: round_div_def)

text \<open>
  C33. A fraction never leaves its range: for an accuracy of at least 100 and arguments in range,
  each of the constructors (from parts, from a percentage, from a rational of any wide enough
  integer type, decoded or compact-decoded) and each of the operations that yield a fraction (the
  epsilon steps and their fallible versions, complement, square, power, the saturating, wrapping
  and checked additions and subtractions, products and quotients of fractions, and products and
  quotients with an integer) yields at most one whenever it yields a value.
\<close>

theorem per_things_stay_in_range:
  fixes acc :: "'i::len word" and k :: "'k::len word"
  assumes "per_thing TYPE('u::len) acc" "rational_mul (mr :: 'u word \<Rightarrow> _)" "rational_mul (mri :: 'i word \<Rightarrow> _)"
    "rational_mul (mrn :: 'n::len word \<Rightarrow> _)" "LENGTH('i) \<le> LENGTH('n)" "100 \<le> unat acc"
    "p \<le> acc" "q \<le> acc"
  shows "from_parts acc x \<le> acc \<and> from_percent mri acc x \<le> acc \<and> const_from_percent TYPE('u) acc x \<le> acc \<and>
    from_rational mrn acc a b \<le> acc \<and> (\<forall>y. from_rational_with_rounding mrn acc a b r = Inr y \<longrightarrow> y \<le> acc) \<and>
    less_epsilon acc p \<le> acc \<and> (\<forall>y. try_less_epsilon acc p = Inl y \<or> try_less_epsilon acc p = Inr y \<longrightarrow> y \<le> acc) \<and>
    plus_epsilon acc p \<le> acc \<and> (\<forall>y. try_plus_epsilon acc p = Inl y \<or> try_plus_epsilon acc p = Inr y \<longrightarrow> y \<le> acc) \<and>
    left_from_one acc p \<le> acc \<and> square mr acc p \<le> acc \<and> per_pow mr acc p e \<le> acc \<and>
    per_saturating_add acc p q \<le> acc \<and> per_saturating_sub acc p q \<le> acc \<and>
    per_saturating_div mri acc p q r \<le> acc \<and>
    per_add acc p q \<le> acc \<and> per_sub acc p q \<le> acc \<and> per_mul TYPE('u) acc p q \<le> acc \<and> per_div mri acc p q \<le> acc \<and>
    (\<forall>y. per_checked_add acc p q = Some y \<longrightarrow> y \<le> acc) \<and> (\<forall>y. per_checked_sub acc p q = Some y \<longrightarrow> y \<le> acc) \<and>
    int_mul acc p x \<le> acc \<and> (\<forall>y. int_div p x = Some y \<longrightarrow> y \<le> acc) \<and>
    (\<forall>y. per_div_int acc p k = Some y \<longrightarrow> y \<le> acc) \<and>
    (\<forall>y. per_decode acc x = Inr y \<longrightarrow> y \<le> acc) \<and> per_decode_compact acc x \<le> acc"
proof (intro conjI)
  note fr = per_thing.from_rational_le [OF assms(1)]
  note le = fr(2) [OF assms(3) order_refl] and le' = fr(1) [OF assms(3) order_refl]
  show pct: "from_percent mri acc x \<le> acc" using le by (simp add: from_percent_def Let_def)
  show "const_from_percent TYPE('u) acc x \<le> acc"
    using pct per_thing.percent_agree [OF assms(1,3,6)] by simp
  show "from_rational mrn acc a b \<le> acc" by (rule fr(2) [OF assms(4,5)])
  show "\<forall>y. from_rational_with_rounding mrn acc a b r = Inr y \<longrightarrow> y \<le> acc" using fr(1) [OF assms(4,5)] by blast
  show "\<forall>y. try_less_epsilon acc p = Inl y \<or> try_less_epsilon acc p = Inr y \<longrightarrow> y \<le> acc"
    "\<forall>y. try_plus_epsilon acc p = Inl y \<or> try_plus_epsilon acc p = Inr y \<longrightarrow> y \<le> acc"
    using assms(7) by (auto simp: try_less_epsilon_def try_plus_epsilon_def from_parts_def split: if_splits)
  show mul: "per_mul TYPE('u) acc p q \<le> acc" by (rule per_thing.per_mul_le [OF assms(1)])
  show "square mr acc p \<le> acc"
    unfolding per_thing.square_mul [OF assms(1,2,7), where upper = "TYPE('u)"] by (rule per_thing.per_mul_le [OF assms(1)])
  show "per_pow mr acc p e \<le> acc" using per_thing.per_pow_le [OF assms(1,2,7)] by blast
  show "per_saturating_div mri acc p q r \<le> acc"
    using le' by (cases "from_rational_with_rounding mri acc p q r") (simp_all add: per_saturating_div_def from_parts_def)
  show "per_div mri acc p q \<le> acc" using le by (simp add: per_div_def)
  have "p div x \<le> p" by (simp add: word_le_nat_alt unat_div div_le_dividend)
  with assms(7) show "\<forall>y. int_div p x = Some y \<longrightarrow> y \<le> acc" by (auto simp: int_div_def)
  show "\<forall>y. per_div_int acc p k = Some y \<longrightarrow> y \<le> acc" "\<forall>y. per_decode acc x = Inr y \<longrightarrow> y \<le> acc"
    "\<forall>y. per_checked_add acc p q = Some y \<longrightarrow> y \<le> acc" "\<forall>y. per_checked_sub acc p q = Some y \<longrightarrow> y \<le> acc"
    by (auto simp: per_div_int_def per_decode_def per_checked_add_def per_checked_sub_def from_parts_def split: if_splits option.splits)
qed (use assms(7) in \<open>simp_all add: from_parts_def less_epsilon_def plus_epsilon_def left_from_one_def
      per_saturating_add_def per_saturating_sub_def int_mul_def per_add_def per_sub_def per_decode_compact_def\<close>)

theorem per_things_stay_in_range_witness:
  "per_pow (multiply_rational TYPE(128) :: 64 word \<Rightarrow> _) (1000000000 :: 32 word) 900000000 5 \<le> 1000000000 \<and>
   from_rational multiply_by_rational_with_rounding (1000000000 :: 32 word) 3 2 \<le> 1000000000"
  using per_things_stay_in_range [OF perbill.per_thing_axioms mr_u64.rational_mul_axioms mr_u32.rational_mul_axioms
      mr_u128.rational_mul_axioms, where p = 900000000 and q = 0 and a = 3 and b = 2 and e = 5 and x = 0
      and r = Down and k = "0 :: 8 word"]
  by simp

text \<open>
  C34. A power of a fraction never exceeds the real power: the repeated squarings and products
  only round down, and the loop terminates for every exponent.
\<close>

theorem per_pow_rounds_down:
  fixes acc :: "'i::len word"
  assumes "per_thing TYPE('u::len) acc" "rational_mul (mr :: 'u word \<Rightarrow> _)" "p \<le> acc"
  shows "ratio (unat (per_pow mr acc p e)) (unat acc) \<le> ratio (unat p) (unat acc) ^ e"
  using per_thing.per_pow_le [OF assms] by blast

theorem per_pow_rounds_down_witness:
  "ratio (unat (per_pow (multiply_rational TYPE(32) :: 16 word \<Rightarrow> _) (100 :: 8 word) 50 2)) 100 \<le> ratio 50 100 ^ 2"
  using per_pow_rounds_down [OF percent.per_thing_axioms mr_u16.rational_mul_axioms, of 50 2] by simp

text \<open>The constant function \<open>from_percent\<close> of a type and the one of the trait agree on all arguments.\<close>

lemma from_percent_agree:
  fixes acc :: "'i::len word"
  assumes "per_thing TYPE('u::len) acc" "rational_mul (mr :: 'i word \<Rightarrow> _)" "100 \<le> unat acc"
  shows "from_percent mr acc x = const_from_percent TYPE('u) acc x"
  using assms by (rule per_thing.percent_agree)

end
