(* ===== verification/Origins.thy ===== *)
theory Origins
  imports Tokens
begin

text \<open>
  The origins of a call (\<open>frame/support/src/dispatch.rs\<close>) and the checks of
  \<open>frame/system/src/lib.rs\<close> on them.
\<close>

datatype 'a raw_origin = Root | Signed 'a | Unsigned | Authorized

fun ensure_signed :: "'a raw_origin \<Rightarrow> dispatch_error + 'a" where
  "ensure_signed (Signed t) = Inr t"
| "ensure_signed _ = Inl DE_BadOrigin"

fun ensure_signed_or_root :: "'a raw_origin \<Rightarrow> dispatch_error + 'a option" where
  "ensure_signed_or_root Root = Inr None"
| "ensure_signed_or_root (Signed t) = Inr (Some t)"
| "ensure_signed_or_root _ = Inl DE_BadOrigin"

fun ensure_root :: "'a raw_origin \<Rightarrow> dispatch_error + unit" where
  "ensure_root Root = Inr ()"
| "ensure_root _ = Inl DE_BadOrigin"

fun ensure_none :: "'a raw_origin \<Rightarrow> dispatch_error + unit" where
  "ensure_none Unsigned = Inr ()"
| "ensure_none _ = Inl DE_BadOrigin"

fun ensure_authorized :: "'a raw_origin \<Rightarrow> dispatch_error + unit" where
  "ensure_authorized Authorized = Inr ()"
| "ensure_authorized _ = Inl DE_BadOrigin"

lemma ensure_Ok:
  "ensure_signed origin = Inr a \<longleftrightarrow> origin = Signed a"
  "ensure_root origin = Inr () \<longleftrightarrow> origin = Root"
  by (cases origin; simp)+

end
