(* ===== verification/Calls.thy ===== *)
theory Calls
  imports Claims Per_Things Origins
begin

text \<open>
  The calls of the balances pallet: every dispatchable of \<open>frame/balances/src/lib.rs\<close> in the storage
  layer the call macro wraps it in, the genesis build and the state checks of
  \<open>do_try_state\<close>. \<open>lookup\<close> stands for the runtime's \<open>T::Lookup\<close>, \<open>derive\<close> for the key derivation of
  \<open>sp_core\<close>.

  The lemmas show that a call that fails changes nothing, that from genesis on the balances add up
  to the total issuance, that a signed call takes from nobody but its signer, and when upgrading
  accounts is free of charge.
\<close>

section \<open>The dispatchables\<close>

type_synonym ('a, 'l, 'm) lookup = "'l \<Rightarrow> ('a, 'm) runtime_scheme \<Rightarrow> 'a option"

text \<open>\<open>T::Lookup::lookup\<close>, whose only error is \<open>LookupError\<close>.\<close>

definition look :: "('a, 'l, 'm) lookup \<Rightarrow> 'l \<Rightarrow> (('a, 'm) runtime_scheme, dispatch_error, 'a) comp" where
  "look lookup l = bindE (getsE (lookup l)) (\<lambda>r. ok_or r DE_CannotLookup)"

definition transfer_allow_death ::
  "('a, 'm) cfg \<Rightarrow> ('a, 'l, 'm) lookup \<Rightarrow> 'a raw_origin \<Rightarrow> 'l \<Rightarrow> balance \<Rightarrow>
   (('a, 'm) runtime_scheme, dispatch_error, unit) comp" where
  "transfer_allow_death cfg lookup origin dest value =
     bindE (liftR (ensure_signed origin)) (\<lambda>source.
     bindE (look lookup dest) (\<lambda>dest.
     bindE (transfer cfg source dest value Expendable) (\<lambda>_.
     ret ())))"

definition force_transfer ::
  "('a, 'm) cfg \<Rightarrow> ('a, 'l, 'm) lookup \<Rightarrow> 'a raw_origin \<Rightarrow> 'l \<Rightarrow> 'l \<Rightarrow> balance \<Rightarrow>
   (('a, 'm) runtime_scheme, dispatch_error, unit) comp" where
  "force_transfer cfg lookup origin source dest value =
     bindE (liftR (ensure_root origin)) (\<lambda>_.
     bindE (look lookup source) (\<lambda>source.
     bindE (look lookup dest) (\<lambda>dest.
     bindE (transfer cfg source dest value Expendable) (\<lambda>_.
     ret ()))))"

definition transfer_keep_alive ::
  "('a, 'm) cfg \<Rightarrow> ('a, 'l, 'm) lookup \<Rightarrow> 'a raw_origin \<Rightarrow> 'l \<Rightarrow> balance \<Rightarrow>
   (('a, 'm) runtime_scheme, dispatch_error, unit) comp" where
  "transfer_keep_alive cfg lookup origin dest value =
     bindE (liftR (ensure_signed origin)) (\<lambda>source.
     bindE (look lookup dest) (\<lambda>dest.
     bindE (transfer cfg source dest value Preserve) (\<lambda>_.
     ret ())))"

definition transfer_all ::
  "('a, 'm) cfg \<Rightarrow> ('a, 'l, 'm) lookup \<Rightarrow> 'a raw_origin \<Rightarrow> 'l \<Rightarrow> bool \<Rightarrow>
   (('a, 'm) runtime_scheme, dispatch_error, unit) comp" where
  "transfer_all cfg lookup origin dest keep_alive =
     bindE (liftR (ensure_signed origin)) (\<lambda>transactor.
     let keep_alive = (if keep_alive then Preserve else Expendable) in
     bindE (getsE (reducible_balance cfg transactor keep_alive Polite)) (\<lambda>reducible.
     bindE (look lookup dest) (\<lambda>dest.
     bindE (transfer cfg transactor dest reducible keep_alive) (\<lambda>_.
     ret ()))))"

definition force_unreserve ::
  "('a, 'm) cfg \<Rightarrow> ('a, 'l, 'm) lookup \<Rightarrow> 'a raw_origin \<Rightarrow> 'l \<Rightarrow> balance \<Rightarrow>
   (('a, 'm) runtime_scheme, dispatch_error, unit) comp" where
  "force_unreserve cfg lookup origin who amount =
     bindE (liftR (ensure_root origin)) (\<lambda>_.
     bindE (look lookup who) (\<lambda>who.
     bindE (runE (unreserve cfg who amount)) (\<lambda>leftover.
     ret ())))"

datatype pays = Pays_Yes | Pays_No

text \<open>The loop over the accounts to upgrade, with its saturating counter.\<close>

fun upgrade_loop ::
  "('a, 'm) cfg \<Rightarrow> 'a list \<Rightarrow> u32 \<Rightarrow> ('a, 'm) runtime_scheme \<Rightarrow> u32 \<times> ('a, 'm) runtime_scheme" where
  "upgrade_loop cfg [] upgrade_count s = (upgrade_count, s)"
| "upgrade_loop cfg (i # who) upgrade_count s =
     (let (upgraded, s) = ensure_upgraded cfg i s
      in upgrade_loop cfg who (if upgraded then saturating_add upgrade_count 1 else upgrade_count) s)"

definition fee_waived :: "u32 \<Rightarrow> nat \<Rightarrow> bool" where
  "fee_waived upgrade_count len =
     (let proportion_upgraded =
        from_rational (multiply_rational TYPE(64)) (1000000000 :: u32) upgrade_count (of_nat len)
      in proportion_upgraded \<ge> const_from_percent TYPE(64) 1000000000 90)"

definition upgrade_accounts ::
  "('a, 'm) cfg \<Rightarrow> 'a raw_origin \<Rightarrow> 'a list \<Rightarrow> (('a, 'm) runtime_scheme, dispatch_error, pays) comp" where
  "upgrade_accounts cfg origin who =
     bindE (liftR (ensure_signed origin)) (\<lambda>_.
     if who = [] then ret Pays_Yes
     else
       bindE (runE (upgrade_loop cfg who 0)) (\<lambda>upgrade_count.
       ret (if fee_waived upgrade_count (length who) then Pays_No else Pays_Yes)))"

definition force_set_balance ::
  "('a, 'm) cfg \<Rightarrow> ('a, 'l, 'm) lookup \<Rightarrow> 'a raw_origin \<Rightarrow> 'l \<Rightarrow> balance \<Rightarrow>
   (('a, 'm) runtime_scheme, dispatch_error, unit) comp" where
  "force_set_balance cfg lookup origin who new_free =
     bindE (liftR (ensure_root origin)) (\<lambda>_.
     bindE (look lookup who) (\<lambda>who.
     let wipeout = new_free < ed cfg;
         new_free = (if wipeout then 0 else new_free) in
     bindE (mutate_account_handling_dust cfg no_drop who False
       (\<lambda>account. (free account, account\<lparr>free := new_free\<rparr>))) (\<lambda>old_free.
     bindE (modifyE
       (if new_free > old_free then drop_positive (new_free - old_free)
        else if new_free < old_free then drop_negative (old_free - new_free)
        else (\<lambda>s. s))) (\<lambda>_.
     bindE (modifyE (deposit_event (Balances (Ev_BalanceSet who new_free)))) (\<lambda>_.
     ret ())))))"

definition force_adjust_total_issuance ::
  "'a raw_origin \<Rightarrow> adjustment_direction \<Rightarrow> balance \<Rightarrow>
   (('a, 'm) runtime_scheme, dispatch_error, unit) comp" where
  "force_adjust_total_issuance origin direction delta =
     bindE (liftR (ensure_root origin)) (\<lambda>_.
     bindE (ensureE (delta > 0) (DE_Module DeltaZero)) (\<lambda>_.
     bindE (getsE total_issuance) (\<lambda>old.
     let new = (case direction of Increase \<Rightarrow> saturating_add old delta | Decrease \<Rightarrow> saturating_sub old delta) in
     bindE (getsE inactive_issuance) (\<lambda>inactive.
     bindE (ensureE (inactive \<le> new) (DE_Module IssuanceDeactivated)) (\<lambda>_.
     bindE (modifyE (\<lambda>s. s\<lparr>total_issuance := new\<rparr>)) (\<lambda>_.
     bindE (modifyE (deposit_event (Balances (Ev_TotalIssuanceForced old new)))) (\<lambda>_.
     ret ())))))))"

definition burn ::
  "('a, 'm) cfg \<Rightarrow> 'a raw_origin \<Rightarrow> balance \<Rightarrow> bool \<Rightarrow>
   (('a, 'm) runtime_scheme, dispatch_error, unit) comp" where
  "burn cfg origin value keep_alive =
     bindE (liftR (ensure_signed origin)) (\<lambda>source.
     let preservation = (if keep_alive then Preserve else Expendable) in
     bindE (burn_from cfg source value preservation Exact Polite) (\<lambda>_.
     ret ()))"

text \<open>
  The call enumeration the macro derives from the dispatchables, and
  \<open>dispatch_bypass_filter\<close>: every call runs in a storage layer of its own. A call that returns
  \<open>()\<close> has the default post-dispatch information, which pays the fee.
\<close>

datatype ('a, 'l) call =
    Transfer_allow_death 'l balance
  | Force_transfer 'l 'l balance
  | Transfer_keep_alive 'l balance
  | Transfer_all 'l bool
  | Force_unreserve 'l balance
  | Upgrade_accounts "'a list"
  | Force_set_balance 'l balance
  | Force_adjust_total_issuance adjustment_direction balance
  | Burn balance bool

definition paying :: "('s, 'e, unit) comp \<Rightarrow> ('s, 'e, pays) comp" where
  "paying m = bindE m (\<lambda>_. ret Pays_Yes)"

fun call_body ::
  "('a, 'm) cfg \<Rightarrow> ('a, 'l, 'm) lookup \<Rightarrow> 'a raw_origin \<Rightarrow> ('a, 'l) call \<Rightarrow>
   (('a, 'm) runtime_scheme, dispatch_error, pays) comp" where
  "call_body cfg lookup origin (Transfer_allow_death dest value) =
     paying (transfer_allow_death cfg lookup origin dest value)"
| "call_body cfg lookup origin (Force_transfer source dest value) =
     paying (force_transfer cfg lookup origin source dest value)"
| "call_body cfg lookup origin (Transfer_keep_alive dest value) =
     paying (transfer_keep_alive cfg lookup origin dest value)"
| "call_body cfg lookup origin (Transfer_all dest keep_alive) =
     paying (transfer_all cfg lookup origin dest keep_alive)"
| "call_body cfg lookup origin (Force_unreserve who amount) =
     paying (force_unreserve cfg lookup origin who amount)"
| "call_body cfg lookup origin (Upgrade_accounts who) = upgrade_accounts cfg origin who"
| "call_body cfg lookup origin (Force_set_balance who new_free) =
     paying (force_set_balance cfg lookup origin who new_free)"
| "call_body cfg lookup origin (Force_adjust_total_issuance direction delta) =
     paying (force_adjust_total_issuance origin direction delta)"
| "call_body cfg lookup origin (Burn value keep_alive) = paying (burn cfg origin value keep_alive)"

definition dispatch_bypass_filter ::
  "('a, 'm) cfg \<Rightarrow> ('a, 'l, 'm) lookup \<Rightarrow> 'a raw_origin \<Rightarrow> ('a, 'l) call \<Rightarrow>
   (('a, 'm) runtime_scheme, dispatch_error, pays) comp" where
  "dispatch_bypass_filter cfg lookup origin c = with_storage_layer (call_body cfg lookup origin c)"

section \<open>Genesis\<close>

text \<open>The strings of the key derivation: \<open>contains("{}")\<close>, \<open>replace("{}", index)\<close>, \<open>to_string\<close>.\<close>

fun contains_braces :: "string \<Rightarrow> bool" where
  "contains_braces (c # d # cs) \<longleftrightarrow> c = CHR ''{'' \<and> d = CHR ''}'' \<or> contains_braces (d # cs)"
| "contains_braces _ \<longleftrightarrow> False"

fun replace_braces :: "string \<Rightarrow> string \<Rightarrow> string" where
  "replace_braces i (c # d # cs) =
     (if c = CHR ''{'' \<and> d = CHR ''}'' then i @ replace_braces i cs
      else c # replace_braces i (d # cs))"
| "replace_braces i cs = cs"

fun nat_to_string :: "nat \<Rightarrow> string" where
  "nat_to_string n =
     (if n < 10 then [char_of (48 + n)] else nat_to_string (n div 10) @ [char_of (48 + n mod 10)])"

declare nat_to_string.simps [simp del]

definition DEFAULT_ADDRESS_URI :: string where
  "DEFAULT_ADDRESS_URI = ''//Sender//{}''"

text \<open>A failed assertion or \<open>expect\<close> aborts the build: \<open>None\<close>.\<close>

fun endow_dev ::
  "('a, 'm) cfg \<Rightarrow> (string \<Rightarrow> 'a option) \<Rightarrow> balance \<Rightarrow> string \<Rightarrow> nat list \<Rightarrow>
   ('a, 'm) runtime_scheme \<Rightarrow> ('a, 'm) runtime_scheme option" where
  "endow_dev cfg derive balance derivation [] s = Some s"
| "endow_dev cfg derive balance derivation (index # rest) s =
     (let derivation_string = replace_braces (nat_to_string index) derivation
      in case derive derivation_string of
           None \<Rightarrow> None
         | Some who \<Rightarrow>
             (case mutate_account_handling_dust cfg no_drop who False (\<lambda>a. ((), a\<lparr>free := balance\<rparr>)) s of
                (Inl _, _) \<Rightarrow> None
              | (Inr _, s') \<Rightarrow> endow_dev cfg derive balance derivation rest s'))"

definition derive_dev_account ::
  "('a, 'm) cfg \<Rightarrow> (string \<Rightarrow> 'a option) \<Rightarrow> u32 \<Rightarrow> balance \<Rightarrow> string \<Rightarrow>
   ('a, 'm) runtime_scheme \<Rightarrow> ('a, 'm) runtime_scheme option" where
  "derive_dev_account cfg derive num_accounts balance derivation s =
     (if \<not> num_accounts > 0 then None
      else if \<not> balance \<ge> existential_deposit cfg then None
      else if \<not> contains_braces derivation then None
      else endow_dev cfg derive balance derivation [0 ..< unat num_accounts] s)"

fun endow :: "('a, 'm) cfg \<Rightarrow> ('a \<times> balance) list \<Rightarrow> ('a, 'm) runtime_scheme \<Rightarrow> ('a, 'm) runtime_scheme option" where
  "endow cfg [] s = Some s"
| "endow cfg ((who, amount) # rest) s =
     (case store_insert who (account_data_default\<lparr>free := amount\<rparr>) (snd (inc_providers cfg who s)) of
        (Inl _, _) \<Rightarrow> None
      | (Inr _, s') \<Rightarrow> endow cfg rest s')"

record 'a genesis_config =
  balances :: "('a \<times> balance) list"
  dev_accounts :: "(u32 \<times> balance \<times> string option) option"

definition genesis_build ::
  "('a, 'm) cfg \<Rightarrow> (string \<Rightarrow> 'a option) \<Rightarrow> 'a genesis_config \<Rightarrow>
   ('a, 'm) runtime_scheme \<Rightarrow> ('a, 'm) runtime_scheme option" where
  "genesis_build cfg derive self s =
     (let total = foldl (\<lambda>acc (_, n). acc + n) 0 (balances self);
          s1 = s\<lparr>total_issuance := total\<rparr>
      in if \<not> list_all (\<lambda>(_, b). b \<ge> existential_deposit cfg) (balances self) then None
         else if card (set (map fst (balances self))) \<noteq> length (balances self) then None
         else
           case (case dev_accounts self of
                   None \<Rightarrow> Some s1
                 | Some (num_accounts, balance, derivation) \<Rightarrow>
                     derive_dev_account cfg derive num_accounts balance
                       (case derivation of Some d \<Rightarrow> d | None \<Rightarrow> DEFAULT_ADDRESS_URI) s1) of
             None \<Rightarrow> None
           | Some s2 \<Rightarrow> endow cfg (balances self) s2)"

definition integrity_test :: "('a, 'm) cfg \<Rightarrow> bool" where
  "integrity_test cfg \<longleftrightarrow> existential_deposit cfg \<noteq> 0"

section \<open>State checks\<close>

text \<open>
  \<open>do_try_state\<close>. Iterating over a storage map visits its keys in an order of the storage backend:
  \<open>hold_keys\<close>, \<open>freeze_keys\<close> and \<open>lock_keys\<close> are the keys of the three maps in that order.
\<close>

fun try_for_each :: "('k \<Rightarrow> string + unit) \<Rightarrow> 'k list \<Rightarrow> string + unit" where
  "try_for_each f [] = Inr ()"
| "try_for_each f (k # ks) = (case f k of Inl e \<Rightarrow> Inl e | Inr _ \<Rightarrow> try_for_each f ks)"

definition and_then :: "string + unit \<Rightarrow> string + unit \<Rightarrow> string + unit" where
  "and_then a b = (case a of Inl e \<Rightarrow> Inl e | Inr _ \<Rightarrow> b)"

definition hold_and_freeze_count ::
  "('a, 'm) cfg \<Rightarrow> 'a list \<Rightarrow> 'a list \<Rightarrow> ('a, 'm) runtime_scheme \<Rightarrow> string + unit" where
  "hold_and_freeze_count cfg hold_keys freeze_keys s =
     and_then
       (try_for_each (\<lambda>k. if (case holds_map s k of Some v \<Rightarrow> length v | None \<Rightarrow> 0) > hold_variant_count cfg
          then Inl ''Found `Hold` with too many elements'' else Inr ()) hold_keys)
       (try_for_each (\<lambda>k. if (case freezes_map s k of Some v \<Rightarrow> length v | None \<Rightarrow> 0) > freeze_variant_count cfg
          then Inl ''Found `Freeze` with too many elements'' else Inr ()) freeze_keys)"

definition max_amount :: "balance list \<Rightarrow> balance" where
  "max_amount xs = (case xs of [] \<Rightarrow> 0 | x # xs \<Rightarrow> foldl max x xs)"

definition account_frozen_greater_than_locks :: "'a list \<Rightarrow> ('a, 'm) runtime_scheme \<Rightarrow> string + unit" where
  "account_frozen_greater_than_locks lock_keys s =
     try_for_each (\<lambda>who.
       let max_locks = max_amount (map lock_amount (case locks_map s who of Some v \<Rightarrow> v | None \<Rightarrow> []))
       in if max_locks > frozen (store_get who s) then Inl ''bad locks'' else Inr ()) lock_keys"

definition account_frozen_greater_than_freezes :: "'a list \<Rightarrow> ('a, 'm) runtime_scheme \<Rightarrow> string + unit" where
  "account_frozen_greater_than_freezes freeze_keys s =
     try_for_each (\<lambda>who.
       let max_locks = max_amount (map ia_amount (case freezes_map s who of Some v \<Rightarrow> v | None \<Rightarrow> []))
       in if max_locks > frozen (store_get who s) then Inl ''bad freezes'' else Inr ()) freeze_keys"

definition do_try_state ::
  "('a, 'm) cfg \<Rightarrow> 'a list \<Rightarrow> 'a list \<Rightarrow> 'a list \<Rightarrow> ('a, 'm) runtime_scheme \<Rightarrow> string + unit" where
  "do_try_state cfg hold_keys freeze_keys lock_keys s =
     and_then (hold_and_freeze_count cfg hold_keys freeze_keys s)
       (and_then (account_frozen_greater_than_locks lock_keys s)
         (account_frozen_greater_than_freezes freeze_keys s))"

section \<open>Storage layers around calls\<close>

lemma level_fields [simp]:
  "account_map (dec_transaction_level s) = account_map s"
  "total_issuance (dec_transaction_level s) = total_issuance s"
  "locks_map (dec_transaction_level s) = locks_map s"
  "freezes_map (dec_transaction_level s) = freezes_map s"
  "holds_map (dec_transaction_level s) = holds_map s"
  "reserves_map (dec_transaction_level s) = reserves_map s"
  by (simp_all add: dec_transaction_level_def Let_def)

text \<open>What a call reads of balances does not depend on the layer it runs in.\<close>

lemma account_level [simp]:
  "account k (s\<lparr>transaction_level := l\<rparr>) = account k s"
  "account k (dec_transaction_level s) = account k s"
  by (rule account_cong, simp)+

lemma books_level [simp]:
  "books cfg c d (s\<lparr>transaction_level := l\<rparr>) = books cfg c d s"
  "books cfg c d (dec_transaction_level s) = books cfg c d s"
  by (simp_all add: books_def cong: bal_sum_cong balances_ok_cong)

lemma bal_sum_level [simp]: "bal_sum (s\<lparr>transaction_level := l\<rparr>) = bal_sum s"
  by (simp add: bal_sum_def)

lemma keeps_claims_level:
  "keeps_claims (s\<lparr>transaction_level := l\<rparr>) t = keeps_claims s t"
  "keeps_claims s (dec_transaction_level t) = keeps_claims s t"
  by (simp_all add: keeps_claims_def)

lemma look_Ok: "look lookup l s = (Inr a, t) \<longleftrightarrow> lookup l s = Some a \<and> t = s"
  by (auto simp: look_def monad ok_or_def split: option.splits)

section \<open>Calls keep the books\<close>

text \<open>
  Root may set a balance to anything; the books can only follow while the sum of all balances fits
  the type. Adjusting the issuance by hand is meant to change it without the balances.
\<close>

fun call_fits :: "('a, 'l) call \<Rightarrow> ('a, 'm) runtime_scheme \<Rightarrow> bool" where
  "call_fits (Force_set_balance who new_free) s \<longleftrightarrow> bal_sum s + unat new_free < 2 ^ 128"
| "call_fits (Force_adjust_total_issuance direction delta) s \<longleftrightarrow> False"
| "call_fits _ s \<longleftrightarrow> True"

lemma unit_ret: "(\<lambda>_. ret ()) = ret"
  by (simp add: fun_eq_iff)

lemma paying_Ok: "paying m s = (Inr p, t) \<longleftrightarrow> m s = (Inr (), t) \<and> p = Pays_Yes"
  by (auto simp: paying_def monad bindE_eq_Inr)

lemma transfer_calls_Ok:
  "transfer_allow_death cfg lookup origin dest value s = (Inr u, t) \<longleftrightarrow>
     (\<exists>a b n. origin = Signed a \<and> lookup dest s = Some b \<and> transfer cfg a b value Expendable s = (Inr n, t))"
  "transfer_keep_alive cfg lookup origin dest value s = (Inr u, t) \<longleftrightarrow>
     (\<exists>a b n. origin = Signed a \<and> lookup dest s = Some b \<and> transfer cfg a b value Preserve s = (Inr n, t))"
  "transfer_all cfg lookup origin dest keep s = (Inr u, t) \<longleftrightarrow>
     (\<exists>a b n. origin = Signed a \<and> lookup dest s = Some b \<and>
        transfer cfg a b (reducible_balance cfg a (if keep then Preserve else Expendable) Polite s)
          (if keep then Preserve else Expendable) s = (Inr n, t))"
  "force_transfer cfg lookup origin source dest value s = (Inr u, t) \<longleftrightarrow>
     (\<exists>a b n. origin = Root \<and> lookup source s = Some a \<and> lookup dest s = Some b \<and>
        transfer cfg a b value Expendable s = (Inr n, t))"
  "burn cfg origin value keep s = (Inr u, t) \<longleftrightarrow>
     (\<exists>a n. origin = Signed a \<and>
        burn_from cfg a value (if keep then Preserve else Expendable) Exact Polite s = (Inr n, t))"
  by (cases origin; auto simp: transfer_allow_death_def transfer_keep_alive_def transfer_all_def
      force_transfer_def burn_def Let_def monad bindE_eq_Inr look_Ok)+

text \<open>The two writes of the genesis build: an account, and the wrapping sum of the balances.\<close>

lemma store_insert_Ok:
  "store_insert who d s =
     (Inr (), let a = account_get who s
        in if 0 < providers a \<or> 0 < sufficients a then put_account who (Some (a\<lparr>data := d\<rparr>)) s
           else put_account who None s)"
  by (simp add: store_insert_def store_mutate_def store_try_mutate_exists_def Let_def storage_mutate_def
      account_reads upd_eq_put account_get_def [symmetric])

lemma endow_total:
  "unat (foldl (\<lambda>acc (_, n). acc + n) a bs) = (unat a + sum_list (map (unat \<circ> snd) bs)) mod 2 ^ LENGTH('w)"
  for a :: "'w::len word" and bs :: "('k \<times> 'w word) list"
  by (induction bs arbitrary: a) (auto simp: unat_word_ariths mod_simps ac_simps)

abbreviation endowed :: "balance \<Rightarrow> account_data" where
  "endowed b \<equiv> account_data_default\<lparr>free := b\<rparr>"

text \<open>The accounts the key derivation yields for the indices of a list.\<close>

definition dev_keys :: "(string \<Rightarrow> 'a option) \<Rightarrow> string \<Rightarrow> nat list \<Rightarrow> 'a set" where
  "dev_keys derive derivation is =
     set (List.map_filter (\<lambda>i. derive (replace_braces (nat_to_string i) derivation)) is)"

context books_cfg
begin

lemma upgrade_loop_noop: "balances_ok cfg s \<Longrightarrow> upgrade_loop cfg who n s = (n, s)"
  by (induction who arbitrary: n)
    (simp_all add: ensure_upgraded_noop books_new_logic [unfolded account_def store_get_def])

lemma set_free_books:
  assumes run: "mutate_account_handling_dust cfg no_drop who False (\<lambda>a. (free a, a\<lparr>free := v\<rparr>)) s = (Inr old, t)"
    and ok: "books cfg 0 0 s" and v: "v = 0 \<or> ed cfg \<le> v"
  shows "old = free (account who s)"
    "unat v \<le> unat old \<Longrightarrow> books cfg (unat old - unat v) 0 t"
    "unat old < unat v \<Longrightarrow> books cfg 0 (unat v - unat old) t \<and> total_issuance t = total_issuance s"
proof -
  let ?a = "(account who s)\<lparr>free := v\<rparr>"
  from ok have b: "balances_ok cfg s" by (simp add: books_def)
  have "adjusts cfg who ?a s t \<and> old = free (account who s)"
    by (rule handling_dust_Ok [OF run [unfolded mutate_handling_dust_eq] b ret_def refl])
      (use books_new_logic [OF b, of who] in \<open>auto\<close>)
  then have adj: "adjusts cfg who ?a s t" and old: "old = free (account who s)" by simp_all
  show "old = free (account who s)" by (rule old)
  show "books cfg (unat old - unat v) 0 t" if "unat v \<le> unat old"
    using adjusts_less [OF adj ok, of "unat old - unat v"] that old by (simp add: acct_total_def)
  show "books cfg 0 (unat v - unat old) t \<and> total_issuance t = total_issuance s" if "unat old < unat v"
  proof -
    have no_dust: "dust_of cfg ?a = None" using that v by (auto simp: dust_of_def)
    then have "books cfg 0 (unat v - unat old) t"
      using that old by (intro adjusts_more [OF adj ok]) (simp_all add: acct_total_def)
    then show ?thesis using only_account_fields(1) [OF adjusts_no_dust(1) [OF adj no_dust]] by simp
  qed
qed

lemma force_set_balance_books:
  assumes run: "force_set_balance cfg lookup origin l v s = (Inr u, t)"
    and ok: "books cfg 0 0 s" and fits: "bal_sum s + unat v < 2 ^ 128"
  shows "books cfg 0 0 t"
proof -
  define n where "n = (if v < ed cfg then 0 else v)"
  let ?adjust = "\<lambda>old. if n > old then drop_positive (n - old)
        else if n < old then drop_negative (old - n) else (\<lambda>s. s)"
  have "force_set_balance cfg lookup origin l v =
     bindE (liftR (ensure_root origin)) (\<lambda>_.
     bindE (look lookup l) (\<lambda>who.
     bindE (mutate_account_handling_dust cfg no_drop who False (\<lambda>a. (free a, a\<lparr>free := n\<rparr>))) (\<lambda>old.
     bindE (modifyE (?adjust old)) (\<lambda>_.
     bindE (modifyE (deposit_event (Balances (Ev_BalanceSet who n)))) ret))))"
    by (simp only: force_set_balance_def Let_def n_def unit_ret)
  with run obtain who old s1 where
    m: "mutate_account_handling_dust cfg no_drop who False (\<lambda>a. (free a, a\<lparr>free := n\<rparr>)) s = (Inr old, s1)"
    and t: "core t = core (?adjust old s1)"
    by (cases origin) (auto simp: monad bindE_eq_Inr look_Ok)
  have "n = 0 \<or> ed cfg \<le> n" by (auto simp: n_def)
  note set = set_free_books [OF m ok this]
  have nv: "unat n \<le> unat v" by (simp add: n_def)
  have "books cfg 0 0 (?adjust old s1)"
  proof (cases "old < n")
    case True
    then have d: "unat (n - old) = unat n - unat old" "unat old < unat n"
      by (simp_all add: unat_sub word_less_nat_alt word_le_nat_alt)
    have b: "books cfg 0 (unat (n - old) + 0) s1" using set(3) d by simp
    have "total_issuance s1 = total_issuance s" using set(3) [OF d(2)] ..
    with b have "bal_sum s1 = unat (total_issuance s) + unat (n - old)" by (simp add: books_def)
    moreover have "bal_sum s = unat (total_issuance s)" using ok by (simp add: books_def)
    ultimately have "bal_sum s1 < 2 ^ 128" using fits nv d(1) by linarith
    with True show ?thesis using drop_positive_books [OF b] by simp
  next
    case False
    then have d: "unat (old - n) = unat old - unat n" "unat n \<le> unat old"
      by (simp_all add: not_less unat_sub word_le_nat_alt)
    then have "books cfg (unat (old - n) + 0) 0 s1" using set(2) by simp
    then have "books cfg 0 0 (drop_negative (old - n) s1)" by (rule drop_negative_books)
    moreover have "drop_negative (old - n) s1 = s1" if "n = old" using that by (simp add: drop_negative_def)
    ultimately show ?thesis using False by (cases "n < old") (auto simp: not_less)
  qed
  then show ?thesis using books_cong [OF t] by simp
qed

lemma force_unreserve_books:
  assumes "force_unreserve cfg lookup origin l amount s = (Inr u, t)" "books cfg 0 0 s"
  shows "books cfg 0 0 t"
proof -
  from assms(1) obtain who rest where "unreserve cfg who amount s = (rest, t)"
    by (cases origin) (auto simp: force_unreserve_def monad bindE_eq_Inr look_Ok split: prod.splits, metis surj_pair)
  from unreserve_Ok [OF this assms(2)] show ?thesis by simp
qed

lemma upgrade_accounts_noop:
  "upgrade_accounts cfg origin who s = (Inr p, t) \<Longrightarrow> books cfg c d s \<Longrightarrow> t = s"
  by (cases origin) (auto simp: upgrade_accounts_def monad bindE_eq_Inr books_def upgrade_loop_noop
      split: if_splits)

lemma call_body_books:
  assumes "call_body cfg lookup origin c s = (Inr p, t)" "books cfg 0 0 s" "call_fits c s"
  shows "books cfg 0 0 t"
  using assms
  by (cases c) (auto simp: paying_Ok transfer_calls_Ok
      dest: transfer_books burn_from_Ok(1) force_unreserve_books force_set_balance_books upgrade_accounts_noop)

lemma forced_needs_root:
  assumes "call_body cfg lookup origin c s = (Inr p, t)" "origin \<noteq> Root"
  shows "call_fits c s"
  using assms
  by (cases c; cases origin) (auto simp: paying_Ok force_set_balance_def force_adjust_total_issuance_def monad bindE_eq_Inr)

lemma dispatch_books:
  assumes run: "dispatch_bypass_filter cfg lookup origin c s = (r, t)"
    and ok: "books cfg 0 0 s" and fits: "origin = Root \<longrightarrow> call_fits c s"
  shows "books cfg 0 0 t"
proof (cases r)
  case (Inl e)
  with run show ?thesis using storage_layer_error ok by (auto simp: dispatch_bypass_filter_def)
next
  case (Inr p)
  with run obtain u where
    u: "call_body cfg lookup origin c (s\<lparr>transaction_level := transaction_level s + 1\<rparr>) = (Inr p, u)"
    and t: "t = dec_transaction_level u"
    unfolding dispatch_bypass_filter_def by (blast elim: storage_layer_Ok)
  have "origin = Root \<longrightarrow> call_fits c (s\<lparr>transaction_level := transaction_level s + 1\<rparr>)"
    using fits by (cases c) simp_all
  with forced_needs_root [OF u] have "call_fits c (s\<lparr>transaction_level := transaction_level s + 1\<rparr>)" by blast
  from call_body_books [OF u _ this] ok t show ?thesis by simp
qed

text \<open>Endowing the accounts of the genesis configuration.\<close>

lemma endow_one:
  assumes none: "account_map s who = None" and ok: "balances_ok cfg s" and b: "ed cfg \<le> b"
  obtains t where "store_insert who (account_data_default\<lparr>free := b\<rparr>) (snd (inc_providers cfg who s)) = (Inr (), t)"
    "only_account who s t" "balances_ok cfg t" "bal_sum t = bal_sum s + unat b"
proof -
  let ?d = "account_data_default\<lparr>free := b\<rparr>"
  let ?u = "snd (inc_providers cfg who s)"
  note inc = inc_providers_account [of who s]
  have a0: "account_get who s = account_info_default"
    using none by (simp add: account_get_def storage_get_def)
  have a: "account_get who ?u = account_info_default\<lparr>providers := 1\<rparr>"
    using inc(2) a0 by (simp add: saturating_add_def account_info_default_def)
  let ?t = "put_account who (Some (account_info_default\<lparr>providers := 1, data := ?d\<rparr>)) ?u"
  have run: "store_insert who ?d ?u = (Inr (), ?t)" using a by (simp add: store_insert_Ok)
  have only: "only_account who s ?t"
    using inc(1) by (rule only_account_trans) (rule only_account_put, simp)
  have get: "account_get who ?t = account_info_default\<lparr>providers := 1, data := ?d\<rparr>"
    by (simp add: account_get_put)
  have "account_ok (ed cfg) (account_get who ?t)"
    using get b by (simp add: account_ok_def account_info_default_def account_data_default_def)
  with ok only have bal: "balances_ok cfg ?t" by (rule balances_ok_only_account)
  have "finite (dom (account_map s))" using ok by (simp add: balances_ok_def)
  from bal_sum_only_account [OF this only] have "bal_sum ?t = bal_sum s + unat b"
    using get a0 by (simp add: account_def store_get_def acct_total_def account_info_default_def account_data_default_def)
  with run only bal show thesis by (rule that)
qed

lemma endow_books:
  assumes "endow cfg bs s = Some t" "distinct (map fst bs)" "balances_ok cfg s"
    "\<forall>(who, b) \<in> set bs. ed cfg \<le> b \<and> account_map s who = None"
  shows "balances_ok cfg t \<and> bal_sum t = bal_sum s + sum_list (map (unat \<circ> snd) bs) \<and>
    total_issuance t = total_issuance s"
  using assms
proof (induction bs arbitrary: s)
  case (Cons p bs)
  obtain who b where p: "p = (who, b)" by fastforce
  with Cons.prems obtain u where
    u: "store_insert who (account_data_default\<lparr>free := b\<rparr>) (snd (inc_providers cfg who s)) = (Inr (), u)"
      "only_account who s u" "balances_ok cfg u" "bal_sum u = bal_sum s + unat b"
    by (auto elim: endow_one [of s who b])
  have "account_map u k = account_map s k" if "k \<noteq> who" for k
    using only_account_map [OF u(2)] that by (metis fun_upd_other)
  then have "\<forall>(k, b) \<in> set bs. ed cfg \<le> b \<and> account_map u k = None"
    using Cons.prems(2,4) p by fastforce
  moreover have "endow cfg bs u = Some t" using Cons.prems(1) p u(1) by simp
  ultimately show ?case
    using Cons.IH [of u] Cons.prems(2) p u(3,4) only_account_fields(1) [OF u(2)] by simp
qed simp

lemma genesis_books:
  assumes run: "genesis_build cfg derive \<lparr>balances = bs, dev_accounts = None\<rparr> s0 = Some g"
    and empty: "account_map s0 = Map.empty" and fits: "sum_list (map (unat \<circ> snd) bs) < 2 ^ 128"
  shows "books cfg 0 0 g"
proof -
  let ?n = "foldl (\<lambda>acc (_, n). acc + n) (0::balance) bs"
  let ?s = "s0\<lparr>total_issuance := ?n\<rparr>"
  from run have e: "endow cfg bs ?s = Some g" and big: "list_all (\<lambda>(_, b). b \<ge> existential_deposit cfg) bs"
    and card: "card (set (map fst bs)) = length bs"
    by (auto simp: genesis_build_def Let_def split: if_splits)
  have "distinct (map fst bs)" using card by (intro card_distinct) simp
  moreover have bal: "balances_ok cfg ?s" and z: "bal_sum ?s = 0"
    using empty ed_pos by (simp_all add: balances_ok_def account_get_def storage_get_def account_ok_def
        bal_sum_def msum_def)
  moreover have "\<forall>(who, b) \<in> set bs. ed cfg \<le> b \<and> account_map ?s who = None"
    using big empty by (auto simp: list_all_iff ed_def)
  moreover have "unat ?n = sum_list (map (unat \<circ> snd) bs)" using endow_total [of 0 bs] fits by simp
  ultimately show ?thesis using endow_books [OF e] by (simp add: books_def)
qed

text \<open>
  Development accounts are endowed without touching the issuance, each with the same balance, and
  the configured accounts then overwrite those of them that have the same key.
\<close>

lemma endow_dev_accounts:
  assumes "endow_dev cfg derive b derivation is s = Some t" "balances_ok cfg s" "ed cfg \<le> b"
    "\<And>k. account k s = (if k \<in> D then endowed b else account_data_default)"
    "finite D" "bal_sum s = unat b * card D"
  shows "balances_ok cfg t \<and> total_issuance t = total_issuance s \<and>
    (\<forall>k. account k t = (if k \<in> D \<union> dev_keys derive derivation is then endowed b else account_data_default)) \<and>
    bal_sum t = unat b * card (D \<union> dev_keys derive derivation is)"
  using assms
proof (induction "is" arbitrary: s D)
  case Nil
  then show ?case by (simp add: dev_keys_def)
next
  case (Cons i "is")
  from Cons.prems(1) obtain who u where
    who: "derive (replace_braces (nat_to_string i) derivation) = Some who"
    and m: "mutate_account_handling_dust cfg no_drop who False (\<lambda>a. ((), a\<lparr>free := b\<rparr>)) s = (Inr (), u)"
    and rest: "endow_dev cfg derive b derivation is u = Some t"
    by (auto simp: Let_def split: option.splits prod.splits sum.splits)
  have keys: "D \<union> dev_keys derive derivation (i # is) = insert who D \<union> dev_keys derive derivation is"
    by (simp add: dev_keys_def who)
  let ?a = "(account who s)\<lparr>free := b\<rparr>"
  have a: "?a = endowed b" using Cons.prems(4) [of who] by simp
  have adj: "adjusts cfg who (endowed b) s u"
    by (rule handling_dust_Ok [OF m [unfolded mutate_handling_dust_eq] Cons.prems(2) ret_def refl])
      (use books_new_logic [OF Cons.prems(2), of who] a in \<open>auto\<close>)
  have "dust_of cfg (endowed b) = None" using leD [OF Cons.prems(3)] by (simp add: dust_of_def)
  note u = adjusts_no_dust [OF adj this]
  have acc: "account k u = (if k \<in> insert who D then endowed b else account_data_default)" for k
    using u(3) leD [OF Cons.prems(3)] account_other [OF u(1), of k] Cons.prems(4) [of k]
    by (cases "k = who") (simp_all add: settle_def)
  have "bal_sum u = unat b * card (insert who D)"
    using u(4) Cons.prems(4) [of who] Cons.prems(5,6)
    by (auto simp: card_insert_if acct_total_def account_data_default_def)
  from Cons.IH [OF rest u(2) Cons.prems(3) acc _ this] show ?case
    using Cons.prems(5) only_account_fields(1) [OF u(1)] unfolding keys by simp
qed

lemma endow_insert:
  obtains t where "store_insert who d (snd (inc_providers cfg who s)) = (Inr (), t)"
    "only_account who s t" "account who t = d"
proof -
  let ?u = "snd (inc_providers cfg who s)"
  note inc = inc_providers_account [of who s]
  let ?t = "put_account who (Some ((account_get who ?u)\<lparr>data := d\<rparr>)) ?u"
  have "0 < providers (account_get who ?u)" using inc(2) saturating_inc_pos by (simp add: word_gt_0)
  then have "store_insert who d ?u = (Inr (), ?t)" by (simp add: store_insert_Ok)
  moreover have "only_account who s ?t"
    using inc(1) by (rule only_account_trans) (rule only_account_put, simp)
  moreover have "account who ?t = d" by (simp add: account_def store_get_def account_get_put)
  ultimately show thesis by (rule that)
qed

lemma endow_accounts:
  assumes "endow cfg bs s = Some t" "distinct (map fst bs)" "finite (dom (account_map s))"
  shows "total_issuance t = total_issuance s \<and>
    (\<forall>k. account k t = (case map_of bs k of Some x \<Rightarrow> endowed x | None \<Rightarrow> account k s)) \<and>
    bal_sum t + sum_list (map (\<lambda>(k, _). acct_total (account k s)) bs) = bal_sum s + sum_list (map (unat \<circ> snd) bs)"
  using assms
proof (induction bs arbitrary: s)
  case (Cons p bs)
  obtain who b where p: "p = (who, b)" by fastforce
  obtain u where u: "store_insert who (endowed b) (snd (inc_providers cfg who s)) = (Inr (), u)"
    "only_account who s u" "account who u = endowed b" by (rule endow_insert)
  have rest: "endow cfg bs u = Some t" using Cons.prems(1) p u(1) by simp
  have "finite (dom ((account_map s)(who := account_map u who)))" using Cons.prems(3) by simp
  then have fin: "finite (dom (account_map u))" by (simp only: only_account_map [OF u(2), symmetric])
  note o = account_other [OF u(2)]
  have who: "who \<notin> set (map fst bs)" and d: "distinct (map fst bs)" using Cons.prems(2) p by simp_all
  have "(\<Sum>(k, _)\<leftarrow>bs. acct_total (account k u)) = (\<Sum>(k, _)\<leftarrow>bs. acct_total (account k s))"
    by (rule arg_cong [of _ _ sum_list], rule map_cong [OF refl]) (use who o in \<open>force\<close>)
  moreover have "bal_sum u + acct_total (account who s) = bal_sum s + unat b"
    using bal_sum_only_account [OF Cons.prems(3) u(2)] u(3) by (simp add: acct_total_def account_data_default_def)
  moreover have "map_of bs who = None" using who by (simp add: map_of_eq_None_iff)
  ultimately show ?case
    using Cons.IH [OF rest d fin] p u(3) o only_account_fields(1) [OF u(2)] by (simp split: option.split)
qed simp

lemma dev_overlap:
  assumes "distinct (map fst bs)" "\<And>k. F k = (if k \<in> D then x else 0)"
  shows "(\<Sum>(k, _)\<leftarrow>bs. F k) = x * card (D \<inter> set (map fst bs))"
  using assms(1)
proof (induction bs)
  case (Cons p bs)
  obtain k y where p: "p = (k, y)" by fastforce
  have "finite (D \<inter> set (map fst bs))" by simp
  with Cons p show ?case by (cases "k \<in> D") (simp_all add: assms(2) Int_insert_right card_insert_if)
qed simp

lemma genesis_accounts:
  assumes run: "genesis_build cfg derive \<lparr>balances = bs, dev_accounts = Some (n, b, derivation)\<rparr> s0 = Some g"
    and empty: "account_map s0 = Map.empty" and fits: "sum_list (map (unat \<circ> snd) bs) < 2 ^ 128"
    and devs: "devs = dev_keys derive (case derivation of Some d \<Rightarrow> d | None \<Rightarrow> DEFAULT_ADDRESS_URI) [0 ..< unat n]"
  shows "unat (total_issuance g) = sum_list (map (unat \<circ> snd) bs)" "b \<noteq> 0"
    "account k g = (case map_of bs k of Some x \<Rightarrow> endowed x
      | None \<Rightarrow> if k \<in> devs then endowed b else account_data_default)"
    "bal_sum g = unat (total_issuance g) + unat b * card (devs - set (map fst bs))"
proof -
  let ?n = "foldl (\<lambda>acc (_, n). acc + n) (0::balance) bs"
  let ?s = "s0\<lparr>total_issuance := ?n\<rparr>"
  let ?d = "case derivation of Some d \<Rightarrow> d | None \<Rightarrow> DEFAULT_ADDRESS_URI"
  from run obtain u where dev: "endow_dev cfg derive b ?d [0 ..< unat n] ?s = Some u" and e: "endow cfg bs u = Some g"
    and card: "card (set (map fst bs)) = length bs" and big: "ed cfg \<le> b"
    by (auto simp: genesis_build_def derive_dev_account_def Let_def ed_def split: if_splits option.splits)
  have distinct: "distinct (map fst bs)" using card by (intro card_distinct) simp
  have n: "unat ?n = sum_list (map (unat \<circ> snd) bs)" using endow_total [of 0 bs] fits by simp
  have bal: "balances_ok cfg ?s" and z: "bal_sum ?s = 0"
    and acc: "account k ?s = (if k \<in> {} then endowed b else account_data_default)" for k
    using empty ed_pos by (simp_all add: balances_ok_def account_get_def storage_get_def account_ok_def
        bal_sum_def msum_def account_def store_get_def account_info_default_def)
  have "bal_sum ?s = unat b * card {}" using z by simp
  note u = endow_dev_accounts [OF dev bal big acc finite.emptyI this, folded devs]
  then have "finite (dom (account_map u))" by (simp add: balances_ok_def)
  note g = endow_accounts [OF e distinct this]
  show iss: "unat (total_issuance g) = sum_list (map (unat \<circ> snd) bs)" using u g n by simp
  show "b \<noteq> 0" using big ed_pos by (auto simp: word_le_nat_alt unat_eq_zero)
  show "account k g = (case map_of bs k of Some x \<Rightarrow> endowed x
      | None \<Rightarrow> if k \<in> devs then endowed b else account_data_default)"
    using u g by (simp split: option.split)
  have "acct_total (account k u) = (if k \<in> devs then unat b else 0)" for k
    using u by (simp add: acct_total_def account_data_default_def)
  from dev_overlap [OF distinct, of "\<lambda>k. acct_total (account k u)", OF this]
  have "bal_sum g + unat b * card (devs \<inter> set (map fst bs)) = unat b * card devs + unat (total_issuance g)"
    using g u iss by simp
  moreover have "card devs = card (devs - set (map fst bs)) + card (devs \<inter> set (map fst bs))"
    using card_Diff_subset_Int [of devs "set (map fst bs)"] card_mono [of devs "devs \<inter> set (map fst bs)"]
    by (simp add: devs dev_keys_def)
  ultimately show "bal_sum g = unat (total_issuance g) + unat b * card (devs - set (map fst bs))"
    by (simp add: algebra_simps)
qed

end

section \<open>Signed calls spend the signer's balance only\<close>

text \<open>The handler of dust may pay it out, but it does not take from any account.\<close>

locale dust_sink = books_cfg cfg for cfg :: "('a, 'm) cfg" +
  assumes dust_no_debit: "free (account k s) \<le> free (account k (dust_removal cfg amount s))"
begin

lemma handle_maybe_dust_no_debit: "free (account k s) \<le> free (account k (handle_maybe_dust cfg md s))"
  by (simp add: handle_maybe_dust_def handle_dust_def dust_no_debit split: option.split)

lemma decrease_balance_others:
  assumes "decrease_balance cfg who amount precision preservation force s = (Inr actual, t)"
    "balances_ok cfg s" "k \<noteq> who"
  shows "free (account k s) \<le> free (account k t)"
proof -
  from decrease_balance_Ok [OF assms(1,2)] obtain u md where
    "only_account who s u" "t = handle_maybe_dust cfg md u" by metis
  then show ?thesis
    using handle_maybe_dust_no_debit [of k u md] account_other [of who s u k] assms(3) by simp
qed

lemma transfer_others:
  assumes run: "transfer cfg source dest amount preservation s = (Inr actual, t)"
    and ok: "books cfg c 0 s" and k: "k \<noteq> source"
  shows "free (account k s) \<le> free (account k t)"
  using run
proof (cases rule: transfer_cases)
  case (moved u v got)
  from ok have b: "balances_ok cfg s" by (simp add: books_def)
  note dec = decrease_balance_others [OF moved(3) b k] decrease_balance_books(1) [OF moved(3) ok]
  have bu: "balances_ok cfg u" using dec(2) by (simp add: books_def)
  note inc = increase_balance_Ok(1,5) [OF moved(4) bu books_fits [OF dec(2)]]
  have "free (account k u) \<le> free (account k v)"
    using inc account_other [OF inc(1), of k] by (cases "k = dest") (auto simp: word_le_nat_alt free_balance_def)
  with dec(1) show ?thesis using account_cong [OF core_eqD(1) [OF moved(5)], of k] by simp
qed simp

lemma burn_from_others:
  assumes run: "burn_from cfg who amount preservation precision force s = (Inr actual, t)"
    and ok: "balances_ok cfg s" and k: "k \<noteq> who"
  shows "free (account k s) \<le> free (account k t)"
proof -
  from run obtain x u where u: "decrease_balance cfg who x BestEffort preservation force s = (Inr actual, u)"
    and t: "core t = core (set_total_issuance (saturating_sub (total_issuance u) actual) u)"
    by (auto simp: burn_from_def monad bindE_eq_Inr split: option.splits if_splits)
  have "account_map t = account_map u" using core_eqD(1) [OF t] by (simp add: set_total_issuance_def)
  then have "account k t = account k u" by (rule account_cong)
  with decrease_balance_others [OF u ok k] show ?thesis by (simp only:)
qed

lemma signed_body_others:
  assumes run: "call_body cfg lookup (Signed a) c s = (Inr p, t)" and ok: "books cfg 0 0 s" and k: "k \<noteq> a"
  shows "free (account k s) \<le> free (account k t) \<and> keeps_claims s t"
proof -
  have moved: "?thesis" if "transfer cfg a d v pr s = (Inr n, t)" for d v pr n
    using transfer_others [OF that ok k] transfer_books [OF that ok] by simp
  have burned: "?thesis" if "burn_from cfg a v pr pe fo s = (Inr n, t)" for v pr pe fo n
    using burn_from_others [OF that _ k] burn_from_Ok(2) [OF that ok] ok by (simp add: books_def)
  show ?thesis
  proof (cases c)
    case (Upgrade_accounts who)
    with run have "t = s" using upgrade_accounts_noop [OF _ ok] by simp
    then show ?thesis by simp
  qed (use run in \<open>auto simp: paying_Ok transfer_calls_Ok force_unreserve_def force_set_balance_def
        force_adjust_total_issuance_def monad dest: moved burned\<close>)
qed

lemma signed_dispatch_others:
  assumes run: "dispatch_bypass_filter cfg lookup (Signed a) c s = (r, t)" and ok: "books cfg 0 0 s" and k: "k \<noteq> a"
  shows "free (account k s) \<le> free (account k t) \<and> keeps_claims s t"
proof (cases r)
  case (Inl e)
  with run have "t = s" using storage_layer_error by (auto simp: dispatch_bypass_filter_def)
  then show ?thesis by simp
next
  case (Inr p)
  let ?s = "s\<lparr>transaction_level := transaction_level s + 1\<rparr>"
  from run Inr obtain u where u: "call_body cfg lookup (Signed a) c ?s = (Inr p, u)" "t = dec_transaction_level u"
    unfolding dispatch_bypass_filter_def by (blast elim: storage_layer_Ok)
  from signed_body_others [OF u(1) _ k] ok u(2) show ?thesis by (simp add: keeps_claims_level)
qed

end

interpretation default_sink: dust_sink "test_default_config 1 h f"
  by unfold_locales (simp add: test_default_config_def account_cong [OF drop_fields(1)])

section \<open>The fee of upgrading accounts\<close>

abbreviation old_accounts :: "'a list \<Rightarrow> ('a, 'm) runtime_scheme \<Rightarrow> 'a set" where
  "old_accounts who s \<equiv> {k \<in> set who. \<not> is_new_logic (flags (account k s))}"

lemma ninety_percent: "const_from_percent TYPE(64) (1000000000 :: 32 word) 90 = 900000000"
  by (simp add: const_from_percent_def)

lemma fee_waived_iff:
  assumes n: "0 < len" "len < 2 ^ 32" and le: "unat x \<le> len"
  shows "fee_waived x len \<longleftrightarrow> 9 * len \<le> 10 * unat x"
proof -
  have len: "unat (of_nat len :: 32 word) = len" using n(2) by (simp add: unat_of_nat)
  let ?d = "1000000000 * unat x div len"
  have "?d \<le> 1000000000 * len div len" using le by (intro div_le_mono) simp
  then have "?d \<le> 1000000000" using n(1) by simp
  then have d: "unat (of_nat ?d :: 32 word) = ?d" by (simp add: unat_of_nat)
  have "from_rational (multiply_rational TYPE(64)) (1000000000 :: 32 word) x (of_nat len) = of_nat ?d"
    unfolding from_rational_def perbill.from_rational_exact [OF mr_u32.rational_mul_axioms order_refl]
    using n le len by (auto simp: round_div_def word_less_nat_alt word_unat_eq_iff)
  then have "fee_waived x len \<longleftrightarrow> 900000000 \<le> ?d"
    using d by (simp add: fee_waived_def ninety_percent word_le_nat_alt)
  also have "\<dots> \<longleftrightarrow> 900000000 * len \<le> 1000000000 * unat x"
    using n(1) by (simp add: less_eq_div_iff_mult_less_eq)
  finally show ?thesis by simp
qed

abbreviation replaced :: "'a \<Rightarrow> account_data \<Rightarrow> ('a, 'm) runtime_scheme \<Rightarrow> ('a, 'm) runtime_scheme" where
  "replaced who d s \<equiv> snd (store_try_mutate_exists who
     (\<lambda>_ s. (Inr ((), Some d), s) :: (dispatch_error + unit \<times> account_data option) \<times> _) s)"

context balances_cfg
begin

lemma inc_consumers_only: "only_account who s (snd (inc_consumers_without_limit who s))"
  by (auto simp: inc_consumers_without_limit_eq Let_def intro!: only_account_put)

lemma store_replace:
  assumes "is_new_logic (flags d)"
  shows "only_account who s (replaced who d s)" "is_new_logic (flags (account who (replaced who d s)))"
proof -
  have t: "replaced who d s = (let a = account_get who s
      in if 0 < providers a \<or> 0 < sufficients a then put_account who (Some (a\<lparr>data := d\<rparr>)) s
         else put_account who None s)"
    by (simp add: store_try_mutate_exists_def Let_def storage_mutate_def account_reads upd_eq_put
        account_get_def [symmetric])
  note put = store_data_account [OF refl t [unfolded Let_def]]
  show "only_account who s (replaced who d s)" by (rule put(1))
  show "is_new_logic (flags (account who (replaced who d s)))"
    using assms put(2) by (simp add: account_def store_get_def)
qed

lemma ensure_upgraded_run:
  assumes "\<not> is_new_logic (flags (account who s))"
  obtains a u where "is_new_logic (flags a)" "only_account who s u"
    "ensure_upgraded cfg who s = (True, deposit_event (Balances (Ev_Upgraded who)) (replaced who a u))"
proof -
  let ?a = "(account who s)\<lparr>flags := set_new_logic (flags (account who s))\<rparr>"
  let ?up = "snd (inc_providers cfg who s)"
  note new = is_new_logic_set [of "flags (account who s)"]
  have up: "only_account who s (snd (inc_consumers_without_limit who ?up))"
    using inc_providers_account(1) inc_consumers_only by (rule only_account_trans)
  consider (plain) "\<not> (reserved ?a \<noteq> 0 \<and> frozen ?a = 0)"
    | (provided) "reserved ?a \<noteq> 0 \<and> frozen ?a = 0" "providers_of who s \<noteq> 0"
    | (failsafe) "reserved ?a \<noteq> 0 \<and> frozen ?a = 0" "providers_of who s = 0"
    by blast
  then show thesis
  proof cases
    case plain
    show thesis by (rule that [of ?a s]) (use plain assms new in \<open>auto simp: ensure_upgraded_def Let_def account_def\<close>)
  next
    case provided
    show thesis
      by (rule that [of ?a "snd (inc_consumers_without_limit who s)"])
        (use provided assms new inc_consumers_only in \<open>simp_all add: ensure_upgraded_def Let_def account_def\<close>)
  next
    case failsafe
    show thesis
      by (rule that [of "?a\<lparr>free := max (free ?a) (ed cfg)\<rparr>" "snd (inc_consumers_without_limit who ?up)"])
        (use failsafe assms new up in \<open>simp_all add: ensure_upgraded_def Let_def account_def\<close>)
  qed
qed

lemma ensure_upgraded_effect:
  "only_account who s (snd (ensure_upgraded cfg who s)) \<and>
   is_new_logic (flags (account who (snd (ensure_upgraded cfg who s)))) \<and>
   (fst (ensure_upgraded cfg who s) \<longleftrightarrow> \<not> is_new_logic (flags (account who s)))"
proof (cases "is_new_logic (flags (account who s))")
  case True
  then show ?thesis by (simp add: ensure_upgraded_noop account_def store_get_def)
next
  case False
  from ensure_upgraded_run [OF False] obtain a u where a: "is_new_logic (flags a)" "only_account who s u"
    and run: "ensure_upgraded cfg who s = (True, deposit_event (Balances (Ev_Upgraded who)) (replaced who a u))"
    by blast
  note st = store_replace [OF a(1), of who u]
  have "only_account who s (snd (ensure_upgraded cfg who s))"
    using only_account_trans [OF only_account_trans [OF a(2) st(1)] only_account_core] run by simp
  with run st(2) False show ?thesis by (simp add: account_def store_get_def)
qed

lemma upgrade_loop_count:
  assumes "unat n + length who < 2 ^ 32"
  shows "unat (fst (upgrade_loop cfg who n s)) = unat n + card (old_accounts who s)"
  using assms
proof (induction who arbitrary: n s)
  case (Cons i who)
  define b t where "b = fst (ensure_upgraded cfg i s)" and "t = snd (ensure_upgraded cfg i s)"
  have t: "only_account i s t" "is_new_logic (flags (account i t))" "b \<longleftrightarrow> \<not> is_new_logic (flags (account i s))"
    using ensure_upgraded_effect [of i s] by (simp_all add: b_def t_def)
  let ?n = "if b then saturating_add n 1 else n"
  have n: "unat ?n = unat n + (if b then 1 else 0)"
    using Cons.prems by (simp add: unat_saturating_add)
  have logic: "is_new_logic (flags (account k t)) \<longleftrightarrow> k = i \<or> is_new_logic (flags (account k s))" for k
    using t(2) account_other [OF t(1), of k] by (cases "k = i") simp_all
  have "old_accounts (i # who) s = old_accounts who t \<union> (if b then {i} else {})" "i \<notin> old_accounts who t"
    using t(3) logic by (auto split: if_splits)
  then have "card (old_accounts (i # who) s) = card (old_accounts who t) + (if b then 1 else 0)" by simp
  moreover have "upgrade_loop cfg (i # who) n s = upgrade_loop cfg who ?n t"
    by (simp add: b_def t_def split: prod.split)
  ultimately show ?case using Cons.IH [of ?n t] Cons.prems n by simp
qed simp

lemma upgrade_accounts_pays:
  assumes "who \<noteq> []" "length who < 2 ^ 32"
  shows "fst (upgrade_accounts cfg (Signed a) who s) =
    Inr (if 9 * length who \<le> 10 * card (old_accounts who s) then Pays_No else Pays_Yes)"
proof -
  let ?x = "fst (upgrade_loop cfg who 0 s)"
  have x: "unat ?x = card (old_accounts who s)" using upgrade_loop_count [of 0 who s] assms(2) by simp
  have "card (old_accounts who s) \<le> length who"
    by (rule order_trans [OF card_mono card_length]) auto
  then have "fee_waived ?x (length who) \<longleftrightarrow> 9 * length who \<le> 10 * card (old_accounts who s)"
    using fee_waived_iff [of "length who" ?x] assms x by simp
  then show ?thesis using assms(1) by (cases "upgrade_loop cfg who 0 s") (simp add: upgrade_accounts_def monad)
qed

end

section \<open>The state checks\<close>

text \<open>The checks look only at what \<open>keeps_claims\<close> preserves, and frozen balances that follow the claims pass them.\<close>

lemma keeps_claims_try_state:
  assumes "keeps_claims s t"
  shows "do_try_state cfg hs fs ls t = do_try_state cfg hs fs ls s"
proof -
  have "frozen (store_get k t) = frozen (store_get k s)" for k
    using assms by (simp add: keeps_claims_def account_def)
  with assms show ?thesis
    by (simp add: do_try_state_def hold_and_freeze_count_def account_frozen_greater_than_locks_def
        account_frozen_greater_than_freezes_def keeps_claims_def)
qed

lemma max_amount_le: "max_amount xs \<le> x \<longleftrightarrow> (\<forall>y\<in>set xs. y \<le> x)"
proof -
  have "foldl max y ys \<le> x \<longleftrightarrow> y \<le> x \<and> (\<forall>z\<in>set ys. z \<le> x)" for y ys
    by (induction ys arbitrary: y) auto
  then show ?thesis by (cases xs) (simp_all add: max_amount_def)
qed

lemma try_for_each_Ok: "try_for_each f ks = Inr u \<longleftrightarrow> (\<forall>k\<in>set ks. f k = Inr ())"
  by (induction ks) (auto split: sum.split)

lemma frozen_ok_try_state:
  assumes "frozen_ok s"
  shows "account_frozen_greater_than_locks ls s = Inr ()" "account_frozen_greater_than_freezes fs s = Inr ()"
proof -
  have "frozen (store_get k s) = frozen_for (locks k s) (freezes_of k s)" for k
    using assms by (simp add: frozen_ok_def account_def)
  then show "account_frozen_greater_than_locks ls s = Inr ()" "account_frozen_greater_than_freezes fs s = Inr ()"
    by (auto simp: account_frozen_greater_than_locks_def account_frozen_greater_than_freezes_def
        try_for_each_Ok Let_def not_less max_amount_le locks_def freezes_of_def storage_get_def
        intro: frozen_for_ge split: option.split)
qed

section \<open>Runs of the chain\<close>

text \<open>
  The states reached from a genesis state by dispatching calls, successful or not, of any origin;
  those of the root origin subject to \<open>call_fits\<close>.
\<close>

inductive reachable ::
  "('a, 'm) cfg \<Rightarrow> ('a, 'l, 'm) lookup \<Rightarrow> ('a, 'm) runtime_scheme \<Rightarrow> ('a, 'm) runtime_scheme \<Rightarrow> bool"
  for cfg :: "('a, 'm) cfg" and lookup :: "('a, 'l, 'm) lookup" and g :: "('a, 'm) runtime_scheme" where
  start: "reachable cfg lookup g g"
| call: "reachable cfg lookup g s \<Longrightarrow> dispatch_bypass_filter cfg lookup origin c s = (r, t) \<Longrightarrow>
     (origin = Root \<longrightarrow> call_fits c s) \<Longrightarrow> reachable cfg lookup g t"

section \<open>Properties\<close>

text \<open>
  A call that fails leaves the state exactly as it was: every balance, reference counter, claim,
  event and the transaction level, whatever the call had already done.
\<close>

lemma failed_call_changes_nothing:
  "dispatch_bypass_filter cfg lookup origin c s = (Inl e, t) \<Longrightarrow> t = s"
  unfolding dispatch_bypass_filter_def by (rule storage_layer_error)

text \<open>
  C3. From a genesis without development accounts and with configured balances that fit the balance
  type on, along every sequence of dispatched calls, accounts stay well formed and their balances
  add up to the total issuance. The calls of signed and unsigned origins are unrestricted, failing
  ones included. Of the calls of the root origin two are restricted (\<open>call_fits\<close>): the adjustment of
  the issuance by hand is excluded, and a forced balance must fit on top of the balances there are.
\<close>

theorem chain_keeps_books:
  assumes "books_cfg cfg" "account_map s0 = Map.empty"
    and "genesis_build cfg derive \<lparr>balances = bs, dev_accounts = None\<rparr> s0 = Some g"
    and "sum_list (map (unat \<circ> snd) bs) < 2 ^ 128"
    and "reachable cfg lookup g s"
  shows "books cfg 0 0 s"
  using assms(5)
proof induction
  case start
  show ?case by (rule books_cfg.genesis_books [OF assms(1,3,2,4)])
next
  case (call s origin c r t)
  then show ?case by (intro books_cfg.dispatch_books [OF assms(1) call(2)])
qed

theorem chain_keeps_books_witness:
  "books (test_default_config 1 3 3 :: (nat, unit) cfg) 0 0
     (snd (dispatch_bypass_filter (test_default_config 1 3 3) (\<lambda>l s. Some l) (Signed 1) (Transfer_allow_death 3 50)
       (the (genesis_build (test_default_config 1 3 3) (\<lambda>_. None)
         \<lparr>balances = [(1, 50), (2, 20)], dev_accounts = None\<rparr> empty_runtime))))"
proof -
  let ?cfg = "test_default_config 1 3 3 :: (nat, unit) cfg"
  let ?lookup = "\<lambda>l s. Some l"
  let ?g = "genesis_build ?cfg (\<lambda>_. None) \<lparr>balances = [(1, 50), (2, 20)], dev_accounts = None\<rparr> empty_runtime"
  have "\<not> Option.is_none ?g" by code_simp
  then have g: "?g = Some (the ?g)" by (simp add: Option.is_none_def)
  have r: "reachable ?cfg ?lookup (the ?g)
      (snd (dispatch_bypass_filter ?cfg ?lookup (Signed 1) (Transfer_allow_death 3 50) (the ?g)))"
    by (rule reachable.call [OF reachable.start surjective_pairing]) simp
  show ?thesis
    by (rule chain_keeps_books [OF default_cfg.books_cfg_axioms _ g _ r]) (simp_all add: empty_runtime_def)
qed

text \<open>
  C4. A signed call takes from nobody but its signer: every other account keeps at least its free
  balance and exactly its reserved and frozen balances, no lock, freeze, hold or named reserve
  changes, and the state checks of the pallet give the same verdict as before.
\<close>

theorem signed_call_spends_own:
  assumes "dust_sink cfg" "dispatch_bypass_filter cfg lookup (Signed a) c s = (r, t)" "books cfg 0 0 s" "k \<noteq> a"
  shows "free_balance k s \<le> free_balance k t \<and> keeps_claims s t \<and>
    do_try_state cfg hs fs ls t = do_try_state cfg hs fs ls s"
  using dust_sink.signed_dispatch_others [OF assms] keeps_claims_try_state [of s t] by (simp add: free_balance_def)

theorem signed_call_spends_own_witness:
  "20 \<le> free_balance 2 (snd (dispatch_bypass_filter (test_default_config 1 3 3 :: (nat, unit) cfg)
     (\<lambda>l s. Some l) (Signed 1) (Transfer_all 3 False) (two_accounts 50 20)))"
proof -
  let ?cfg = "test_default_config 1 3 3 :: (nat, unit) cfg" and ?s = "two_accounts 50 20"
  have "books ?cfg 0 0 ?s" by (rule books_two_accounts) (simp_all add: test_default_config_def)
  moreover have "free_balance 2 ?s = 20" by code_simp
  ultimately show ?thesis
    using signed_call_spends_own [where lookup = "\<lambda>l s. Some l" and a = 1 and c = "Transfer_all 3 False" and s = ?s
        and k = 2, OF default_sink.dust_sink_axioms surjective_pairing] by simp
qed

text \<open>
  Upgrading accounts is free of charge exactly when at least nine tenths of the accounts named
  were still in the old format; an account named twice counts once.
\<close>

lemma upgrade_accounts_fee:
  assumes "balances_cfg cfg" "who \<noteq> []" "length who < 2 ^ 32"
  shows "fst (upgrade_accounts cfg (Signed a) who s) =
    Inr (if 9 * length who \<le> 10 * card {k \<in> set who. \<not> is_new_logic (flags (account k s))}
         then Pays_No else Pays_Yes)"
  by (rule balances_cfg.upgrade_accounts_pays [OF assms])

text \<open>
  C11. Development accounts are not counted. A genesis build that succeeds gives every configured
  account its configured balance and every other development account the (nonzero) development
  balance, but records the sum of the configured balances only as the total issuance. The balances
  of all accounts together exceed it by the development balance for each development account that
  is not also configured.
\<close>

theorem genesis_ignores_dev_accounts:
  assumes "books_cfg cfg" "account_map s0 = Map.empty" "sum_list (map (unat \<circ> snd) bs) < 2 ^ 128"
    and "genesis_build cfg derive \<lparr>balances = bs, dev_accounts = Some (n, b, derivation)\<rparr> s0 = Some g"
    and "devs = dev_keys derive (case derivation of Some d \<Rightarrow> d | None \<Rightarrow> DEFAULT_ADDRESS_URI) [0 ..< unat n]"
  shows "(\<forall>k. account k g = (case map_of bs k of
        Some x \<Rightarrow> account_data_default\<lparr>free := x\<rparr>
      | None \<Rightarrow> if k \<in> devs then account_data_default\<lparr>free := b\<rparr> else account_data_default)) \<and>
    b \<noteq> 0 \<and>
    unat (total_issuance g) = sum_list (map (unat \<circ> snd) bs) \<and>
    bal_sum g = unat (total_issuance g) + unat b * card (devs - set (map fst bs))"
  using books_cfg.genesis_accounts [OF assms(1,4,2,3,5)] by simp

theorem genesis_ignores_dev_accounts_witness:
  "\<exists>g. genesis_build (test_default_config 1 3 3 :: (nat, unit) cfg) (\<lambda>uri. Some (length uri))
     \<lparr>balances = [(1, 7)], dev_accounts = Some (2, 5, None)\<rparr> empty_runtime = Some g \<and>
     unat (total_issuance g) = 7 \<and> bal_sum g = 12"
proof -
  let ?g = "genesis_build (test_default_config 1 3 3 :: (nat, unit) cfg) (\<lambda>uri. Some (length uri))
     \<lparr>balances = [(1, 7)], dev_accounts = Some (2, 5, None)\<rparr> empty_runtime"
  have "\<not> Option.is_none ?g" by code_simp
  then have g: "?g = Some (the ?g)" by (simp add: Option.is_none_def)
  have d: "dev_keys (\<lambda>uri. Some (length uri)) DEFAULT_ADDRESS_URI [0 ..< 2] = {11}"
    by (simp add: dev_keys_def DEFAULT_ADDRESS_URI_def nat_to_string.simps upt_rec)
  from genesis_ignores_dev_accounts [OF default_cfg.books_cfg_axioms _ _ g refl]
  have "unat (total_issuance (the ?g)) = 7 \<and> bal_sum (the ?g) = 12"
    by (simp add: empty_runtime_def d)
  with g show ?thesis by blast
qed

end
