(* ===== verification/BigUint.thy ===== *)
theory BigUint
  imports Helpers128 "HOL-Library.Monad_Syntax"
begin

text \<open>
  Natural numbers of any size as lists of 32-bit limbs (\<open>primitives/arithmetic/src/biguint.rs\<close>).

  A \<open>BigUint\<close> is a vector of limbs, the most significant one first. The operations are the
  schoolbook algorithms of Knuth, written with indexed reads and writes of single limbs; an index
  out of range panics, which is \<open>None\<close> here. The lemmas give the value of every result, so also
  that no read or write is out of range and that no 64-bit intermediate value wraps around.
\<close>

section \<open>Limbs\<close>

definition B :: u64 where
  "B = ucast (max_value :: u32) + 1"

definition split_double :: "u64 \<Rightarrow> u32 \<times> u32" where
  "split_double a = (let al = ucast a; ah = ucast (drop_bit 32 a) in (ah, al))"

definition mul_single :: "u32 \<Rightarrow> u32 \<Rightarrow> u64" where
  "mul_single a b = ucast a * ucast b"

definition add_single :: "u32 \<Rightarrow> u32 \<Rightarrow> u32 \<times> u32" where
  "add_single a b = (let q = ucast a + ucast b; (carry, r) = split_double q in (r, carry))"

definition div_single :: "u64 \<Rightarrow> u32 \<Rightarrow> (u64 \<times> u32) option" where
  "div_single a b =
     (if b = 0 then None
      else let q = a div ucast b; r = a mod ucast b in Some (q, ucast r))"

section \<open>The type and its accessors\<close>

record biguint =
  digits :: "u32 list"

definition with_capacity :: "nat \<Rightarrow> biguint" where
  "with_capacity n = \<lparr>digits = replicate (max n 1) 0\<rparr>"

definition zero_big :: biguint where
  "zero_big = \<lparr>digits = [0]\<rparr>"

definition one_big :: biguint where
  "one_big = \<lparr>digits = [1]\<rparr>"

definition from_limbs :: "u32 list \<Rightarrow> biguint" where
  "from_limbs limbs = (if limbs \<noteq> [] then \<lparr>digits = limbs\<rparr> else zero_big)"

definition len_big :: "biguint \<Rightarrow> nat" where
  "len_big self = length (digits self)"

text \<open>The limbs are counted from the least significant one.\<close>

definition get_limb :: "biguint \<Rightarrow> nat \<Rightarrow> u32 option" where
  "get_limb self index =
     (if index < len_big self then Some (digits self ! (len_big self - 1 - index)) else None)"

definition checked_get :: "biguint \<Rightarrow> nat \<Rightarrow> u32 option" where
  "checked_get self index =
     (if len_big self < 1 then None
      else
        let i = len_big self - 1
        in if i < index then None
           else let j = i - index in if j < length (digits self) then Some (digits self ! j) else None)"

definition set_limb :: "biguint \<Rightarrow> nat \<Rightarrow> u32 \<Rightarrow> biguint option" where
  "set_limb self index v =
     (if index < len_big self
      then Some \<lparr>digits = (digits self)[len_big self - 1 - index := v]\<rparr> else None)"

definition lsb :: "biguint \<Rightarrow> u32 option" where
  "lsb self = get_limb self 0"

definition msb :: "biguint \<Rightarrow> u32 option" where
  "msb self = (case digits self of [] \<Rightarrow> None | d # _ \<Rightarrow> Some d)"

primrec position :: "('a \<Rightarrow> bool) \<Rightarrow> 'a list \<Rightarrow> nat option" where
  "position P [] = None"
| "position P (x # xs) = (if P x then Some 0 else map_option Suc (position P xs))"

definition lstrip :: "biguint \<Rightarrow> biguint" where
  "lstrip self =
     (if len_big self = 0 then self
      else
        let index = (case position (\<lambda>elem. elem \<noteq> 0) (digits self) of
                       Some i \<Rightarrow> i | None \<Rightarrow> len_big self - 1)
        in if 0 < index then \<lparr>digits = drop index (digits self)\<rparr> else self)"

definition lpad :: "biguint \<Rightarrow> nat \<Rightarrow> biguint" where
  "lpad self sz =
     (let n = len_big self
      in if sz \<le> n then self else \<lparr>digits = replicate (sz - n) 0 @ digits self\<rparr>)"

section \<open>Comparison\<close>

datatype ordering = Less | Equal | Greater

definition cmp :: "'a::linorder \<Rightarrow> 'a \<Rightarrow> ordering" where
  "cmp a b = (if a < b then Less else if a = b then Equal else Greater)"

text \<open>Slices compare lexicographically.\<close>

fun cmp_slice :: "'a::linorder list \<Rightarrow> 'a list \<Rightarrow> ordering" where
  "cmp_slice [] [] = Equal"
| "cmp_slice [] (_ # _) = Less"
| "cmp_slice (_ # _) [] = Greater"
| "cmp_slice (x # xs) (y # ys) = (case cmp x y of Equal \<Rightarrow> cmp_slice xs ys | c \<Rightarrow> c)"

definition cmp_big :: "biguint \<Rightarrow> biguint \<Rightarrow> ordering" where
  "cmp_big self other =
     (case (position (\<lambda>e. e \<noteq> 0) (digits self), position (\<lambda>e. e \<noteq> 0) (digits other)) of
        (None, None) \<Rightarrow> Equal
      | (Some _, None) \<Rightarrow> Greater
      | (None, Some _) \<Rightarrow> Less
      | (Some lhs_idx, Some rhs_idx) \<Rightarrow>
          let lhs = drop lhs_idx (digits self);
              rhs = drop rhs_idx (digits other);
              len_cmp = cmp (length lhs) (length rhs)
          in if len_cmp = Equal then cmp_slice lhs rhs else len_cmp)"

definition eq_big :: "biguint \<Rightarrow> biguint \<Rightarrow> bool" where
  "eq_big self other \<longleftrightarrow> cmp_big self other = Equal"

definition is_zero_big :: "biguint \<Rightarrow> bool" where
  "is_zero_big self \<longleftrightarrow> list_all (\<lambda>d. d = 0) (digits self)"

section \<open>Arithmetic\<close>

text \<open>A \<open>for\<close> loop whose body may panic.\<close>

primrec for_each :: "('i \<Rightarrow> 's \<Rightarrow> 's option) \<Rightarrow> 'i list \<Rightarrow> 's \<Rightarrow> 's option" where
  "for_each body [] s = Some s"
| "for_each body (i # is) s = do { s \<leftarrow> body i s; for_each body is s }"

abbreviation limb_or_0 :: "biguint \<Rightarrow> nat \<Rightarrow> u64" where
  "limb_or_0 self j \<equiv> ucast (case checked_get self j of Some d \<Rightarrow> d | None \<Rightarrow> 0)"

definition add_step :: "biguint \<Rightarrow> biguint \<Rightarrow> nat \<Rightarrow> biguint \<times> u64 \<Rightarrow> (biguint \<times> u64) option" where
  "add_step self other j st =
     (let (w, k) = st;
          u = limb_or_0 self j;
          v = limb_or_0 other j;
          s = u + v + k
      in do {
           w \<leftarrow> set_limb w j (ucast (s mod B));
           Some (w, s div B)
         })"

definition add_big :: "biguint \<Rightarrow> biguint \<Rightarrow> biguint option" where
  "add_big self other =
     (let n = max (len_big self) (len_big other)
      in do {
           (w, k) \<leftarrow> for_each (add_step self other) [0..<n] (with_capacity (n + 1), 0);
           set_limb w n (ucast k)
         })"

definition sub_step :: "biguint \<Rightarrow> biguint \<Rightarrow> nat \<Rightarrow> biguint \<times> u64 \<Rightarrow> (biguint \<times> u64) option" where
  "sub_step self other j st =
     (let (w, k) = st;
          u = limb_or_0 self j;
          v = limb_or_0 other j;
          (s, k) = (case Option.bind (checked_sub u v) (\<lambda>v1. checked_sub v1 k) of
                      Some v2 \<Rightarrow> (v2, 0)
                    | None \<Rightarrow> (u + B - v - k, 1))
      in do {
           w \<leftarrow> set_limb w j (ucast s);
           Some (w, k)
         })"

text \<open>\<open>Inl\<close> is \<open>Err\<close>: the number subtracted is larger.\<close>

definition sub_big :: "biguint \<Rightarrow> biguint \<Rightarrow> (biguint + biguint) option" where
  "sub_big self other =
     (let n = max (len_big self) (len_big other)
      in do {
           (w, k) \<leftarrow> for_each (sub_step self other) [0..<n] (with_capacity n, 0);
           Some (if k = 0 then Inr w else Inl w)
         })"

definition mul_inner :: "biguint \<Rightarrow> biguint \<Rightarrow> nat \<Rightarrow> nat \<Rightarrow> biguint \<times> u32 \<Rightarrow> (biguint \<times> u32) option" where
  "mul_inner self other j i st =
     (let (w, k) = st
      in do {
           a \<leftarrow> get_limb self j;
           b \<leftarrow> get_limb other i;
           c \<leftarrow> get_limb w (i + j);
           let t = mul_single a b + ucast c + ucast k;
           w \<leftarrow> set_limb w (i + j) (ucast (t mod B));
           Some (w, ucast (t div B))
         })"

definition mul_outer :: "biguint \<Rightarrow> biguint \<Rightarrow> nat \<Rightarrow> biguint \<Rightarrow> biguint option" where
  "mul_outer self other j w =
     do {
       a \<leftarrow> get_limb self j;
       if a = 0 then Some w
       else do {
         (w, k) \<leftarrow> for_each (mul_inner self other j) [0..<len_big other] (w, 0);
         set_limb w (j + len_big other) k
       }
     }"

definition mul_big :: "biguint \<Rightarrow> biguint \<Rightarrow> biguint option" where
  "mul_big self other =
     for_each (mul_outer self other) [0..<len_big self] (with_capacity (len_big other + len_big self))"

definition div_unit_step :: "biguint \<Rightarrow> u32 \<Rightarrow> nat \<Rightarrow> biguint \<times> u32 \<Rightarrow> (biguint \<times> u32) option" where
  "div_unit_step self other d st =
     (let (out, r) = st
      in do {
           x \<leftarrow> get_limb self d;
           (q, rr) \<leftarrow> div_single (ucast r * B + ucast x) other;
           out \<leftarrow> set_limb out d (ucast q);
           Some (out, rr)
         })"

definition div_unit :: "biguint \<Rightarrow> u32 \<Rightarrow> biguint option" where
  "div_unit self other =
     (let other = max other 1; n = len_big self
      in do {
           (out, _) \<leftarrow> for_each (div_unit_step self other) (rev [0..<n]) (with_capacity n, 0);
           Some out
         })"

section \<open>Conversions\<close>

definition from_u32 :: "u32 \<Rightarrow> biguint" where
  "from_u32 a = \<lparr>digits = [a]\<rparr>"

definition from_u64 :: "u64 \<Rightarrow> biguint" where
  "from_u64 a = (let (ah, al) = split_double a in \<lparr>digits = [ah, al]\<rparr>)"

definition split_u128 :: "u128 \<Rightarrow> u64 \<times> u64" where
  "split_u128 a = (let al = ucast a; ah = ucast (drop_bit 64 a) in (ah, al))"

definition to_big_uint :: "u128 \<Rightarrow> biguint" where
  "to_big_uint x =
     (let (xh, xl) = split_u128 x;
          (xhh, xhl) = split_double xh;
          (xlh, xll) = split_double xl
      in lstrip (from_limbs [xhh, xhl, xlh, xll]))"

text \<open>The conversion back to \<open>u64\<close> and \<open>u128\<close>.\<close>

definition try_from_big :: "biguint \<Rightarrow> 'w::len word option" where
  "try_from_big v =
     (let v = lstrip v
      in if LENGTH('w) < len_big v * 32 then None
         else Some (foldl (\<lambda>acc (i, d). acc + push_bit (32 * i) (ucast d)) 0
                (enumerate 0 (rev (digits v)))))"

section \<open>Values\<close>

definition base :: nat where
  "base = 2 ^ 32"

lemma base_gt: "1 < base"
  by (simp add: base_def)

lemma base_pos [simp]: "0 < base"
  using base_gt by simp

lemma base_square: "base * base = 2 ^ 64"
  by (simp add: base_def)

lemma unat_B: "unat B = base"
proof -
  have "unat (ucast (max_value :: u32) :: u64) = 2 ^ 32 - 1"
    using unat_cast_up [where 'b = 64, of "max_value :: u32"] by (simp add: unat_max_value)
  then show ?thesis unfolding B_def base_def using unat_add_lem [of "ucast (max_value :: u32) :: u64" 1] by simp
qed

lemma u32_less: "unat (d :: u32) < base"
  using unat_less_power [of d] by (simp add: base_def)

lemma u64_less: "unat (d :: u64) < base * base"
  using unat_less_power [of d] by (simp add: base_square)

lemma unat_up32: "unat (ucast (d :: u32) :: u64) = unat d"
  by (rule unat_cast_up) simp

lemma unat_down32: "unat (ucast (d :: u64) :: u32) = unat d mod base"
  by (simp add: unat_cast base_def)

definition limb :: "biguint \<Rightarrow> nat \<Rightarrow> nat" where
  "limb b i = (if i < len_big b then unat (digits b ! (len_big b - 1 - i)) else 0)"

text \<open>The value of the \<open>j\<close> least significant limbs, and of the whole number.\<close>

definition low :: "biguint \<Rightarrow> nat \<Rightarrow> nat" where
  "low b j = (\<Sum>i<j. limb b i * base ^ i)"

definition big_value :: "biguint \<Rightarrow> nat" where
  "big_value b = low b (len_big b)"

lemma limb_less: "limb b i < base"
  by (simp add: limb_def u32_less)

lemma low_0 [simp]: "low b 0 = 0"
  by (simp add: low_def)

lemma low_Suc: "low b (Suc j) = low b j + limb b j * base ^ j"
  by (simp add: low_def)

lemma low_cong: "(\<And>i. i < j \<Longrightarrow> limb a i = limb b i) \<Longrightarrow> low a j = low b j"
  by (simp add: low_def)

lemma digit_less: "(x :: nat) < b ^ j \<Longrightarrow> d < b \<Longrightarrow> x + d * b ^ j < b ^ Suc j"
proof -
  assume x: "x < b ^ j" and "d < b"
  then have "Suc d * b ^ j \<le> b * b ^ j" by (intro mult_le_mono1) simp
  with x show ?thesis by simp
qed

lemma low_less: "low b j < base ^ j"
  by (induction j) (simp_all only: low_0 power_0 low_Suc digit_less limb_less zero_less_one)

lemma low_top: "(\<And>i. j \<le> i \<Longrightarrow> limb b i = 0) \<Longrightarrow> j \<le> k \<Longrightarrow> low b k = low b j"
proof (induction k)
  case (Suc k)
  then show ?case by (cases "j = Suc k") (simp_all add: low_Suc)
qed simp

lemma low_len: "len_big b \<le> k \<Longrightarrow> low b k = big_value b"
  unfolding big_value_def by (rule low_top) (simp_all add: limb_def)

lemma value_low: "(\<And>i. j \<le> i \<Longrightarrow> limb b i = 0) \<Longrightarrow> big_value b = low b j"
  using low_top [of j b "max j (len_big b)"] low_len [of b "max j (len_big b)"] by simp

lemma big_value_less: "big_value b < base ^ len_big b"
  unfolding big_value_def by (rule low_less)

lemma get_limb_Some: "i < len_big b \<Longrightarrow> \<exists>d. get_limb b i = Some d \<and> unat d = limb b i"
  by (simp add: get_limb_def limb_def)

lemma limb_or_0: "unat (limb_or_0 b j) = limb b j"
  unfolding unat_up32 by (cases "digits b") (auto simp: checked_get_def limb_def len_big_def Let_def)

lemma set_limb_Some:
  assumes "i < len_big w"
  obtains w' where "set_limb w i v = Some w'" "len_big w' = len_big w"
    "\<And>k. limb w' k = (if k = i then unat v else limb w k)"
proof
  let ?w = "\<lparr>digits = (digits w)[len_big w - 1 - i := v]\<rparr>"
  show "set_limb w i v = Some ?w" using assms by (simp add: set_limb_def)
  show "len_big ?w = len_big w" by (simp add: len_big_def)
  show "limb ?w k = (if k = i then unat v else limb w k)" for k
    using assms by (auto simp: limb_def len_big_def nth_list_update)
qed

lemma limb_capacity [simp]: "limb (with_capacity n) i = 0"
  by (simp add: limb_def with_capacity_def len_big_def)

lemma len_capacity [simp]: "len_big (with_capacity n) = max n 1"
  by (simp add: with_capacity_def len_big_def)

text \<open>Loop invariants.\<close>

lemma for_each_append: "for_each f (xs @ ys) s = do { s \<leftarrow> for_each f xs s; for_each f ys s }"
  by (induction xs arbitrary: s) (auto split: bind_splits)

lemma for_range:
  assumes le: "a \<le> b" and init: "P a s"
    and step: "\<And>i s. a \<le> i \<Longrightarrow> i < b \<Longrightarrow> P i s \<Longrightarrow> \<exists>s'. f i s = Some s' \<and> P (Suc i) s'"
  shows "\<exists>s'. for_each f [a..<b] s = Some s' \<and> P b s'"
  using le step
proof (induction b rule: dec_induct)
  case (step b)
  then obtain s' where "for_each f [a..<b] s = Some s'" "P b s'" by (metis less_SucI)
  moreover from step.prems [of b s'] step.hyps this obtain s'' where "f b s' = Some s''" "P (Suc b) s''" by auto
  ultimately show ?case using step.hyps by (simp add: for_each_append)
qed (simp add: init)

lemmas for_up = for_range [OF le0]

lemma for_down:
  assumes init: "P n s" and step: "\<And>i s. i < n \<Longrightarrow> P (Suc i) s \<Longrightarrow> \<exists>s'. f i s = Some s' \<and> P i s'"
  shows "\<exists>s'. for_each f (rev [0..<n]) s = Some s' \<and> P 0 s'"
  using init step
proof (induction n arbitrary: s)
  case (Suc n)
  then obtain s' where "f n s = Some s'" "P n s'" by blast
  moreover from this Suc obtain t where "for_each f (rev [0..<n]) s' = Some t" "P 0 t"
    by (metis less_SucI)
  ultimately show ?case by simp
qed simp

section \<open>Addition and subtraction\<close>

lemma unat_sum: "unat a + unat b < base * base \<Longrightarrow> unat (a + b :: u64) = unat a + unat b"
  using unat_add_lem [of a b] by (simp add: base_square)

lemma unat_prod: "unat a * unat b < base * base \<Longrightarrow> unat (a * b :: u64) = unat a * unat b"
  using unat_mult_lem [of a b] by (simp add: base_square)

lemma two_bases: "2 * base \<le> base * base"
  using base_gt by (intro mult_le_mono1) simp

lemma three_digits: "a < base \<Longrightarrow> b < base \<Longrightarrow> c \<le> 1 \<Longrightarrow> a + b + c < base * base"
  using two_bases by linarith

lemma carry_step:
  assumes "lo + k * (base :: nat) ^ j = x + y"
  shows "lo + ((u + v + k) mod base) * base ^ j + (u + v + k) div base * base ^ Suc j =
    (x + u * base ^ j) + (y + v * base ^ j)"
proof -
  have "((u + v + k) mod base) * base ^ j + (u + v + k) div base * base ^ Suc j = (u + v + k) * base ^ j"
    by (metis add_mult_distrib mod_mult_div_eq mult.commute mult.left_commute power_Suc)
  with assms show ?thesis by (simp add: add_mult_distrib)
qed

lemma add_step_Some:
  assumes "j < len_big w" "unat k \<le> 1"
  obtains w' k' where "add_step a b j (w, k) = Some (w', k')" "len_big w' = len_big w" "unat k' \<le> 1"
    "unat k' = (limb a j + limb b j + unat k) div base"
    "\<And>i. limb w' i = (if i = j then (limb a j + limb b j + unat k) mod base else limb w i)"
proof -
  define s where "s = limb_or_0 a j + limb_or_0 b j + k"
  note three_digits [OF limb_less [of a j] limb_less [of b j] assms(2)]
  then have s: "unat s = limb a j + limb b j + unat k"
    unfolding s_def by (simp add: unat_sum limb_or_0)
  have d: "unat (s div B) = unat s div base" by (simp add: unat_div unat_B)
  obtain w' where w': "set_limb w j (ucast (s mod B)) = Some w'" "len_big w' = len_big w"
    "\<And>i. limb w' i = (if i = j then unat (ucast (s mod B) :: u32) else limb w i)"
    using set_limb_Some [OF assms(1), of "ucast (s mod B)"] by metis
  have "unat s < 2 * base"
    unfolding s using limb_less [of a j] limb_less [of b j] assms(2) by linarith
  then have "unat s div base < 2" by (simp add: less_mult_imp_div_less)
  then show ?thesis
    using that [of w' "s div B"] w' s d
    by (simp add: add_step_def s_def [symmetric] unat_down32 unat_mod unat_B Let_def)
qed

theorem add_big_value:
  "\<exists>w. add_big a b = Some w \<and> len_big w = max (len_big a) (len_big b) + 1 \<and>
    big_value w = big_value a + big_value b"
proof -
  let ?n = "max (len_big a) (len_big b)"
  define P where "P = (\<lambda>j (w, k :: u64). len_big w = ?n + 1 \<and> unat k \<le> 1 \<and>
    low w j + unat k * base ^ j = low a j + low b j)"
  have "\<exists>s. for_each (add_step a b) [0..<?n] (with_capacity (?n + 1), 0) = Some s \<and> P ?n s"
  proof (rule for_up)
    fix j s assume j: "j < ?n" and "P j s"
    then obtain w k where s: "s = (w, k)" and P: "len_big w = ?n + 1" "unat k \<le> 1"
      "low w j + unat k * base ^ j = low a j + low b j" by (auto simp: P_def)
    obtain w' k' where st: "add_step a b j (w, k) = Some (w', k')" "len_big w' = len_big w" "unat k' \<le> 1"
      "unat k' = (limb a j + limb b j + unat k) div base"
      "\<And>i. limb w' i = (if i = j then (limb a j + limb b j + unat k) mod base else limb w i)"
      using add_step_Some [of j w k a b] j P by (metis less_SucI Suc_eq_plus1)
    have "low w' j = low w j" by (rule low_cong) (simp add: st(5))
    then have "low w' (Suc j) + unat k' * base ^ Suc j = low a (Suc j) + low b (Suc j)"
      using carry_step [OF P(3), of "limb a j" "limb b j"] by (simp add: low_Suc st(4,5))
    then show "\<exists>s'. add_step a b j s = Some s' \<and> P (Suc j) s'"
      using st P(1) by (simp add: s P_def)
  qed (simp add: P_def)
  then obtain w k where w: "for_each (add_step a b) [0..<?n] (with_capacity (?n + 1), 0) = Some (w, k)"
    and P: "len_big w = ?n + 1" "unat k \<le> 1" "low w ?n + unat k * base ^ ?n = low a ?n + low b ?n"
    by (auto simp: P_def)
  obtain w' where w': "set_limb w ?n (ucast k) = Some w'" "len_big w' = len_big w"
    "\<And>i. limb w' i = (if i = ?n then unat (ucast k :: u32) else limb w i)"
    using set_limb_Some [of ?n w "ucast k"] P(1) by (metis less_add_one)
  have k: "unat (ucast k :: u32) = unat k" using P(2) base_gt by (simp add: unat_down32)
  have "low w' ?n = low w ?n" by (rule low_cong) (simp add: w'(3))
  then have "low w' (Suc ?n) = low a ?n + low b ?n" using P(3) by (simp add: low_Suc w'(3) k)
  then have "big_value w' = big_value a + big_value b"
    using low_len [of w' "Suc ?n"] low_len [of a ?n] low_len [of b ?n] w'(2) P(1) by simp
  then show ?thesis using w w' P(1) by (simp add: add_big_def Let_def)
qed

lemma borrow_step:
  assumes "lo + y = x + k * (base :: nat) ^ j" "s + v + k = u + k' * base"
  shows "lo + s * base ^ j + (y + v * base ^ j) = x + u * base ^ j + k' * base ^ Suc j"
proof -
  have "(s + v + k) * base ^ j = u * base ^ j + k' * base ^ Suc j"
    unfolding assms(2) by (simp add: add_mult_distrib)
  then have "s * base ^ j + v * base ^ j + k * base ^ j = u * base ^ j + k' * base ^ Suc j"
    by (simp add: add_mult_distrib)
  with assms(1) show ?thesis by linarith
qed

lemma sub_step_Some:
  assumes "j < len_big w" "unat k \<le> 1"
  obtains w' k' where "sub_step a b j (w, k) = Some (w', k')" "len_big w' = len_big w" "unat k' \<le> 1"
    "limb w' j + limb b j + unat k = limb a j + unat k' * base"
    "\<And>i. i \<noteq> j \<Longrightarrow> limb w' i = limb w i"
proof -
  define u v where "u = limb_or_0 a j" and "v = limb_or_0 b j"
  have uv: "unat u = limb a j" "unat v = limb b j" by (simp_all add: u_def v_def limb_or_0)
  define r :: "u64 \<times> u64" where "r = (case Option.bind (checked_sub u v) (\<lambda>v1. checked_sub v1 k) of
    Some v2 \<Rightarrow> (v2, 0) | None \<Rightarrow> (u + B - v - k, 1))"
  obtain s k' where r: "r = (s, k')" by (cases r)
  have "unat k' \<le> 1 \<and> unat s < base \<and> unat s + limb b j + unat k = limb a j + unat k' * base"
  proof (cases "limb b j + unat k \<le> limb a j")
    case True
    then have "v \<le> u" "k \<le> u - v" "unat (u - v - k) = unat u - unat v - unat k"
      by (simp_all add: word_le_nat_alt unat_sub uv)
    then have "s = u - v - k" "k' = 0" using r by (simp_all add: r_def checked_sub_def)
    then show ?thesis using True limb_less [of a j] \<open>unat (u - v - k) = _\<close> by (simp add: uv)
  next
    case False
    have "Option.bind (checked_sub u v) (\<lambda>v1. checked_sub v1 k) = None"
    proof (cases "v \<le> u")
      case True
      then have "unat (u - v) = limb a j - limb b j" "limb b j \<le> limb a j"
        by (simp_all add: unat_sub word_le_nat_alt uv)
      then have "\<not> k \<le> u - v" using False by (simp add: word_le_nat_alt)
      then show ?thesis by (simp add: checked_sub_def)
    qed (simp add: checked_sub_def)
    then have s: "s = u + B - v - k" "k' = 1" using r by (simp_all add: r_def)
    have uB: "unat (u + B) = limb a j + base"
      using unat_sum [of u B] two_bases limb_less [of a j] by (simp add: uv unat_B)
    then have "v \<le> u + B" using limb_less [of b j] by (simp add: word_le_nat_alt uv)
    then have 1: "unat (u + B - v) = limb a j + base - limb b j" by (simp add: unat_sub uB uv)
    then have "k \<le> u + B - v" using limb_less [of b j] assms(2) by (simp add: word_le_nat_alt)
    then have "unat s = limb a j + base - limb b j - unat k" by (simp add: s unat_sub 1)
    then show ?thesis using False limb_less [of b j] assms(2) by (simp add: s)
  qed
  then have s: "unat k' \<le> 1" "unat (ucast s :: u32) = unat s" "unat s + limb b j + unat k = limb a j + unat k' * base"
    by (simp_all add: unat_down32)
  obtain w' where w': "set_limb w j (ucast s) = Some w'" "len_big w' = len_big w"
    "\<And>i. limb w' i = (if i = j then unat (ucast s :: u32) else limb w i)"
    using set_limb_Some [OF assms(1), of "ucast s"] by metis
  have "sub_step a b j (w, k) = Some (w', k')"
    using w'(1) r unfolding sub_step_def r_def u_def v_def by (simp add: Let_def)
  then show ?thesis using that [of w' k'] w' s by simp
qed

text \<open>
  Without a final borrow the difference is exact, with one it is the difference plus a power of
  the base, and the number subtracted is larger.
\<close>

theorem sub_big_value:
  "\<exists>w. len_big w = max (max (len_big a) (len_big b)) 1 \<and>
    (if big_value b \<le> big_value a then sub_big a b = Some (Inr w) \<and> big_value w = big_value a - big_value b
     else sub_big a b = Some (Inl w) \<and>
       big_value w = big_value a + base ^ max (len_big a) (len_big b) - big_value b)"
proof -
  let ?n = "max (len_big a) (len_big b)"
  define P where "P = (\<lambda>j (w, k :: u64). len_big w = max ?n 1 \<and> unat k \<le> 1 \<and>
    low w j + low b j = low a j + unat k * base ^ j \<and> (\<forall>i \<ge> j. limb w i = 0))"
  have "\<exists>s. for_each (sub_step a b) [0..<?n] (with_capacity ?n, 0) = Some s \<and> P ?n s"
  proof (rule for_up)
    fix j s assume j: "j < ?n" and "P j s"
    then obtain w k where s: "s = (w, k)" and P: "len_big w = max ?n 1" "unat k \<le> 1"
      "low w j + low b j = low a j + unat k * base ^ j" "\<And>i. j \<le> i \<Longrightarrow> limb w i = 0" by (auto simp: P_def)
    obtain w' k' where st: "sub_step a b j (w, k) = Some (w', k')" "len_big w' = len_big w" "unat k' \<le> 1"
      "limb w' j + limb b j + unat k = limb a j + unat k' * base" "\<And>i. i \<noteq> j \<Longrightarrow> limb w' i = limb w i"
      using sub_step_Some [of j w k a b] j P(1,2) by (metis less_max_iff_disj)
    have "low w' j = low w j" by (rule low_cong) (simp add: st(5))
    then have "low w' (Suc j) + low b (Suc j) = low a (Suc j) + unat k' * base ^ Suc j"
      using borrow_step [OF P(3) st(4)] by (simp add: low_Suc)
    then show "\<exists>s'. sub_step a b j s = Some s' \<and> P (Suc j) s'"
      using st P(1,4) by (simp add: s P_def)
  qed (simp add: P_def)
  then obtain w k where w: "for_each (sub_step a b) [0..<?n] (with_capacity ?n, 0) = Some (w, k)"
    and P: "len_big w = max ?n 1" "unat k \<le> 1" "low w ?n + low b ?n = low a ?n + unat k * base ^ ?n"
      "\<And>i. ?n \<le> i \<Longrightarrow> limb w i = 0"
    by (auto simp: P_def)
  have v: "big_value w + big_value b = big_value a + unat k * base ^ ?n" "big_value w < base ^ ?n"
    using P(3) low_less [of w ?n] value_low [of ?n w, OF P(4)] low_len [of a ?n] low_len [of b ?n] by simp_all
  have k: "k = 0 \<longleftrightarrow> unat k = 0" by (simp add: unat_eq_0)
  have "sub_big a b = Some (if unat k = 0 then Inr w else Inl w)"
    using w by (simp add: sub_big_def k Let_def)
  moreover have "unat k = 0 \<or> unat k = 1" using P(2) by linarith
  ultimately show ?thesis using P(1) v by (intro exI [of _ w]) auto
qed

section \<open>Multiplication\<close>

lemma product_fits: "a < base \<Longrightarrow> b < base \<Longrightarrow> c < base \<Longrightarrow> d < base \<Longrightarrow> a * b + c + d < base * base"
proof -
  assume "a < base" "b < base" and cd: "c < base" "d < base"
  obtain k where k: "base = Suc k" using base_pos by (cases base) auto
  then have "a * b \<le> k * k" using \<open>a < base\<close> \<open>b < base\<close> by (intro mult_le_mono) simp_all
  moreover have "base * base = k * k + 2 * k + 1" by (simp add: k)
  ultimately show ?thesis using cd k by linarith
qed

lemma mul_inner_Some:
  assumes "j < len_big a" "i < len_big b" "i + j < len_big w"
  obtains w' k' where "mul_inner a b j i (w, k) = Some (w', k')" "len_big w' = len_big w"
    "limb w' (i + j) + unat k' * base = limb a j * limb b i + limb w (i + j) + unat k"
    "\<And>l. l \<noteq> i + j \<Longrightarrow> limb w' l = limb w l"
proof -
  obtain x y z where g: "get_limb a j = Some x" "unat x = limb a j" "get_limb b i = Some y" "unat y = limb b i"
    "get_limb w (i + j) = Some z" "unat z = limb w (i + j)"
    using get_limb_Some assms by metis
  define t where "t = mul_single x y + ucast z + ucast k"
  have fits: "limb a j * limb b i + limb w (i + j) + unat k < base * base"
    by (intro product_fits limb_less u32_less)
  then have "unat (mul_single x y) = limb a j * limb b i"
    unfolding mul_single_def by (subst unat_prod) (simp_all add: unat_up32 g)
  then have t: "unat t = limb a j * limb b i + limb w (i + j) + unat k"
    using fits by (simp add: t_def unat_sum unat_up32 g)
  have "unat t div base < base" using fits by (simp add: t less_mult_imp_div_less)
  then have k': "unat (ucast (t div B) :: u32) = unat t div base"
    by (simp add: unat_down32 unat_div unat_B)
  obtain w' where w': "set_limb w (i + j) (ucast (t mod B)) = Some w'" "len_big w' = len_big w"
    "\<And>l. limb w' l = (if l = i + j then unat (ucast (t mod B) :: u32) else limb w l)"
    using set_limb_Some [OF assms(3), of "ucast (t mod B)"] by metis
  have "mul_inner a b j i (w, k) = Some (w', ucast (t div B))"
    using w'(1) by (simp add: mul_inner_def g t_def)
  moreover have "limb w' (i + j) + unat (ucast (t div B) :: u32) * base = unat t"
    unfolding k' by (simp add: w'(3) unat_down32 unat_mod unat_B)
  ultimately show ?thesis using that w' t by simp
qed

lemma mul_row_step:
  assumes "lo + k * p = x + a * q * y" "d + k' * base = a * v + w + k" "p = q * (r :: nat)"
  shows "lo + d * p + k' * (base * p) = x + w * p + a * q * (y + v * r)"
proof -
  have "(d + k' * base) * p = (a * v + w + k) * p" by (simp only: assms(2))
  then have "d * p + k' * (base * p) = a * v * p + w * p + k * p" by (simp add: algebra_simps)
  moreover have "a * v * p = a * q * (v * r)" unfolding assms(3) by simp
  ultimately show ?thesis unfolding add_mult_distrib2 using assms(1) by linarith
qed

lemma mul_row:
  assumes "j < len_big a" "j + len_big b < len_big w"
  obtains w' k' where "for_each (mul_inner a b j) [0..<len_big b] (w, 0) = Some (w', k')" "len_big w' = len_big w"
    "low w' (len_big b + j) + unat k' * base ^ (len_big b + j) =
       low w (len_big b + j) + limb a j * base ^ j * big_value b"
    "\<And>l. len_big b + j \<le> l \<Longrightarrow> limb w' l = limb w l"
proof -
  define P where "P = (\<lambda>i (w', k' :: u32). len_big w' = len_big w \<and>
    low w' (i + j) + unat k' * base ^ (i + j) = low w (i + j) + limb a j * base ^ j * low b i \<and>
    (\<forall>l \<ge> i + j. limb w' l = limb w l))"
  have "\<exists>s. for_each (mul_inner a b j) [0..<len_big b] (w, 0) = Some s \<and> P (len_big b) s"
  proof (rule for_up)
    fix i s assume i: "i < len_big b" and "P i s"
    then obtain v k where s: "s = (v, k)" and P: "len_big v = len_big w"
      "low v (i + j) + unat k * base ^ (i + j) = low w (i + j) + limb a j * base ^ j * low b i"
      "\<And>l. i + j \<le> l \<Longrightarrow> limb v l = limb w l" by (auto simp: P_def)
    obtain v' k' where st: "mul_inner a b j i (v, k) = Some (v', k')" "len_big v' = len_big v"
      "limb v' (i + j) + unat k' * base = limb a j * limb b i + limb v (i + j) + unat k"
      "\<And>l. l \<noteq> i + j \<Longrightarrow> limb v' l = limb v l"
      using mul_inner_Some [OF assms(1) i, of v k] assms(2) i P(1) by auto
    have "low v' (i + j) = low v (i + j)" by (rule low_cong) (simp add: st(4))
    then have "low v' (Suc i + j) + unat k' * base ^ (Suc i + j) =
        low w (Suc i + j) + limb a j * base ^ j * low b (Suc i)"
      using mul_row_step [OF P(2) st(3), of "base ^ i"] P(3) [of "i + j"]
      by (simp add: low_Suc power_add mult.commute)
    then show "\<exists>s'. mul_inner a b j i s = Some s' \<and> P (Suc i) s'"
      using st P(1,3) by (simp add: s P_def)
  qed (simp add: P_def)
  then show ?thesis using that by (auto simp: P_def big_value_def)
qed

theorem mul_big_value:
  "\<exists>w. mul_big a b = Some w \<and> len_big w = max (len_big a + len_big b) 1 \<and>
    big_value w = big_value a * big_value b"
proof -
  let ?n = "len_big a" and ?m = "len_big b"
  define P where "P = (\<lambda>j w. len_big w = max (?n + ?m) 1 \<and> low w (?m + j) = low a j * big_value b \<and>
    (\<forall>l \<ge> ?m + j. limb w l = 0))"
  have "\<exists>w. for_each (mul_outer a b) [0..<?n] (with_capacity (?m + ?n)) = Some w \<and> P ?n w"
  proof (rule for_up)
    fix j w assume j: "j < ?n" and "P j w"
    then have P: "len_big w = ?n + ?m" "low w (?m + j) = low a j * big_value b" "\<And>l. ?m + j \<le> l \<Longrightarrow> limb w l = 0"
      by (auto simp: P_def)
    obtain x where x: "get_limb a j = Some x" "unat x = limb a j" using get_limb_Some [OF j] by metis
    show "\<exists>w'. mul_outer a b j w = Some w' \<and> P (Suc j) w'"
    proof (cases "x = 0")
      case True
      then have "limb a j = 0" using x(2) by simp
      then have "P (Suc j) w" using P j by (simp add: P_def low_Suc)
      then show ?thesis by (simp add: mul_outer_def x True)
    next
      case False
      obtain v k where row: "for_each (mul_inner a b j) [0..<?m] (w, 0) = Some (v, k)" "len_big v = len_big w"
        "low v (?m + j) + unat k * base ^ (?m + j) = low w (?m + j) + limb a j * base ^ j * big_value b"
        "\<And>l. ?m + j \<le> l \<Longrightarrow> limb v l = limb w l"
        using mul_row [of j a b w] j P(1) by auto
      obtain v' where v': "set_limb v (j + ?m) k = Some v'" "len_big v' = len_big v"
        "\<And>l. limb v' l = (if l = j + ?m then unat k else limb v l)"
        using set_limb_Some [of "j + ?m" v k] row(2) P(1) j by auto
      have "low v' (?m + j) = low v (?m + j)" by (rule low_cong) (simp add: v'(3))
      then have "low v' (?m + Suc j) = low a (Suc j) * big_value b"
        using row(3) P(2) by (simp add: low_Suc v'(3) add.commute add_mult_distrib)
      moreover have "limb v' l = 0" if "?m + Suc j \<le> l" for l
        using that v'(3) row(4) P(3) by simp
      ultimately have "P (Suc j) v'" using v'(2) row(2) P(1) j by (simp add: P_def)
      then show ?thesis using False row(1) v'(1) by (simp add: mul_outer_def x)
    qed
  qed (simp add: P_def max.commute add.commute low_top [of 0])
  then obtain w where w: "for_each (mul_outer a b) [0..<?n] (with_capacity (?m + ?n)) = Some w" "P ?n w" by blast
  then have "big_value w = big_value a * big_value b"
    using value_low [of "?m + ?n" w] low_len [of a ?n] by (simp add: P_def)
  then show ?thesis using w by (simp add: mul_big_def P_def)
qed

section \<open>Division by a limb\<close>

definition above :: "biguint \<Rightarrow> nat \<Rightarrow> nat" where
  "above b d = (\<Sum>i = d..<len_big b. limb b i * base ^ i)"

lemma above_step: "d < len_big b \<Longrightarrow> above b d = limb b d * base ^ d + above b (Suc d)"
  unfolding above_def by (rule sum.atLeast_Suc_lessThan)

lemma above_0: "above b 0 = big_value b"
  unfolding above_def big_value_def low_def by (simp add: lessThan_atLeast0)

lemma above_cong: "len_big a = len_big b \<Longrightarrow> (\<And>i. d \<le> i \<Longrightarrow> limb a i = limb b i) \<Longrightarrow> above a d = above b d"
  unfolding above_def by simp

lemma div_unit_step_Some:
  assumes "d < len_big a" "d < len_big out" "r < c"
  obtains out' r' where "div_unit_step a c d (out, r) = Some (out', r')" "len_big out' = len_big out" "r' < c"
    "limb out' d * unat c + unat r' = unat r * base + limb a d" "\<And>i. i \<noteq> d \<Longrightarrow> limb out' i = limb out i"
proof -
  obtain x where x: "get_limb a d = Some x" "unat x = limb a d" using get_limb_Some [OF assms(1)] by metis
  define t where "t = ucast r * B + (ucast x :: u64)"
  have c: "0 < unat c" "unat r < unat c" "c \<noteq> 0" using assms(3) by (auto simp: word_less_nat_alt)
  have fits: "unat r * base + limb a d < unat c * base"
  proof -
    have "Suc (unat r) * base \<le> unat c * base" using c(2) by (intro mult_le_mono1) simp
    then show ?thesis using limb_less [of a d] by simp
  qed
  also have "\<dots> \<le> base * base" using u32_less [of c] by (intro mult_le_mono1) simp
  finally have fit: "unat r * base + limb a d < base * base" .
  have "unat (ucast r * B) = unat r * base"
    using unat_prod [of "ucast r" B] u32_less [of r] by (simp add: unat_up32 unat_B)
  then have t: "unat t = unat r * base + limb a d"
    unfolding t_def using unat_sum [of "ucast r * B" "ucast x"] fit by (simp add: unat_up32 x)
  have "unat t div unat c < base" using fits by (simp add: t less_mult_imp_div_less mult.commute)
  then have q: "unat (ucast (t div ucast c) :: u32) = unat t div unat c"
    by (simp add: unat_down32 unat_div unat_up32)
  have m: "unat t mod unat c < unat c" using c by simp
  then have r': "unat (ucast (t mod ucast c) :: u32) = unat t mod unat c"
    using u32_less [of c] by (simp add: unat_down32 unat_mod unat_up32)
  obtain out' where o: "set_limb out d (ucast (t div ucast c)) = Some out'" "len_big out' = len_big out"
    "\<And>i. limb out' i = (if i = d then unat (ucast (t div ucast c) :: u32) else limb out i)"
    using set_limb_Some [OF assms(2), of "ucast (t div ucast c)"] by metis
  have "div_unit_step a c d (out, r) = Some (out', ucast (t mod ucast c))"
    using c o(1) by (simp add: div_unit_step_def div_single_def x t_def Let_def)
  moreover have "limb out' d * unat c + unat (ucast (t mod ucast c) :: u32) = unat t"
    unfolding o(3) r' by (simp add: q)
  moreover have "ucast (t mod ucast c) < c" unfolding word_less_nat_alt r' by (rule m)
  ultimately show ?thesis using that o t by simp
qed

theorem div_unit_value:
  "\<exists>w. div_unit a c = Some w \<and> len_big w = max (len_big a) 1 \<and> big_value w = big_value a div max (unat c) 1"
proof -
  let ?n = "len_big a" and ?c = "max c 1"
  have c: "unat ?c = max (unat c) 1" by (simp add: unat_max)
  define P where "P = (\<lambda>d (out, r). len_big out = max ?n 1 \<and> r < ?c \<and>
    above a d = above out d * unat ?c + unat r * base ^ d)"
  have "above (with_capacity ?n) ?n = 0" by (simp add: above_def)
  moreover have "above a ?n = 0" by (simp add: above_def)
  moreover have "0 < ?c" unfolding word_less_nat_alt c by simp
  ultimately have init: "P ?n (with_capacity ?n, 0)" by (simp add: P_def)
  have "\<exists>s. for_each (div_unit_step a ?c) (rev [0..<?n]) (with_capacity ?n, 0) = Some s \<and> P 0 s"
    using init
  proof (rule for_down)
    fix d s assume d: "d < ?n" and "P (Suc d) s"
    then obtain out r where s: "s = (out, r)" and P: "len_big out = max ?n 1" "r < ?c"
      "above a (Suc d) = above out (Suc d) * unat ?c + unat r * base ^ Suc d" by (auto simp: P_def)
    obtain out' r' where st: "div_unit_step a ?c d (out, r) = Some (out', r')" "len_big out' = len_big out" "r' < ?c"
      "limb out' d * unat ?c + unat r' = unat r * base + limb a d" "\<And>i. i \<noteq> d \<Longrightarrow> limb out' i = limb out i"
      using div_unit_step_Some [OF d _ P(2), of out] d P(1) by (metis less_max_iff_disj)
    have o: "above out' d = limb out' d * base ^ d + above out (Suc d)"
      using above_step [of d out'] above_cong [OF st(2), of "Suc d"] st(2,5) P(1) d by simp
    have "(limb out' d * unat ?c + unat r') * base ^ d = (unat r * base + limb a d) * base ^ d"
      by (simp only: st(4))
    then have "above a d = above out' d * unat ?c + unat r' * base ^ d"
      using P(3) unfolding above_step [OF d] o by (simp add: algebra_simps)
    then show "\<exists>s'. div_unit_step a ?c d s = Some s' \<and> P d s'" using st P(1) by (simp add: s P_def)
  qed
  then obtain out r where o: "for_each (div_unit_step a ?c) (rev [0..<?n]) (with_capacity ?n, 0) = Some (out, r)"
    "len_big out = max ?n 1" "r < ?c" "big_value a = big_value out * unat ?c + unat r"
    by (auto simp: P_def above_0)
  then have "big_value a div unat ?c = big_value out"
    by (simp add: word_less_nat_alt div_mult_self3 add.commute)
  then show ?thesis using o by (simp add: div_unit_def c Let_def)
qed

section \<open>Leading zeros, comparison, conversions\<close>

abbreviation bv :: "u32 list \<Rightarrow> nat" where
  "bv ds \<equiv> big_value \<lparr>digits = ds\<rparr>"

lemma bv_Nil [simp]: "bv [] = 0"
  by (simp add: big_value_def len_big_def)

lemma bv_Cons: "bv (d # ds) = unat d * base ^ length ds + bv ds"
proof -
  have "low \<lparr>digits = d # ds\<rparr> (length ds) = low \<lparr>digits = ds\<rparr> (length ds)"
    by (rule low_cong) (auto simp: limb_def len_big_def nth_Cons')
  then show ?thesis by (simp add: big_value_def len_big_def low_Suc limb_def)
qed

lemma bv_less: "bv ds < base ^ length ds"
  using big_value_less [of "\<lparr>digits = ds\<rparr>"] by (simp add: len_big_def)

lemma bv_digits [simp]: "bv (digits b) = big_value b"
  by (cases b) simp

lemma position_None: "position P xs = None \<longleftrightarrow> (\<forall>x \<in> set xs. \<not> P x)"
  by (induction xs) auto

lemma position_first:
  assumes "position (\<lambda>e. e \<noteq> 0) ds = Some i"
  shows "i < length ds" "bv (drop i ds) = bv ds" "base ^ (length ds - i - 1) \<le> bv ds"
proof -
  have "i < length ds \<and> bv (drop i ds) = bv ds \<and> base ^ (length ds - i - 1) \<le> bv ds"
    using assms
  proof (induction ds arbitrary: i)
    case (Cons d ds)
    show ?case
    proof (cases "d = 0")
      case True
      then show ?thesis using Cons by (auto simp: bv_Cons)
    next
      case False
      then have "1 \<le> unat d" by (simp add: Suc_leI unat_gt_0)
      then have "base ^ length ds \<le> unat d * base ^ length ds" by simp
      then show ?thesis using False Cons.prems by (simp add: bv_Cons trans_le_add1)
    qed
  qed simp
  then show "i < length ds" "bv (drop i ds) = bv ds" "base ^ (length ds - i - 1) \<le> bv ds" by blast+
qed

lemma position_zero: "position (\<lambda>e. e \<noteq> 0) ds = None \<Longrightarrow> bv ds = 0"
  by (induction ds) (auto simp: bv_Cons split: if_splits)

lemma position_pos: "position (\<lambda>e. e \<noteq> 0) ds = Some i \<Longrightarrow> 0 < bv ds"
  using position_first(3) [of ds i] zero_less_power [OF base_pos, of "length ds - i - 1"] by linarith

lemma cmp_less: "a < b \<Longrightarrow> cmp a b = Less" and cmp_greater: "b < a \<Longrightarrow> cmp a b = Greater"
  and cmp_refl [simp]: "cmp a a = Equal"
  by (auto simp: cmp_def)

lemma bv_less_first:
  assumes "unat x < unat y" "length xs = length ys"
  shows "bv (x # xs) < bv (y # ys)"
proof -
  have "bv (x # xs) < Suc (unat x) * base ^ length xs" using bv_less [of xs] by (simp add: bv_Cons)
  also have "\<dots> \<le> unat y * base ^ length ys" using assms by (metis Suc_leI mult_le_mono1)
  finally show ?thesis by (simp add: bv_Cons)
qed

lemma cmp_slice_value: "length xs = length ys \<Longrightarrow> cmp_slice xs ys = cmp (bv xs) (bv ys)"
proof (induction xs ys rule: cmp_slice.induct)
  case (4 x xs y ys)
  consider "x < y" | "x = y" | "y < x" by force
  then show ?case
  proof cases
    case 1
    then have "bv (x # xs) < bv (y # ys)" using 4 by (intro bv_less_first) (simp_all add: word_less_nat_alt)
    with 1 show ?thesis by (simp add: cmp_less)
  next
    case 2
    then show ?thesis using 4 by (auto simp: bv_Cons cmp_def)
  next
    case 3
    then have "bv (y # ys) < bv (x # xs)" using 4 by (intro bv_less_first) (simp_all add: word_less_nat_alt)
    with 3 show ?thesis by (simp add: cmp_greater)
  qed
qed simp_all

lemma shorter_less:
  assumes "length xs < length ys" "base ^ (length ys - 1) \<le> bv ys"
  shows "bv xs < bv ys"
proof -
  have "base ^ length xs \<le> base ^ (length ys - 1)" using assms(1) base_gt by (intro power_increasing) simp_all
  then show ?thesis using bv_less [of xs] assms(2) by linarith
qed

theorem cmp_big_value: "cmp_big a b = cmp (big_value a) (big_value b)"
proof (cases "position (\<lambda>e. e \<noteq> 0) (digits a)")
  case None
  then have "big_value a = 0" using position_zero [OF None] by simp
  then show ?thesis
    using None position_pos [of "digits b"] position_zero [of "digits b"]
    by (cases "position (\<lambda>e. e \<noteq> 0) (digits b)") (simp_all add: cmp_big_def cmp_def)
next
  case (Some i)
  note a = position_first [OF Some]
  have apos: "0 < big_value a" using position_pos [OF Some] by simp
  show ?thesis
  proof (cases "position (\<lambda>e. e \<noteq> 0) (digits b)")
    case None
    then show ?thesis using Some apos position_zero [OF None] by (simp add: cmp_big_def cmp_greater)
  next
    case j: (Some j)
    note b = position_first [OF j]
    let ?x = "drop i (digits a)" and ?y = "drop j (digits b)"
    have v: "bv ?x = big_value a" "bv ?y = big_value b" using a(2) b(2) by simp_all
    have x: "base ^ (length ?x - 1) \<le> bv ?x" and y: "base ^ (length ?y - 1) \<le> bv ?y"
      using a(2,3) b(2,3) by simp_all
    have eq: "cmp_big a b = (if cmp (length ?x) (length ?y) = Equal then cmp_slice ?x ?y
        else cmp (length ?x) (length ?y))"
      by (simp add: cmp_big_def Some j Let_def)
    consider "length ?x < length ?y" | "length ?x = length ?y" | "length ?y < length ?x" by linarith
    then show ?thesis
    proof cases
      case 1
      then show ?thesis unfolding eq using shorter_less [OF 1 y] by (simp only: cmp_less v) simp
    next
      case 2
      then show ?thesis unfolding eq using cmp_slice_value [OF 2] by (simp only: v cmp_refl) simp
    next
      case 3
      then show ?thesis unfolding eq using shorter_less [OF 3 x] by (simp only: cmp_greater v) simp
    qed
  qed
qed

lemma lstrip_value: "big_value (lstrip b) = big_value b"
proof (cases "position (\<lambda>e. e \<noteq> 0) (digits b)")
  case None
  then have "bv (drop k (digits b)) = 0" for k
    by (intro position_zero) (auto simp: position_None dest: in_set_dropD)
  then show ?thesis using position_zero [OF None] None by (simp add: lstrip_def Let_def)
next
  case (Some i)
  then show ?thesis using position_first(2) [OF Some] by (simp add: lstrip_def Let_def)
qed

text \<open>A stripped number has as few limbs as its value allows.\<close>

lemma lstrip_len:
  assumes "digits b \<noteq> []"
  shows "len_big (lstrip b) \<le> k \<longleftrightarrow> 0 < k \<and> big_value b < base ^ k"
proof (cases "position (\<lambda>e. e \<noteq> 0) (digits b)")
  case None
  then have "len_big (lstrip b) = 1" using assms by (cases "digits b") (auto simp: lstrip_def len_big_def Let_def)
  then show ?thesis using position_zero [OF None] by auto
next
  case (Some i)
  note p = position_first [OF Some]
  have l: "len_big (lstrip b) = length (digits b) - i" using p(1) Some by (auto simp: lstrip_def len_big_def Let_def)
  show ?thesis
  proof
    assume k: "len_big (lstrip b) \<le> k"
    then have "base ^ len_big (lstrip b) \<le> base ^ k" using base_gt by (intro power_increasing) simp_all
    then show "0 < k \<and> big_value b < base ^ k"
      using k l p(1) big_value_less [of "lstrip b"] by (simp add: lstrip_value)
  next
    assume k: "0 < k \<and> big_value b < base ^ k"
    then have "base ^ (length (digits b) - i - 1) < base ^ k" using p(3) by simp
    then have "length (digits b) - i - 1 < k" using base_gt by (rule power_less_imp_less_exp [rotated])
    then show "len_big (lstrip b) \<le> k" unfolding l by linarith
  qed
qed

lemma split_double_value:
  assumes "split_double a = (h, l)"
  shows "unat h * base + unat l = unat a"
proof -
  have "unat (ucast (drop_bit 32 a) :: u32) = unat a div base"
    using u64_less [of a] unfolding unat_down32 unat_drop_bit base_def [symmetric]
    by (simp add: less_mult_imp_div_less)
  moreover have "h = ucast (drop_bit 32 a)" "l = ucast a" using assms by (simp_all add: split_double_def Let_def)
  ultimately show ?thesis by (simp only: unat_down32 div_mult_mod_eq)
qed

lemma split_u128_value:
  assumes "split_u128 a = (h, l)"
  shows "unat h * (base * base) + unat l = unat a"
proof -
  have "unat a < (base * base) * (base * base)" using unat_less_power [of a] by (simp add: base_def)
  then have "unat (ucast (drop_bit 64 a) :: u64) = unat a div (base * base)"
    unfolding unat_cast unat_drop_bit base_square by (simp add: less_mult_imp_div_less base_square)
  moreover have "h = ucast (drop_bit 64 a)" "l = ucast a" using assms by (simp_all add: split_u128_def Let_def)
  moreover have "unat (ucast a :: u64) = unat a mod (base * base)" unfolding unat_cast base_square by simp
  ultimately show ?thesis by (simp only: div_mult_mod_eq)
qed

lemma from_u64_value: "big_value (from_u64 a) = unat a"
  using split_double_value [of a] by (cases "split_double a") (simp add: from_u64_def bv_Cons)

lemma to_big_uint_value: "big_value (to_big_uint x) = unat x"
proof -
  obtain xh xl where x: "split_u128 x = (xh, xl)" by force
  obtain a b where h: "split_double xh = (a, b)" by force
  obtain c d where l: "split_double xl = (c, d)" by force
  have "big_value (to_big_uint x) = bv [a, b, c, d]"
    by (simp add: to_big_uint_def x h l lstrip_value from_limbs_def)
  also have "\<dots> = (unat a * base + unat b) * (base * base) + (unat c * base + unat d)"
    by (simp add: bv_Cons power2_eq_square power3_eq_cube algebra_simps numeral_2_eq_2)
  finally show ?thesis using split_double_value [OF h] split_double_value [OF l] split_u128_value [OF x] by simp
qed

lemma fold_limbs:
  "foldl (\<lambda>acc (i, d). acc + push_bit (32 * i) (ucast d)) 0 (enumerate 0 (rev ds)) = (of_nat (bv ds) :: 'w::len word)"
proof (induction ds)
  case (Cons d ds)
  have "push_bit (32 * length ds) (ucast d) = (of_nat (unat d * base ^ length ds) :: 'w word)"
    by (simp add: push_bit_eq_mult base_def power_mult)
  then show ?case using Cons by (simp add: enumerate_append_eq bv_Cons add.commute)
qed simp

text \<open>A number converts to a machine integer exactly if it fits.\<close>

lemma try_from_big_value:
  assumes "LENGTH('w::len) = 32 * k" "0 < k" "digits b \<noteq> []"
  shows "try_from_big b = (if big_value b < 2 ^ LENGTH('w) then Some (of_nat (big_value b) :: 'w word) else None)"
proof -
  have "LENGTH('w) < len_big (lstrip b) * 32 \<longleftrightarrow> \<not> len_big (lstrip b) \<le> k" by (auto simp: assms(1))
  also have "\<dots> \<longleftrightarrow> \<not> big_value b < 2 ^ LENGTH('w)"
    unfolding lstrip_len [OF assms(3)] assms(1) power_mult using assms(2) by (simp add: base_def)
  finally show ?thesis by (simp add: try_from_big_def fold_limbs lstrip_value Let_def)
qed

lemma lstrip_nonempty: "digits b \<noteq> [] \<Longrightarrow> digits (lstrip b) \<noteq> []"
  using position_first(1) [of "digits b"] by (auto simp: lstrip_def len_big_def Let_def split: option.splits)

lemma to_big_uint_nonempty: "digits (to_big_uint x) \<noteq> []"
  by (auto simp: to_big_uint_def from_limbs_def split: prod.split intro!: lstrip_nonempty)

section \<open>Properties\<close>

text \<open>
  C35. The limb algorithms refine the arithmetic of natural numbers, for numbers of any
  length: none of them panics, sum, product and quotient by a limb have the exact value, and a
  difference is exact when it exists. When the number subtracted is larger, the error carries the
  difference modulo the power of the base that the longer operand has limbs.
\<close>

theorem biguint_refines_nat:
  "(\<exists>w. add_big a b = Some w \<and> len_big w = max (len_big a) (len_big b) + 1 \<and>
      big_value w = big_value a + big_value b) \<and>
   (\<exists>w. mul_big a b = Some w \<and> big_value w = big_value a * big_value b) \<and>
   (\<exists>w. div_unit a c = Some w \<and> big_value w = big_value a div max (unat c) 1) \<and>
   (\<exists>w. sub_big a b = Some (if big_value b \<le> big_value a then Inr w else Inl w) \<and>
      int (big_value w) = (int (big_value a) - int (big_value b)) mod int (base ^ max (len_big a) (len_big b)))"
proof -
  define M where "M = base ^ max (len_big a) (len_big b)"
  have small: "big_value a < M" "big_value b < M"
    using low_less [of a "max (len_big a) (len_big b)"] low_less [of b "max (len_big a) (len_big b)"]
    by (simp_all add: low_len M_def)
  have "\<exists>w. sub_big a b = Some (if big_value b \<le> big_value a then Inr w else Inl w) \<and>
      int (big_value w) = (int (big_value a) - int (big_value b)) mod int M"
  proof (cases "big_value b \<le> big_value a")
    case True
    then obtain w where "sub_big a b = Some (Inr w)" "big_value w = big_value a - big_value b"
      using sub_big_value [of a b] by auto
    then show ?thesis using True small by (intro exI [of _ w]) (simp add: of_nat_diff mod_pos_pos_trivial)
  next
    case False
    then obtain w where w: "sub_big a b = Some (Inl w)" "big_value w = big_value a + M - big_value b"
      using sub_big_value [of a b] by (auto simp: M_def)
    have "(int (big_value a) - int (big_value b)) mod int M = int (big_value a) - int (big_value b) + int M"
      using mod_add_self2 [of "int (big_value a) - int (big_value b)" "int M"] False small
      by (simp only: mod_pos_pos_trivial)
    then show ?thesis using False small w by (intro exI [of _ w]) (simp add: of_nat_diff)
  qed
  then show ?thesis using add_big_value [of a b] mul_big_value [of a b] div_unit_value [of a c]
    unfolding M_def by blast
qed

text \<open>
  Comparison of big numbers is comparison of their values, whatever leading zeros the
  operands have, so it is a total order up to leading zeros.
\<close>

lemma cmp_big_compares:
  "cmp_big a b = cmp (big_value a) (big_value b) \<and>
   (eq_big a b \<longleftrightarrow> big_value a = big_value b) \<and> eq_big (lstrip a) a \<and> eq_big (lpad a n) a"
proof -
  have "bv (replicate k 0 @ ds) = bv ds" for k ds by (induction k) (simp_all add: bv_Cons)
  then have "big_value (lpad a n) = big_value a" by (simp add: lpad_def Let_def)
  then show ?thesis by (simp add: eq_big_def cmp_big_value lstrip_value) (simp add: cmp_def)
qed

text \<open>A 128-bit integer survives the way to a big number and back, and a 64-bit one too.\<close>

lemma biguint_round_trip:
  "try_from_big (to_big_uint x) = Some x \<and> try_from_big (from_u64 y) = Some y"
proof -
  have "digits (from_u64 y) \<noteq> []" by (cases "split_double y") (simp add: from_u64_def)
  then have "try_from_big (from_u64 y) = Some y"
    using try_from_big_value [where 'w = 64, of 2 "from_u64 y"] unat_less_power [of y]
    by (simp add: from_u64_value)
  moreover have "try_from_big (to_big_uint x) = Some x"
    using try_from_big_value [where 'w = 128, of 4 "to_big_uint x"] to_big_uint_nonempty [of x] unat_less_power [of x]
    by (simp add: to_big_uint_value)
  ultimately show ?thesis by blast
qed

end
