(* ===== verification/BigUint_Div.thy ===== *)
theory BigUint_Div
  imports BigUint
begin

text \<open>
  Long division of big numbers (\<open>BigUint::div\<close> in \<open>primitives/arithmetic/src/biguint.rs\<close>),
  Knuth's algorithm D: normalise so that the first limb of the divisor has its highest bit set,
  estimate every limb of the quotient from the leading limbs, correct the estimate, subtract, and
  add back when the estimate was one too large.

  The main result is that the algorithm computes quotient and remainder of the values exactly, so
  also that it terminates, never panics, and that none of its 64-bit intermediate values wraps.
\<close>

section \<open>The algorithm\<close>

text \<open>\<open>test\<close>: one correction of the estimate, and whether it was needed.\<close>

definition test_qhat ::
  "biguint \<Rightarrow> biguint \<Rightarrow> nat \<Rightarrow> nat \<Rightarrow> u64 \<Rightarrow> u64 \<Rightarrow> (bool \<times> u64 \<times> u64) option" where
  "test_qhat self_norm other_norm n j qhat rhat =
     do {
       v2 \<leftarrow> get_limb other_norm (n - 2);
       u2 \<leftarrow> get_limb self_norm (j + n - 2);
       v1 \<leftarrow> get_limb other_norm (n - 1);
       let predicate_1 = B \<le> qhat;
       let lhs = qhat * ucast v2;
       let rhs = B * rhat + ucast u2;
       let predicate_2 = rhs < lhs;
       Some (if predicate_1 \<or> predicate_2 then (True, qhat - 1, rhat + ucast v1) else (False, qhat, rhat))
     }"

text \<open>The loop around \<open>test\<close>; \<open>None\<close> is a panic or a run that does not end.\<close>

partial_function (option) test_loop ::
  "biguint \<Rightarrow> biguint \<Rightarrow> nat \<Rightarrow> nat \<Rightarrow> u64 \<Rightarrow> u64 \<Rightarrow> u64 option" where
  "test_loop self_norm other_norm n j qhat rhat =
     (if rhat < B
      then do {
        (again, qhat, rhat) \<leftarrow> test_qhat self_norm other_norm n j qhat rhat;
        if again then test_loop self_norm other_norm n j qhat rhat else Some qhat
      }
      else Some qhat)"

text \<open>Step D3, the estimate of a limb of the quotient.\<close>

definition estimate_qhat :: "biguint \<Rightarrow> biguint \<Rightarrow> nat \<Rightarrow> nat \<Rightarrow> u64 option" where
  "estimate_qhat self_norm other_norm n j =
     do {
       u0 \<leftarrow> get_limb self_norm (j + n);
       u1 \<leftarrow> get_limb self_norm (j + n - 1);
       let dividend = ucast u0 * B + ucast u1;
       divisor \<leftarrow> get_limb other_norm (n - 1);
       (qhat, rhat) \<leftarrow> div_single dividend divisor;
       (_, qhat, rhat) \<leftarrow> test_qhat self_norm other_norm n j qhat (ucast rhat);
       test_loop self_norm other_norm n j qhat rhat
     }"

text \<open>The limbs \<open>j..=j + n\<close> as a number, and writing them back.\<close>

definition window :: "biguint \<Rightarrow> nat \<Rightarrow> nat \<Rightarrow> biguint option" where
  "window u j n = map_option (\<lambda>ds. \<lparr>digits = ds\<rparr>) (those (map (get_limb u) (rev [j..<j + n + 1])))"

definition write_window :: "biguint \<Rightarrow> nat \<Rightarrow> nat \<Rightarrow> biguint \<Rightarrow> biguint option" where
  "write_window u j n w =
     for_each (\<lambda>d u. do { x \<leftarrow> get_limb w (d - j); set_limb u d x }) [j..<j + n + 1] u"

text \<open>One pass of the loop over the limbs of the quotient, steps D3 to D6.\<close>

definition div_step :: "biguint \<Rightarrow> nat \<Rightarrow> nat \<Rightarrow> biguint \<times> biguint \<Rightarrow> (biguint \<times> biguint) option" where
  "div_step other_norm n j st =
     (let (self_norm, q) = st
      in do {
           qhat \<leftarrow> estimate_qhat self_norm other_norm n j;
           lhs \<leftarrow> window self_norm j n;
           rhs \<leftarrow> mul_big other_norm (from_u64 qhat);
           maybe_sub \<leftarrow> sub_big lhs rhs;
           let (negative, sub) = (case maybe_sub of Inr t \<Rightarrow> (False, t) | Inl t \<Rightarrow> (True, t));
           self_norm \<leftarrow> write_window self_norm j n sub;
           q \<leftarrow> set_limb q j (ucast qhat);
           if negative
           then do {
             x \<leftarrow> get_limb q j;
             q \<leftarrow> set_limb q j (x - 1);
             u \<leftarrow> window self_norm j n;
             r \<leftarrow> add_big other_norm u;
             self_norm \<leftarrow> write_window self_norm j n r;
             Some (self_norm, q)
           }
           else Some (self_norm, q)
         })"

text \<open>Undo the normalisation of the remainder.\<close>

definition unnormalize_step :: "biguint \<Rightarrow> nat \<Rightarrow> nat \<Rightarrow> biguint \<Rightarrow> biguint option" where
  "unnormalize_step self_norm nb d r =
     do {
       x \<leftarrow> get_limb self_norm d;
       y \<leftarrow> get_limb self_norm (d + 1);
       set_limb r d (drop_bit nb x OR push_bit (32 - nb) y)
     }"

definition unnormalize :: "biguint \<Rightarrow> nat \<Rightarrow> nat \<Rightarrow> biguint \<Rightarrow> biguint option" where
  "unnormalize self_norm n nb r =
     do {
       r \<leftarrow> for_each (unnormalize_step self_norm nb) [0..<n - 1] r;
       x \<leftarrow> get_limb self_norm (n - 1);
       set_limb r (n - 1) (drop_bit nb x)
     }"

text \<open>The inner option is the result: \<open>None\<close> for operands the function does not accept.\<close>

definition div_big :: "biguint \<Rightarrow> biguint \<Rightarrow> bool \<Rightarrow> (biguint \<times> biguint) option option" where
  "div_big self other rem =
     (if len_big other \<le> 1 then Some None
      else do {
        om \<leftarrow> msb other;
        if om = 0 then Some None
        else do {
          sm \<leftarrow> msb self;
          if sm = 0 \<or> len_big self \<le> len_big other then Some None
          else do {
            let n = len_big other;
            let m = len_big self - n;
            let normalizer_bits = leading_zeros om;
            let normalizer = 2 ^ normalizer_bits;
            self_norm \<leftarrow> mul_big self (from_u32 normalizer);
            other_norm \<leftarrow> mul_big other (from_u32 normalizer);
            let self_norm = lpad self_norm (n + m + 1);
            let other_norm = lstrip other_norm;
            (self_norm, q) \<leftarrow> for_each (div_step other_norm n) (rev [0..<m + 1]) (self_norm, with_capacity (m + 1));
            let r = with_capacity n;
            r \<leftarrow> (if rem
                  then if 0 < normalizer_bits then unnormalize self_norm n normalizer_bits r else Some self_norm
                  else Some r);
            Some (Some (q, r))
          }
        }
      })"

section \<open>The estimate of a limb\<close>

text \<open>
  \<open>estimates u v n j q\<close>: \<open>q\<close> is a limb, and not larger than the quotient of the three leading
  limbs of \<open>u\<close>, from position \<open>j\<close> on, by the two leading limbs of \<open>v\<close>, which is normalised.
\<close>

abbreviation lead2 :: "biguint \<Rightarrow> nat \<Rightarrow> nat" where
  "lead2 u i \<equiv> limb u i * base + limb u (i - 1)"

definition estimates :: "biguint \<Rightarrow> biguint \<Rightarrow> nat \<Rightarrow> nat \<Rightarrow> nat \<Rightarrow> bool" where
  "estimates u v n j q \<longleftrightarrow> 2 \<le> n \<and> n \<le> len_big v \<and> j + n < len_big u \<and> base \<le> 2 * limb v (n - 1) \<and>
     lead2 u (j + n) < (limb v (n - 1) + 1) * base \<and> q < base \<and> q * limb v (n - 1) \<le> lead2 u (j + n) \<and>
     q * lead2 v (n - 1) \<le> lead2 u (j + n) * base + limb u (j + n - 2)"

lemma estimate_small:
  assumes "estimates u v n j q" "qhat * limb v (n - 1) + rhat = lead2 u (j + n)"
  shows "qhat \<le> base + 1"
proof -
  have "qhat * limb v (n - 1) < (limb v (n - 1) + 1) * base" using assms by (simp add: estimates_def)
  also have "\<dots> \<le> (base + 2) * limb v (n - 1)" using assms(1) by (simp add: estimates_def algebra_simps)
  finally have "qhat < base + 2" by (simp only: mult_less_cancel2)
  then show ?thesis by simp
qed

lemma estimate_lower:
  assumes est: "estimates u v n j q" and inv: "qhat * limb v (n - 1) + rhat = lead2 u (j + n)" "q \<le> qhat"
    and test: "base \<le> qhat \<or> base * rhat + limb u (j + n - 2) < qhat * limb v (n - 2)"
  shows "q < qhat"
proof (rule ccontr)
  assume "\<not> q < qhat"
  then have q: "q = qhat" using inv(2) by simp
  let ?v1 = "limb v (n - 1)" and ?v2 = "limb v (n - 1 - 1)"
  have n: "n - 1 - 1 = n - 2" by simp
  have "qhat * (?v1 * base + ?v2) \<le> (qhat * ?v1 + rhat) * base + limb u (j + n - 2)"
    using est unfolding estimates_def q inv(1) by blast
  then have "qhat * ?v2 \<le> rhat * base + limb u (j + n - 2)" by (simp add: algebra_simps)
  moreover have "qhat < base" using est by (simp add: estimates_def q)
  ultimately show False using test unfolding n by (simp add: mult.commute)
qed

lemma test_qhat_Some:
  assumes est: "estimates u v n j q" and inv: "unat qhat * limb v (n - 1) + unat rhat = lead2 u (j + n)"
    and r: "unat rhat < base"
  obtains t qhat' rhat' where "test_qhat u v n j qhat rhat = Some (t, qhat', rhat')"
    "t \<longleftrightarrow> base \<le> unat qhat \<or> base * unat rhat + limb u (j + n - 2) < unat qhat * limb v (n - 2)"
    "t \<Longrightarrow> unat qhat' = unat qhat - 1 \<and> unat rhat' = unat rhat + limb v (n - 1) \<and> 0 < unat qhat"
    "\<not> t \<Longrightarrow> qhat' = qhat \<and> rhat' = rhat"
proof -
  have idx: "n - 2 < len_big v" "j + n - 2 < len_big u" "n - 1 < len_big v"
    using est unfolding estimates_def by linarith+
  obtain x y z where g: "get_limb v (n - 2) = Some x" "unat x = limb v (n - 2)"
    "get_limb u (j + n - 2) = Some y" "unat y = limb u (j + n - 2)"
    "get_limb v (n - 1) = Some z" "unat z = limb v (n - 1)"
    using get_limb_Some idx by metis
  have "unat qhat * limb v (n - 2) \<le> (base + 1) * (base - 1)"
    using estimate_small [OF est inv] limb_less [of v "n - 2"] by (intro mult_le_mono) simp_all
  also have "\<dots> < base * base" using base_gt by (simp add: algebra_simps diff_mult_distrib)
  finally have lhs: "unat (qhat * ucast x) = unat qhat * limb v (n - 2)"
    using unat_prod [of qhat "ucast x"] by (simp add: unat_up32 g)
  have "unat rhat * base + limb u (j + n - 2) < base * base"
    using product_fits [of "unat rhat" "base - 1" "unat rhat" "limb u (j + n - 2)"] r limb_less [of u "j + n - 2"]
    by (simp add: algebra_simps diff_mult_distrib2)
  then have fits: "base * unat rhat + limb u (j + n - 2) < base * base" by (simp add: mult.commute)
  then have "unat (B * rhat) = base * unat rhat" using unat_prod [of B rhat] r by (simp add: unat_B)
  then have rhs: "unat (B * rhat + ucast y) = base * unat rhat + limb u (j + n - 2)"
    using unat_sum [of "B * rhat" "ucast y"] fits by (simp add: unat_up32 g)
  define t where "t \<longleftrightarrow> B \<le> qhat \<or> B * rhat + ucast y < qhat * ucast x"
  have t: "t \<longleftrightarrow> base \<le> unat qhat \<or> base * unat rhat + limb u (j + n - 2) < unat qhat * limb v (n - 2)"
    unfolding t_def word_le_nat_alt word_less_nat_alt lhs rhs unat_B ..
  have "unat (qhat - 1) = unat qhat - 1" "0 < unat qhat" if t
  proof -
    show "0 < unat qhat" using that t base_pos by (cases "unat qhat") auto
    then have "1 \<le> qhat" by (simp add: word_le_nat_alt)
    then show "unat (qhat - 1) = unat qhat - 1" by (simp add: unat_sub)
  qed
  moreover have "unat (rhat + ucast z) = unat rhat + limb v (n - 1)"
    using unat_sum [of rhat "ucast z"] three_digits [OF r limb_less [of v "n - 1"], of 0] by (simp add: unat_up32 g)
  moreover have "test_qhat u v n j qhat rhat =
      Some (if t then (True, qhat - 1, rhat + ucast z) else (False, qhat, rhat))"
    by (simp add: test_qhat_def g g(5) [simplified] t_def)
  ultimately show ?thesis using that t by (cases t) auto
qed

lemma estimate_upper:
  assumes "qhat * limb v (n - 1) + rhat = lead2 u (j + n)"
    "qhat * limb v (n - 2) \<le> base * rhat + limb u (j + n - 2)"
  shows "qhat * lead2 v (n - 1) \<le> lead2 u (j + n) * base + limb u (j + n - 2)"
proof -
  have n: "n - 1 - 1 = n - 2" by simp
  have "qhat * lead2 v (n - 1) = qhat * limb v (n - 1) * base + qhat * limb v (n - 2)"
    unfolding n by (simp add: algebra_simps)
  also have "\<dots> \<le> qhat * limb v (n - 1) * base + (base * rhat + limb u (j + n - 2))" using assms(2) by simp
  also have "\<dots> = (qhat * limb v (n - 1) + rhat) * base + limb u (j + n - 2)" by (simp add: algebra_simps)
  finally show ?thesis unfolding assms(1) .
qed

lemma test_loop_Some:
  assumes est: "estimates u v n j q"
    and "unat qhat * limb v (n - 1) + unat rhat = lead2 u (j + n)" "q \<le> unat qhat"
  shows "\<exists>qhat'. test_loop u v n j qhat rhat = Some qhat' \<and> q \<le> unat qhat' \<and> unat qhat' < base \<and>
    unat qhat' * lead2 v (n - 1) \<le> lead2 u (j + n) * base + limb u (j + n - 2)"
  using assms(2,3)
proof (induction "base - unat rhat" arbitrary: qhat rhat rule: less_induct)
  case less
  note inv = less.prems
  have v1: "0 < limb v (n - 1)" using est base_gt by (auto simp: estimates_def intro!: gr0I)
  show ?case
  proof (cases "unat rhat < base")
    case True
    then have r: "rhat < B" by (simp add: word_less_nat_alt unat_B)
    obtain t qhat' rhat' where t: "test_qhat u v n j qhat rhat = Some (t, qhat', rhat')"
      "t \<longleftrightarrow> base \<le> unat qhat \<or> base * unat rhat + limb u (j + n - 2) < unat qhat * limb v (n - 2)"
      "t \<Longrightarrow> unat qhat' = unat qhat - 1 \<and> unat rhat' = unat rhat + limb v (n - 1) \<and> 0 < unat qhat"
      "\<not> t \<Longrightarrow> qhat' = qhat \<and> rhat' = rhat"
      using test_qhat_Some [OF est inv(1) True] by metis
    show ?thesis
    proof (cases t)
      case again: True
      then have "q < unat qhat" using estimate_lower [OF est inv] t(2) by blast
      moreover have "unat qhat' * limb v (n - 1) + unat rhat' = lead2 u (j + n)"
        using t(3) [OF again] inv(1) by (cases "unat qhat") auto
      moreover have "base - unat rhat' < base - unat rhat" using t(3) [OF again] True v1 by simp
      ultimately show ?thesis
        using less.hyps [of rhat' qhat'] t(3) [OF again] again r t(1)
        by (subst test_loop.simps) simp
    next
      case False
      then show ?thesis
        using inv t(1,2,4) r estimate_upper [OF inv(1)] by (subst test_loop.simps) simp
    qed
  next
    case False
    then have nr: "\<not> rhat < B" by (simp add: word_less_nat_alt unat_B)
    have "unat qhat * limb v (n - 1) + base \<le> lead2 u (j + n)" using inv(1) False by simp
    moreover have "lead2 u (j + n) < limb v (n - 1) * base + base"
      using est unfolding estimates_def add_mult_distrib by simp
    ultimately have "unat qhat * limb v (n - 1) < base * limb v (n - 1)"
      unfolding mult.commute [of base "limb v (n - 1)"] by linarith
    then have q: "unat qhat < base" by (simp only: mult_less_cancel2)
    have "unat qhat * limb v (n - 2) \<le> base * unat rhat"
      using q False limb_less [of v "n - 2"] by (intro mult_le_mono) simp_all
    then show ?thesis
      using nr inv q estimate_upper [OF inv(1)] by (subst test_loop.simps) simp
  qed
qed

theorem estimate_qhat_Some:
  assumes est: "estimates u v n j q"
  shows "\<exists>qhat. estimate_qhat u v n j = Some qhat \<and> q \<le> unat qhat \<and> unat qhat < base \<and>
    unat qhat * lead2 v (n - 1) \<le> lead2 u (j + n) * base + limb u (j + n - 2)"
proof -
  have idx: "j + n < len_big u" "j + n - 1 < len_big u" "n - 1 < len_big v"
    using est unfolding estimates_def by linarith+
  obtain x y z where g: "get_limb u (j + n) = Some x" "unat x = limb u (j + n)"
    "get_limb u (j + n - 1) = Some y" "unat y = limb u (j + n - 1)"
    "get_limb v (n - 1) = Some z" "unat z = limb v (n - 1)"
    using get_limb_Some idx by metis
  define d where "d = ucast x * B + (ucast y :: u64)"
  define qhat rhat where "qhat = d div ucast z" and "rhat = ucast (ucast (d mod ucast z) :: u32) + (0 :: u64)"
  have "unat (ucast x * B) = limb u (j + n) * base"
    using unat_prod [of "ucast x" B] u32_less [of x] by (simp add: unat_up32 unat_B g)
  moreover have "lead2 u (j + n) < base * base"
    using limb_less [of u "j + n"] limb_less [of u "j + n - 1"] digit_less [of "limb u (j + n - 1)" base 1 "limb u (j + n)"]
    by (simp add: add.commute mult.commute power2_eq_square)
  ultimately have d: "unat d = lead2 u (j + n)"
    using unat_sum [of "ucast x * B" "ucast y"] by (simp add: d_def unat_up32 g)
  have z: "0 < unat z" "z \<noteq> 0" using est base_gt g(6) by (auto simp: estimates_def intro!: gr0I)
  have qd: "unat qhat = lead2 u (j + n) div unat z" by (simp add: qhat_def unat_div unat_up32 d)
  have m: "lead2 u (j + n) mod unat z < unat z" using z by simp
  then have rd: "unat rhat = lead2 u (j + n) mod unat z"
    using u32_less [of z] by (simp add: rhat_def unat_up32 unat_down32 unat_mod d)
  have inv: "unat qhat * limb v (n - 1) + unat rhat = lead2 u (j + n)" "unat rhat < base"
    unfolding qd rd g(6) [symmetric] using m u32_less [of z] by simp_all
  have q: "q \<le> unat qhat"
    using est z(1) unfolding qd estimates_def g(6) [symmetric] by (simp add: less_eq_div_iff_mult_less_eq)
  obtain t qhat' rhat' where t: "test_qhat u v n j qhat rhat = Some (t, qhat', rhat')"
    "t \<longleftrightarrow> base \<le> unat qhat \<or> base * unat rhat + limb u (j + n - 2) < unat qhat * limb v (n - 2)"
    "t \<Longrightarrow> unat qhat' = unat qhat - 1 \<and> unat rhat' = unat rhat + limb v (n - 1) \<and> 0 < unat qhat"
    "\<not> t \<Longrightarrow> qhat' = qhat \<and> rhat' = rhat"
    using test_qhat_Some [OF est inv] by metis
  have "unat qhat' * limb v (n - 1) + unat rhat' = lead2 u (j + n) \<and> q \<le> unat qhat'"
  proof (cases t)
    case True
    then have "q < unat qhat" using estimate_lower [OF est inv(1) q] t(2) by blast
    then show ?thesis using t(3) [OF True] inv(1) by (cases "unat qhat") auto
  next
    case False
    then show ?thesis using t(4) inv(1) q by simp
  qed
  then obtain r where "test_loop u v n j qhat' rhat' = Some r" "q \<le> unat r" "unat r < base"
    "unat r * lead2 v (n - 1) \<le> lead2 u (j + n) * base + limb u (j + n - 2)"
    using test_loop_Some [OF est] by blast
  then show ?thesis
    using t(1) z(2) by (simp add: estimate_qhat_def g g(3,5) [simplified] div_single_def d_def qhat_def rhat_def Let_def)
qed

section \<open>Windows of limbs\<close>

definition win :: "biguint \<Rightarrow> nat \<Rightarrow> nat \<Rightarrow> nat" where
  "win u j k = (\<Sum>i<k. limb u (j + i) * base ^ i)"

lemma win_Suc: "win u j (Suc k) = win u j k + limb u (j + k) * base ^ k"
  by (simp add: win_def)

lemma win_less: "win u j k < base ^ k"
  by (induction k) (simp_all only: win_Suc digit_less limb_less, simp add: win_def)

lemma win_0: "win u 0 k = low u k"
  by (simp add: win_def low_def)

lemma low_win: "low u (j + k) = low u j + base ^ j * win u j k"
  by (induction k) (simp_all add: low_Suc win_Suc win_def power_add algebra_simps)

lemma value_win: "(\<And>i. j + k \<le> i \<Longrightarrow> limb u i = 0) \<Longrightarrow> big_value u = low u j + base ^ j * win u j k"
  using value_low [of "j + k" u] low_win [of u j k] by simp

lemma low_mod: "low b k = big_value b mod base ^ k"
proof -
  have "big_value b = low b (k + len_big b)" by (rule low_len [symmetric]) simp
  then show ?thesis using low_less [of b k] by (simp add: low_win)
qed

lemma limb_zero: "big_value u < base ^ k \<Longrightarrow> k \<le> i \<Longrightarrow> limb u i = 0"
proof (rule ccontr)
  assume v: "big_value u < base ^ k" and i: "k \<le> i" and nz: "limb u i \<noteq> 0"
  have "base ^ k \<le> base ^ i" using i base_gt by (intro power_increasing) simp_all
  also have "\<dots> \<le> low u (Suc i)" using nz by (simp add: low_Suc trans_le_add2)
  also have "\<dots> \<le> big_value u" by (simp add: low_mod)
  finally show False using v by simp
qed

lemma win_lead:
  assumes "2 \<le> n"
  shows "win u j (Suc n) = lead2 u (j + n) * base ^ (n - 1) + win u j (n - 1)"
    "win u j (Suc n) = (lead2 u (j + n) * base + limb u (j + n - 2)) * base ^ (n - 2) + win u j (n - 2)"
    "win u j n = limb u (j + n - 1) * base ^ (n - 1) + win u j (n - 1)"
    "win u j n = lead2 u (j + n - 1) * base ^ (n - 2) + win u j (n - 2)"
proof -
  obtain k where "n = Suc (Suc k)" using assms by (metis add_2_eq_Suc le_Suc_ex)
  then show "win u j (Suc n) = lead2 u (j + n) * base ^ (n - 1) + win u j (n - 1)"
    "win u j (Suc n) = (lead2 u (j + n) * base + limb u (j + n - 2)) * base ^ (n - 2) + win u j (n - 2)"
    "win u j n = limb u (j + n - 1) * base ^ (n - 1) + win u j (n - 1)"
    "win u j n = lead2 u (j + n - 1) * base ^ (n - 2) + win u j (n - 2)"
    by (simp_all add: win_Suc algebra_simps)
qed

lemma lead_le:
  assumes "q * (w * p + vr) \<le> e * p + ur" "ur < (p :: nat)"
  shows "q * w \<le> e"
proof -
  have "q * w * p \<le> q * (w * p + vr)" by (simp add: algebra_simps)
  also have "\<dots> < Suc e * p" using assms by simp
  finally have "q * w < Suc e" by (simp only: mult_less_cancel2)
  then show ?thesis by simp
qed

lemma estimates_quotient:
  assumes n: "2 \<le> n" "len_big v = n" and u: "j + n < len_big u" and norm: "base \<le> 2 * limb v (n - 1)"
    and U: "win u j (Suc n) < big_value v * base"
  shows "estimates u v n j (win u j (Suc n) div big_value v)"
proof -
  let ?U = "win u j (Suc n)" and ?V = "big_value v"
  let ?q = "?U div ?V"
  have V: "?V = win v 0 n" using n by (simp add: big_value_def win_0)
  have q: "?q * ?V \<le> ?U" by simp
  have "?q * limb v (n - 1) \<le> lead2 u (j + n)"
    by (rule lead_le [OF _ win_less [of u j "n - 1"]])
      (use q in \<open>simp only: V win_lead(3) [OF n(1), of v 0] win_lead(1) [OF n(1)] add_0\<close>)
  moreover have "?q * lead2 v (n - 1) \<le> lead2 u (j + n) * base + limb u (j + n - 2)"
    by (rule lead_le [OF _ win_less [of u j "n - 2"]])
      (use q in \<open>simp only: V win_lead(4) [OF n(1), of v 0] win_lead(2) [OF n(1)] add_0\<close>)
  moreover have "lead2 u (j + n) < (limb v (n - 1) + 1) * base"
  proof -
    have "lead2 u (j + n) * base ^ (n - 1) \<le> ?U" by (simp only: win_lead(1) [OF n(1)] le_add1)
    also have "\<dots> < ?V * base" by (rule U)
    also have "\<dots> \<le> (limb v (n - 1) + 1) * base ^ (n - 1) * base"
      using win_less [of v 0 "n - 1"] by (intro mult_le_mono1) (simp add: V win_lead(3) [OF n(1), of v 0])
    also have "\<dots> = (limb v (n - 1) + 1) * base * base ^ (n - 1)" by (simp only: mult.assoc mult.commute [of base])
    finally show ?thesis by (simp only: mult_less_cancel2)
  qed
  moreover have "?q < base" using U by (simp add: less_mult_imp_div_less mult.commute)
  ultimately show ?thesis using n u norm by (simp add: estimates_def)
qed

lemma estimate_close:
  assumes n: "2 \<le> n" "len_big v = n" and norm: "base \<le> 2 * limb v (n - 1)"
    and qhat: "qhat < base" "qhat * lead2 v (n - 1) \<le> lead2 u (j + n) * base + limb u (j + n - 2)"
  shows "qhat * big_value v < win u j (Suc n) + big_value v"
proof -
  let ?p = "base ^ (n - 2)"
  have V: "big_value v = win v 0 n" using n by (simp add: big_value_def win_0)
  have "qhat * big_value v \<le> qhat * lead2 v (n - 1) * ?p + qhat * ?p"
    using win_less [of v 0 "n - 2"] by (simp add: V win_lead(4) [OF n(1), of v 0] algebra_simps)
  also have "\<dots> \<le> win u j (Suc n) + qhat * ?p"
    unfolding win_lead(2) [OF n(1)] using mult_le_mono1 [OF qhat(2), of ?p] by linarith
  also have "qhat * ?p < base * ?p" using qhat(1) by simp
  also have "base * ?p = base ^ (n - 1)" using n(1) by (metis Suc_diff_le diff_Suc_Suc numeral_2_eq_2 One_nat_def power_Suc)
  also have "\<dots> \<le> big_value v"
  proof -
    have "1 \<le> limb v (n - 1)" using norm base_gt by (auto intro!: Suc_leI gr0I)
    then show ?thesis by (simp add: V win_lead(3) [OF n(1), of v 0] trans_le_add1)
  qed
  finally show ?thesis by simp
qed

lemma those_map_Some: "(\<And>x. x \<in> set xs \<Longrightarrow> f x = Some (g x)) \<Longrightarrow> those (map f xs) = Some (map g xs)"
  by (induction xs) simp_all

lemma window_Some:
  assumes "j + n < len_big u"
  shows "\<exists>w. window u j n = Some w \<and> len_big w = Suc n \<and> big_value w = win u j (Suc n)"
proof -
  let ?ds = "map (\<lambda>i. digits u ! (len_big u - 1 - i)) (rev [j..<j + n + 1])"
  have "window u j n = Some \<lparr>digits = ?ds\<rparr>"
    unfolding window_def using assms by (subst those_map_Some [where g = "\<lambda>i. digits u ! (len_big u - 1 - i)"])
      (auto simp: get_limb_def)
  moreover have l: "len_big \<lparr>digits = ?ds\<rparr> = Suc n" by (simp add: len_big_def)
  moreover have "big_value \<lparr>digits = ?ds\<rparr> = win u j (Suc n)"
  proof -
    have "limb \<lparr>digits = ?ds\<rparr> i = limb u (j + i)" if "i < Suc n" for i
    proof -
      have "rev [j..<j + n + 1] ! (n - i) = j + i" using that by (subst rev_nth) (simp_all del: upt_Suc)
      then have "?ds ! (n - i) = digits u ! (len_big u - 1 - (j + i))" using that by (subst nth_map) simp_all
      then show ?thesis using that assms unfolding limb_def l by simp
    qed
    then show ?thesis unfolding big_value_def l low_def win_def by simp
  qed
  ultimately show ?thesis by blast
qed

lemma write_window_Some:
  assumes "j + n < len_big u" "n < len_big w"
  shows "\<exists>u'. write_window u j n w = Some u' \<and> len_big u' = len_big u \<and> win u' j (Suc n) = low w (Suc n) \<and>
    (\<forall>i. i < j \<or> j + n < i \<longrightarrow> limb u' i = limb u i)"
proof -
  define P where "P = (\<lambda>d u'. len_big u' = len_big u \<and>
    (\<forall>i. limb u' i = (if j \<le> i \<and> i < d then limb w (i - j) else limb u i)))"
  have "\<exists>u'. write_window u j n w = Some u' \<and> P (j + n + 1) u'"
    unfolding write_window_def
  proof (rule for_range)
    fix d u' assume d: "j \<le> d" "d < j + n + 1" and P: "P d u'"
    have "d - j < len_big w" using d assms by simp
    then obtain x where x: "get_limb w (d - j) = Some x" "unat x = limb w (d - j)" using get_limb_Some by metis
    have "d < len_big u'" using P d assms by (simp add: P_def)
    then obtain u'' where u'': "set_limb u' d x = Some u''" "len_big u'' = len_big u'"
      "\<And>k. limb u'' k = (if k = d then unat x else limb u' k)"
      using set_limb_Some by metis
    then have "P (Suc d) u''" using P d by (auto simp: P_def x)
    then show "\<exists>s'. (do { x \<leftarrow> get_limb w (d - j); set_limb u' d x }) = Some s' \<and> P (Suc d) s'"
      using x u'' by simp
  qed (simp_all add: P_def)
  then obtain u' where u': "write_window u j n w = Some u'" "P (j + n + 1) u'" by blast
  moreover have "win u' j (Suc n) = low w (Suc n)" using u'(2) by (simp add: P_def win_def low_def)
  ultimately show ?thesis by (auto simp: P_def)
qed

section \<open>One limb of the quotient\<close>

lemma add_back:
  assumes "V * Suc q \<le> U + (V :: nat)" "U < V * Suc q" "U < M" "V \<le> M"
  shows "(V + (U + base * M - V * Suc q) mod M) mod M = U - V * q"
proof -
  have b: "V \<le> base * M" using base_pos assms(4) by (metis One_nat_def Suc_leI le_trans mult_le_mono1 nat_mult_1)
  have "(V + (U + base * M - V * Suc q) mod M) mod M = (V + (U + base * M - V * Suc q)) mod M"
    by (simp add: mod_add_right_eq)
  also have "V + (U + base * M - V * Suc q) = (U - V * q) + base * M"
    using assms(1) b by simp
  also have "\<dots> mod M = U - V * q" using assms(3) by simp
  finally show ?thesis .
qed

lemma div_step_Some:
  assumes n: "2 \<le> n" "len_big v = n" and norm: "base \<le> 2 * limb v (n - 1)"
    and u: "j + n < len_big u" "win u j (Suc n) < big_value v * base" and q: "j < len_big q"
  shows "\<exists>u' q'. div_step v n j (u, q) = Some (u', q') \<and> len_big u' = len_big u \<and> len_big q' = len_big q \<and>
    win u' j (Suc n) = win u j (Suc n) mod big_value v \<and> (\<forall>i. i < j \<or> j + n < i \<longrightarrow> limb u' i = limb u i) \<and>
    (\<forall>i. limb q' i = (if i = j then win u j (Suc n) div big_value v else limb q i))"
proof -
  let ?U = "win u j (Suc n)" and ?V = "big_value v" and ?M = "base ^ Suc n"
  obtain qhat where qh: "estimate_qhat u v n j = Some qhat" "?U div ?V \<le> unat qhat" "unat qhat < base"
    "unat qhat * lead2 v (n - 1) \<le> lead2 u (j + n) * base + limb u (j + n - 2)"
    using estimate_qhat_Some [OF estimates_quotient [OF n u(1) norm u(2)]] by blast
  have close: "unat qhat * ?V < ?U + ?V" by (rule estimate_close [OF n norm qh(3,4)])
  have V: "?V < base ^ n" "0 < ?V" using big_value_less [of v] u(2) n(2) by (auto intro!: gr0I)
  have VM: "?V \<le> ?M" using V(1) base_gt by (simp add: less_le_trans less_imp_le)
  obtain lhs where lhs: "window u j n = Some lhs" "len_big lhs = Suc n" "big_value lhs = ?U"
    using window_Some [OF u(1)] by blast
  have f: "len_big (from_u64 qhat) = 2"
    by (cases "split_double qhat") (simp add: from_u64_def len_big_def)
  obtain rhs where rhs: "mul_big v (from_u64 qhat) = Some rhs" "len_big rhs = Suc (Suc n)" "big_value rhs = ?V * unat qhat"
    using mul_big_value [of v "from_u64 qhat"] f n by (auto simp: from_u64_value)
  have U: "?U < ?M" by (rule win_less)
  have qc: "unat (ucast qhat :: u32) = unat qhat" using qh(3) by (simp add: unat_down32)
  obtain q1 where q1: "set_limb q j (ucast qhat) = Some q1" "len_big q1 = len_big q"
    "\<And>i. limb q1 i = (if i = j then unat qhat else limb q i)"
    using set_limb_Some [OF q, of "ucast qhat"] qc by metis
  obtain sub where sub: "len_big sub = Suc (Suc n)"
    "if ?V * unat qhat \<le> ?U then sub_big lhs rhs = Some (Inr sub) \<and> big_value sub = ?U - ?V * unat qhat
     else sub_big lhs rhs = Some (Inl sub) \<and> big_value sub = ?U + base * ?M - ?V * unat qhat"
    using sub_big_value [of lhs rhs] lhs(2,3) rhs(2,3) by auto
  have "n < len_big sub" using sub(1) by simp
  then obtain u1 where u1: "write_window u j n sub = Some u1" "len_big u1 = len_big u"
    "win u1 j (Suc n) = low sub (Suc n)" "\<And>i. i < j \<or> j + n < i \<Longrightarrow> limb u1 i = limb u i"
    using write_window_Some [OF u(1)] by blast
  show ?thesis
  proof (cases "?V * unat qhat \<le> ?U")
    case True
    then have "unat qhat = ?U div ?V"
      using qh(2) V(2) by (simp add: le_antisym less_eq_div_iff_mult_less_eq mult.commute)
    moreover have "low sub (Suc n) = ?U - ?V * unat qhat" using sub(2) True U by (simp add: low_mod)
    ultimately show ?thesis
      using qh(1) lhs(1) rhs(1) sub(2) True u1 q1 by (simp add: div_step_def minus_mult_div_eq_mod)
  next
    case False
    have "?U < ?V * unat qhat" using False by simp
    then have "?U div ?V < unat qhat" using V(2) by (simp add: div_less_iff_less_mult mult.commute)
    moreover have "unat qhat - 1 \<le> ?U div ?V"
      using close V(2) by (cases "unat qhat") (simp_all add: less_eq_div_iff_mult_less_eq algebra_simps)
    ultimately have qs: "unat qhat = Suc (?U div ?V)" by linarith
    obtain x where x: "get_limb q1 j = Some x" "unat x = unat qhat"
      using get_limb_Some [of j q1] q q1(2,3) by auto
    have "1 \<le> x" using x(2) qs by (simp add: word_le_nat_alt)
    then have x1: "unat (x - 1) = ?U div ?V" using x(2) qs by (simp add: unat_sub)
    obtain q2 where q2: "set_limb q1 j (x - 1) = Some q2" "len_big q2 = len_big q1"
      "\<And>i. limb q2 i = (if i = j then ?U div ?V else limb q1 i)"
      using set_limb_Some [of j q1 "x - 1"] q q1(2) x1 by metis
    have "j + n < len_big u1" using u(1) u1(2) by simp
    then obtain w where w: "window u1 j n = Some w" "len_big w = Suc n" "big_value w = win u1 j (Suc n)"
      using window_Some by blast
    obtain r where r: "add_big v w = Some r" "len_big r = Suc (Suc n)" "big_value r = ?V + big_value w"
      using add_big_value [of v w] n w(2) by auto
    have "n < len_big r" using r(2) by simp
    then obtain u2 where u2: "write_window u1 j n r = Some u2" "len_big u2 = len_big u1"
      "win u2 j (Suc n) = low r (Suc n)" "\<And>i. i < j \<or> j + n < i \<Longrightarrow> limb u2 i = limb u1 i"
      using write_window_Some [OF \<open>j + n < len_big u1\<close>] by blast
    have "win u2 j (Suc n) = (?V + (?U + base * ?M - ?V * unat qhat) mod ?M) mod ?M"
      using sub(2) False by (simp only: u2(3) low_mod r(3) w(3) u1(3) if_False)
    also have "\<dots> = ?U - ?V * (?U div ?V)"
      unfolding qs by (rule add_back) (use close False U VM qs in \<open>simp_all add: mult.commute\<close>)
    finally have "win u2 j (Suc n) = ?U mod ?V" by (simp add: minus_mult_div_eq_mod)
    then show ?thesis
      using qh(1) lhs(1) rhs(1) sub(2) False u1 q1 x(1) q2 w(1) r(1) u2 by (simp add: div_step_def)
  qed
qed

section \<open>The loop over the limbs of the quotient\<close>

lemma div_loop_Some:
  assumes n: "2 \<le> n" "len_big v = n" and norm: "base \<le> 2 * limb v (n - 1)"
    and u: "len_big u = n + m + 1" "big_value u < big_value v * base ^ Suc m"
  shows "\<exists>u' q. for_each (div_step v n) (rev [0..<m + 1]) (u, with_capacity (m + 1)) = Some (u', q) \<and>
    len_big u' = n + m + 1 \<and> big_value q = big_value u div big_value v \<and> big_value u' = big_value u mod big_value v"
proof -
  let ?V = "big_value v"
  define P where "P = (\<lambda>j (u', q). len_big u' = n + m + 1 \<and> len_big q = m + 1 \<and> (\<forall>i \<ge> n + j. limb u' i = 0) \<and>
    big_value u' < ?V * base ^ j \<and> big_value u = big_value u' + ?V * above q j)"
  have V: "?V < base ^ n" using big_value_less [of v] n(2) by simp
  have init: "P (m + 1) (u, with_capacity (m + 1))"
    using u by (simp add: P_def limb_def above_def)
  have "\<exists>s. for_each (div_step v n) (rev [0..<m + 1]) (u, with_capacity (m + 1)) = Some s \<and> P 0 s"
    using init
  proof (rule for_down)
    fix j s assume j: "j < m + 1" and "P (Suc j) s"
    then obtain w q where s: "s = (w, q)" and P: "len_big w = n + m + 1" "len_big q = m + 1"
      "\<And>i. n + Suc j \<le> i \<Longrightarrow> limb w i = 0" "big_value w < ?V * base ^ Suc j"
      "big_value u = big_value w + ?V * above q (Suc j)" by (auto simp: P_def)
    let ?U = "win w j (Suc n)"
    have w: "big_value w = low w j + base ^ j * ?U" by (rule value_win) (use P(3) in simp)
    then have "base ^ j * ?U \<le> big_value w" by simp
    also have "\<dots> < base ^ j * (?V * base)" using P(4) by (simp add: mult.commute mult.left_commute)
    finally have U: "?U < ?V * base" by (simp only: mult_less_cancel1)
    have "j + n < len_big w" "j < len_big q" using j P(1,2) by simp_all
    then obtain w' q' where st: "div_step v n j (w, q) = Some (w', q')" "len_big w' = len_big w" "len_big q' = len_big q"
      "win w' j (Suc n) = ?U mod ?V" "\<And>i. i < j \<or> j + n < i \<Longrightarrow> limb w' i = limb w i"
      "\<And>i. limb q' i = (if i = j then ?U div ?V else limb q i)"
      using div_step_Some [OF n norm _ U] by blast
    have w': "big_value w' = low w j + base ^ j * (?U mod ?V)"
    proof -
      have "low w' j = low w j" by (rule low_cong) (simp add: st(5))
      moreover have "limb w' i = 0" if "j + Suc n \<le> i" for i using that st(5) [of i] P(3) [of i] by simp
      ultimately show ?thesis using value_win [of j "Suc n" w'] st(4) by simp
    qed
    have "0 < ?V" using U by (cases ?V) simp_all
    then have "?U mod ?V + 1 \<le> ?V" by (simp add: Suc_leI)
    then have "base ^ j * (?U mod ?V + 1) \<le> base ^ j * ?V" by (rule mult_le_mono2)
    then have less: "big_value w' < ?V * base ^ j"
      using low_less [of w j] unfolding w' by (simp add: algebra_simps)
    also have "\<dots> \<le> base ^ n * base ^ j" using V by (intro mult_le_mono1) simp
    finally have zero: "limb w' i = 0" if "n + j \<le> i" for i
      using that limb_zero [of w' "n + j" i] by (simp add: power_add)
    have "above q' j = (?U div ?V) * base ^ j + above q (Suc j)"
      using above_step [of j q'] above_cong [OF st(3), of "Suc j"] st(3,6) P(2) j by simp
    then have "big_value w' + ?V * above q' j = low w j + base ^ j * (?V * (?U div ?V) + ?U mod ?V) + ?V * above q (Suc j)"
      unfolding w' by (simp only: algebra_simps)
    then have "big_value u = big_value w' + ?V * above q' j" using P(5) w by simp
    then show "\<exists>s'. div_step v n j s = Some s' \<and> P j s'" using st(1-3) P(1,2) zero less by (simp add: s P_def)
  qed
  then obtain u' q where r: "for_each (div_step v n) (rev [0..<m + 1]) (u, with_capacity (m + 1)) = Some (u', q)"
    "len_big u' = n + m + 1" "big_value u' < ?V" "big_value u = big_value u' + ?V * big_value q"
    by (auto simp: P_def above_0)
  then have "big_value q = big_value u div ?V" "big_value u' = big_value u mod ?V" by simp_all
  then show ?thesis using r(1,2) by blast
qed

section \<open>Normalisation\<close>

lemma zeros_from_lower:
  assumes "unat (x :: 'w::len word) < 2 ^ k" "x \<noteq> 0" "k \<le> LENGTH('w)"
  shows "zeros_from k x < k \<and> 2 ^ (k - 1 - zeros_from k x) \<le> unat x"
  using assms
proof (induction k)
  case (Suc k)
  show ?case
  proof (cases "bit x k")
    case True
    have "2 ^ k \<le> unat x"
    proof (rule ccontr)
      assume "\<not> 2 ^ k \<le> unat x"
      then have "drop_bit k x = 0" by (simp only: word_unat_eq_iff unat_drop_bit) simp
      moreover have "bit (drop_bit k x) 0" using True by (simp add: bit_drop_bit_eq)
      ultimately show False by simp
    qed
    with True show ?thesis by simp
  next
    case False
    then have "unat x < 2 ^ k" using top_bit_clear Suc.prems(1) by blast
    then have "zeros_from k x < k" "2 ^ (k - 1 - zeros_from k x) \<le> unat x"
      using Suc.IH Suc.prems by simp_all
    then show ?thesis using False by (simp add: Suc_diff_Suc)
  qed
qed (simp add: unat_eq_zero)

lemma unat_two_power: "k < 32 \<Longrightarrow> unat ((2 :: u32) ^ k) = 2 ^ k"
proof -
  assume "k < 32"
  then have "(2 :: nat) ^ k < 2 ^ 32" by (intro power_strict_increasing) simp_all
  then have "unat (of_nat (2 ^ k) :: u32) = 2 ^ k" by (subst unat_of_nat) simp
  then show ?thesis by simp
qed

lemma normalizer:
  fixes x :: u32
  assumes "x \<noteq> 0"
  defines "nb \<equiv> leading_zeros x"
  shows "nb < 32" "unat ((2 :: u32) ^ nb) = 2 ^ nb" "(unat x + 1) * 2 ^ nb \<le> base" "base \<le> 2 * (unat x * 2 ^ nb)"
proof -
  have x: "unat x < 2 ^ 32" using unat_less_power [of x] by simp
  have b: "nb < 32" "2 ^ (31 - nb) \<le> unat x"
    using zeros_from_lower [OF x assms(1)] by (simp_all add: nb_def leading_zeros_def)
  show "nb < 32" by (rule b)
  show "unat ((2 :: u32) ^ nb) = 2 ^ nb" using b(1) by (rule unat_two_power)
  have "unat x < 2 ^ (32 - nb)" using zeros_from_bound [OF x] by (simp add: nb_def leading_zeros_def)
  then have "(unat x + 1) * 2 ^ nb \<le> 2 ^ (32 - nb) * 2 ^ nb" by (intro mult_le_mono1) simp
  also have "\<dots> = base" using b(1) by (simp only: base_def power_add [symmetric]) simp
  finally show "(unat x + 1) * 2 ^ nb \<le> base" .
  have "base = 2 * (2 ^ (31 - nb) * 2 ^ nb)" using b(1) by (simp only: base_def power_add [symmetric] power_Suc [symmetric]) simp
  also have "\<dots> \<le> 2 * (unat x * 2 ^ nb)" using b(2) by simp
  finally show "base \<le> 2 * (unat x * 2 ^ nb)" .
qed

lemma unat_funnel:
  fixes x y :: u32
  assumes "0 < nb" "nb < 32"
  shows "unat (drop_bit nb x OR push_bit (32 - nb) y) * 2 ^ nb + unat x mod 2 ^ nb = unat x + (unat y mod 2 ^ nb) * base"
proof -
  let ?a = "drop_bit nb x" and ?b = "push_bit (32 - nb) y"
  have "?a AND ?b = 0"
    by (rule bit_eqI) (use assms in \<open>auto simp: bit_simps not_le dest!: bit_imp_le_length\<close>)
  then have or: "?a OR ?b = ?a + ?b" by (simp add: disjunctive_add_eq_or)
  have p: "(2 :: nat) ^ (32 - nb) * 2 ^ nb = base" using assms by (simp only: base_def power_add [symmetric]) simp
  have b: "unat ?b = (unat y mod 2 ^ nb) * 2 ^ (32 - nb)"
  proof -
    have "unat ?b = (2 ^ (32 - nb) * unat y) mod (2 ^ (32 - nb) * 2 ^ nb)"
      unfolding p base_def using unat_two_power [of "32 - nb"] assms
      by (simp add: push_bit_eq_mult unat_word_ariths mult.commute)
    then have "unat ?b = 2 ^ (32 - nb) * (unat y mod 2 ^ nb)" by (simp only: mult_mod_right)
    then show ?thesis by (simp only: mult.commute)
  qed
  have a: "unat ?a = unat x div 2 ^ nb" by (rule unat_drop_bit)
  have "unat x div 2 ^ nb < 2 ^ (32 - nb)"
    using u32_less [of x] by (simp add: less_mult_imp_div_less p)
  moreover have "unat y mod 2 ^ nb + 1 \<le> 2 ^ nb" by (simp add: Suc_leI)
  then have "(unat y mod 2 ^ nb + 1) * 2 ^ (32 - nb) \<le> 2 ^ nb * 2 ^ (32 - nb)" by (rule mult_le_mono1)
  ultimately have "unat ?a + unat ?b < base" using p unfolding a b by (simp add: algebra_simps)
  then have "unat (?a + ?b) = unat ?a + unat ?b" using unat_add_lem [of ?a ?b] by (simp add: base_def)
  then have "unat (?a OR ?b) * 2 ^ nb = unat x div 2 ^ nb * 2 ^ nb + (unat y mod 2 ^ nb) * base"
    unfolding or a b p [symmetric] by (simp add: algebra_simps)
  then show ?thesis using div_mult_mod_eq [of "unat x" "2 ^ nb"] by linarith
qed

lemma unnormalize_Some:
  assumes n: "0 < n" "n \<le> len_big u" "len_big r = n" and u: "\<And>i. n \<le> i \<Longrightarrow> limb u i = 0"
    and nb: "0 < nb" "nb < 32"
  shows "\<exists>r'. unnormalize u n nb r = Some r' \<and> len_big r' = n \<and> big_value r' = big_value u div 2 ^ nb"
proof -
  define P where "P = (\<lambda>d r. len_big r = n \<and>
    low r d * 2 ^ nb + limb u 0 mod 2 ^ nb = low u d + (limb u d mod 2 ^ nb) * base ^ d)"
  have "\<exists>r'. for_each (unnormalize_step u nb) [0..<n - 1] r = Some r' \<and> P (n - 1) r'"
  proof (rule for_up)
    fix d r assume d: "d < n - 1" and P: "P d r"
    have "d < len_big u" "d + 1 < len_big u" "d < len_big r" using d n(2) P by (simp_all add: P_def)
    then obtain x y where g: "get_limb u d = Some x" "unat x = limb u d" "get_limb u (d + 1) = Some y"
      "unat y = limb u (d + 1)" using get_limb_Some by metis
    let ?z = "drop_bit nb x OR push_bit (32 - nb) y"
    obtain r' where r': "set_limb r d ?z = Some r'" "len_big r' = len_big r"
      "\<And>k. limb r' k = (if k = d then unat ?z else limb r k)"
      using set_limb_Some [OF \<open>d < len_big r\<close>, of ?z] by metis
    have "low r' d = low r d" by (rule low_cong) (simp add: r'(3))
    moreover have "unat ?z * 2 ^ nb * base ^ d + (limb u d mod 2 ^ nb) * base ^ d =
        limb u d * base ^ d + (limb u (d + 1) mod 2 ^ nb) * base * base ^ d"
      using unat_funnel [OF nb, of x y] unfolding g by (metis add_mult_distrib)
    ultimately have "P (Suc d) r'"
      using P r'(2,3) by (simp add: P_def low_Suc algebra_simps)
    then show "\<exists>s'. unnormalize_step u nb d r = Some s' \<and> P (Suc d) s'"
      using r'(1) by (simp add: unnormalize_step_def g g(3) [simplified])
  qed (simp add: P_def n)
  then obtain r1 where r1: "for_each (unnormalize_step u nb) [0..<n - 1] r = Some r1" "P (n - 1) r1" by blast
  have idx: "n - 1 < len_big u" "n - 1 < len_big r1" using n r1(2) by (simp_all add: P_def)
  obtain x where x: "get_limb u (n - 1) = Some x" "unat x = limb u (n - 1)" using get_limb_Some [OF idx(1)] by metis
  obtain r2 where r2: "set_limb r1 (n - 1) (drop_bit nb x) = Some r2" "len_big r2 = len_big r1"
    "\<And>k. limb r2 k = (if k = n - 1 then unat (drop_bit nb x) else limb r1 k)"
    using set_limb_Some [OF idx(2), of "drop_bit nb x"] by metis
  have "low r2 (n - 1) = low r1 (n - 1)" by (rule low_cong) (simp add: r2(3))
  moreover have "limb r2 (n - 1) * 2 ^ nb + limb u (n - 1) mod 2 ^ nb = limb u (n - 1)"
    by (simp only: r2(3) unat_drop_bit x(2) refl if_True div_mult_mod_eq)
  then have "limb r2 (n - 1) * base ^ (n - 1) * 2 ^ nb + limb u (n - 1) mod 2 ^ nb * base ^ (n - 1) =
      limb u (n - 1) * base ^ (n - 1)"
    by (metis add_mult_distrib mult.assoc mult.commute)
  ultimately have "low r2 (Suc (n - 1)) * 2 ^ nb + limb u 0 mod 2 ^ nb = low u (Suc (n - 1))"
    using r1(2) by (simp add: P_def low_Suc algebra_simps)
  then have "low r2 n * 2 ^ nb + limb u 0 mod 2 ^ nb = low u n" using n(1) by simp
  moreover have "low u n = big_value u" using value_low [of n u] u by simp
  moreover have "low r2 n = big_value r2" using r2(2) r1(2) by (simp add: P_def big_value_def)
  ultimately have "big_value u = big_value r2 * 2 ^ nb + limb u 0 mod 2 ^ nb" by simp
  then have "big_value r2 = big_value u div 2 ^ nb" by simp
  then show ?thesis
    using r1 r2 x(1) by (simp add: unnormalize_def P_def x(1) [simplified] r2(1) [simplified])
qed

section \<open>Division\<close>

lemma stripped_bounds:
  assumes "digits b = d # ds"
  shows "unat d * base ^ (len_big b - 1) \<le> big_value b" "big_value b < (unat d + 1) * base ^ (len_big b - 1)"
proof -
  have b: "b = \<lparr>digits = d # ds\<rparr>" using assms by (cases b) simp
  then show "unat d * base ^ (len_big b - 1) \<le> big_value b" "big_value b < (unat d + 1) * base ^ (len_big b - 1)"
    using bv_less [of ds] by (simp_all add: bv_Cons len_big_def)
qed

lemma from_u32_value: "big_value (from_u32 a) = unat a" "len_big (from_u32 a) = 1"
  using bv_Cons [of a "[]"] by (simp_all add: from_u32_def len_big_def)

text \<open>The normalised divisor: as many limbs as the divisor, the highest bit set.\<close>

lemma normalized_divisor:
  assumes o: "digits b = d # ds" "d \<noteq> 0" "2 \<le> len_big b" and v: "big_value v = big_value b * 2 ^ leading_zeros d"
    "digits v \<noteq> []"
  defines "n \<equiv> len_big b"
  shows "len_big (lstrip v) = n" "base \<le> 2 * limb (lstrip v) (n - 1)"
    "base ^ n \<le> 2 * big_value v"
proof -
  let ?k = "2 ^ leading_zeros d :: nat" and ?w = "lstrip v"
  note nz = normalizer [OF o(2)]
  have n: "n = Suc (n - 1)" "0 < n" using o(3) by (simp_all add: n_def)
  have bn: "base ^ n = base * base ^ (n - 1)" using n(1) by (metis power_Suc)
  have w: "big_value ?w = big_value v" by (rule lstrip_value)
  have "big_value b * ?k < (unat d + 1) * base ^ (n - 1) * ?k"
    using stripped_bounds(2) [OF o(1)] unfolding n_def [symmetric] by (intro mult_strict_right_mono) simp_all
  then have "big_value v < (unat d + 1) * ?k * base ^ (n - 1)"
    unfolding v(1) by (simp only: ac_simps)
  also have "\<dots> \<le> base * base ^ (n - 1)" using nz(3) by (intro mult_le_mono1)
  finally have up: "big_value v < base ^ n" unfolding bn .
  have "base * base ^ (n - 1) \<le> 2 * (unat d * ?k) * base ^ (n - 1)" using nz(4) by (intro mult_le_mono1)
  also have "\<dots> = 2 * (unat d * base ^ (n - 1) * ?k)" by simp
  also have "\<dots> \<le> 2 * (big_value b * ?k)" using stripped_bounds(1) [OF o(1)] by (simp add: n_def)
  finally have lo: "base ^ n \<le> 2 * big_value v" unfolding bn v(1) .
  show "base ^ n \<le> 2 * big_value v" by (rule lo)
  have "2 * base ^ (n - 1) \<le> base * base ^ (n - 1)" using base_gt by (intro mult_le_mono1) simp
  then have "\<not> big_value v < base ^ (n - 1)" using lo bn by linarith
  then have "\<not> len_big ?w \<le> n - 1" using lstrip_len [OF v(2)] by blast
  moreover have "len_big ?w \<le> n" using lstrip_len [OF v(2)] up n(2) by blast
  ultimately show l: "len_big ?w = n" by linarith
  have "big_value ?w = low ?w (n - 1) + limb ?w (n - 1) * base ^ (n - 1)"
    using n(1) l low_Suc [of ?w "n - 1"] by (simp add: big_value_def)
  then have "base ^ n < 2 * (limb ?w (n - 1) + 1) * base ^ (n - 1)"
    using lo w low_less [of ?w "n - 1"] by (simp add: algebra_simps)
  then have "base * base ^ (n - 1) < 2 * (limb ?w (n - 1) + 1) * base ^ (n - 1)" unfolding bn .
  then have "base < 2 * (limb ?w (n - 1) + 1)" by (simp only: mult_less_cancel2)
  moreover have "even base" by (simp add: base_def)
  ultimately show "base \<le> 2 * limb ?w (n - 1)" by presburger
qed

theorem div_big_value:
  assumes "len_big a = 0 \<longrightarrow> len_big b \<le> 1 \<or> msb b = Some 0"
  shows "if len_big b \<le> 1 \<or> msb b = Some 0 \<or> msb a = Some 0 \<or> len_big a \<le> len_big b then div_big a b rem = Some None
    else \<exists>q r. div_big a b rem = Some (Some (q, r)) \<and> big_value q = big_value a div big_value b \<and>
      big_value r = (if rem then big_value a mod big_value b else 0)"
proof (cases "len_big b \<le> 1 \<or> msb b = Some 0 \<or> msb a = Some 0 \<or> len_big a \<le> len_big b")
  case True
  have "digits b = [] \<Longrightarrow> len_big b \<le> 1" by (simp add: len_big_def)
  then show ?thesis using True assms
    by (cases "digits a"; cases "digits b") (auto simp: div_big_def msb_def len_big_def)
next
  case False
  then obtain d ds e es where a: "digits a = e # es" "e \<noteq> 0" and b: "digits b = d # ds" "d \<noteq> 0"
    by (cases "digits a"; cases "digits b") (auto simp: msb_def len_big_def)
  define n m nb where "n = len_big b" and "m = len_big a - n" and "nb = leading_zeros d"
  have n: "2 \<le> n" "len_big a = n + m" "0 < m" using False by (auto simp: n_def m_def)
  note nz = normalizer [OF b(2), folded nb_def]
  obtain u where u: "mul_big a (from_u32 (2 ^ nb)) = Some u" "len_big u = n + m + 1" "big_value u = big_value a * 2 ^ nb"
    using mul_big_value [of a "from_u32 (2 ^ nb)"] n by (auto simp: from_u32_value nz(2))
  obtain v where v: "mul_big b (from_u32 (2 ^ nb)) = Some v" "len_big v = n + 1" "big_value v = big_value b * 2 ^ nb"
    using mul_big_value [of b "from_u32 (2 ^ nb)"] by (auto simp: from_u32_value nz(2) n_def)
  let ?w = "lstrip v"
  have vne: "digits v \<noteq> []" using v(2) by (auto simp: len_big_def)
  have w: "len_big ?w = n" "base \<le> 2 * limb ?w (n - 1)" "base ^ n \<le> 2 * big_value v" "big_value ?w = big_value b * 2 ^ nb"
    using normalized_divisor [OF b n(1) [unfolded n_def] v(3) [unfolded nb_def] vne] v(3) by (simp_all add: n_def lstrip_value)
  have "2 \<le> unat d + 1" using b(2) by (simp add: Suc_leI unat_gt_0)
  then have "2 * 2 ^ nb \<le> (unat d + 1) * 2 ^ nb" by (rule mult_le_mono1)
  also note nz(3)
  finally have "big_value a * (2 * 2 ^ nb) < base ^ (n + m) * base"
    using big_value_less [of a] n(2) by (intro mult_less_le_imp_less) simp_all
  also have "\<dots> = base ^ n * base ^ Suc m" by (simp add: power_add)
  also have "\<dots> \<le> 2 * big_value v * base ^ Suc m" using w(3) by (intro mult_le_mono1)
  finally have "big_value u < big_value ?w * base ^ Suc m" using u(3) v(3) w(4) by simp
  then obtain u' q where l: "for_each (div_step ?w n) (rev [0..<m + 1]) (u, with_capacity (m + 1)) = Some (u', q)"
    "len_big u' = n + m + 1" "big_value q = big_value u div big_value ?w" "big_value u' = big_value u mod big_value ?w"
    using div_loop_Some [OF n(1) w(1,2) u(2)] by blast
  have q: "big_value q = big_value a div big_value b" using l(3) u(3) w(4) by simp
  have u': "big_value u' = big_value a mod big_value b * 2 ^ nb" using l(4) u(3) w(4) by (simp add: mult_mod_left)
  define res where "res = (if rem then if 0 < nb then unnormalize u' n nb (with_capacity n) else Some u'
    else Some (with_capacity n))"
  have "\<exists>r. res = Some r \<and> big_value r = (if rem then big_value a mod big_value b else 0)"
  proof (cases "rem \<and> 0 < nb")
    case True
    have "0 < big_value ?w" using w(3,4) v(3) zero_less_power [OF base_pos, of n] by linarith
    then have "big_value u' < big_value ?w" using l(4) by simp
    also have "\<dots> < base ^ n" using big_value_less [of ?w] w(1) by simp
    finally have "limb u' i = 0" if "n \<le> i" for i using that limb_zero by blast
    then show ?thesis
      using unnormalize_Some [of n u' "with_capacity n" nb] True n(1) l(2) nz(1) u' by (auto simp: res_def)
  next
    case False
    have "big_value (with_capacity n) = 0" by (simp add: big_value_def low_def)
    then show ?thesis using False u' by (auto simp: res_def)
  qed
  then obtain r where r: "res = Some r" "big_value r = (if rem then big_value a mod big_value b else 0)" by blast
  have "div_big a b rem = Some (Some (q, r))"
    using False a b u(1,2) v(1) l(1) r(1)
    by (simp add: div_big_def msb_def n_def [symmetric] nb_def [symmetric] m_def [symmetric] lpad_def res_def Let_def
        del: upt_Suc)
  then show ?thesis using False q r(2) by simp
qed

section \<open>Property\<close>

text \<open>
  C36. Long division is exact. For a number with at least one limb, \<open>div\<close> returns nothing exactly
  when the divisor has fewer than two limbs, an operand has a leading zero, or the number is not
  longer than the divisor; otherwise it terminates without panicking and returns the quotient of
  the values, and their remainder when it is asked for.
\<close>

theorem knuth_division_exact:
  assumes "digits a \<noteq> []"
  shows "if len_big b \<le> 1 \<or> msb b = Some 0 \<or> msb a = Some 0 \<or> len_big a \<le> len_big b
    then div_big a b rem = Some None
    else \<exists>q r. div_big a b rem = Some (Some (q, r)) \<and> big_value q = big_value a div big_value b \<and>
      big_value r = (if rem then big_value a mod big_value b else 0)"
  using assms by (intro div_big_value) (simp add: len_big_def)

theorem knuth_division_exact_witness:
  "\<exists>q r. div_big \<lparr>digits = [7, 0, 5]\<rparr> \<lparr>digits = [3, 1]\<rparr> True = Some (Some (q, r)) \<and>
    big_value q = big_value \<lparr>digits = [7, 0, 5]\<rparr> div big_value \<lparr>digits = [3, 1]\<rparr> \<and>
    big_value r = big_value \<lparr>digits = [7, 0, 5]\<rparr> mod big_value \<lparr>digits = [3, 1]\<rparr>"
  using knuth_division_exact [of "\<lparr>digits = [7, 0, 5]\<rparr>" "\<lparr>digits = [3, 1]\<rparr>" True]
  by (simp add: len_big_def msb_def)

end
