(* ===== verification/Rational.thy ===== *)
theory Rational
  imports BigUint_Div Per_Things
begin

text \<open>
  Rational numbers (\<open>primitives/arithmetic/src/rational.rs\<close>): \<open>Rational128\<close>, a pair of 128-bit
  integers whose sums are taken over the least common denominator, and \<open>RationalInfinite\<close>, a pair of
  big numbers. Comparison multiplies crosswise in big numbers.

  The results relate both types to fractions of natural numbers.
\<close>

section \<open>Fractions of 128-bit integers\<close>

record rational128 =
  r_n :: u128
  r_d :: u128

definition rational_zero :: rational128 where
  "rational_zero = \<lparr>r_n = 0, r_d = 1\<rparr>"

definition rational_one :: rational128 where
  "rational_one = \<lparr>r_n = 1, r_d = 1\<rparr>"

definition rational_is_zero :: "rational128 \<Rightarrow> bool" where
  "rational_is_zero self \<longleftrightarrow> r_n self = 0"

definition rational_from :: "u128 \<Rightarrow> u128 \<Rightarrow> rational128" where
  "rational_from n d = \<lparr>r_n = n, r_d = max d 1\<rparr>"

definition from_unchecked :: "u128 \<Rightarrow> u128 \<Rightarrow> rational128" where
  "from_unchecked n d = \<lparr>r_n = n, r_d = d\<rparr>"

definition to_den :: "rational128 \<Rightarrow> u128 \<Rightarrow> rational128 option" where
  "to_den self den =
     (if den = r_d self then Some self
      else map_option (\<lambda>n. \<lparr>r_n = n, r_d = den\<rparr>)
        (multiply_by_rational_with_rounding (r_n self) den (r_d self) NearestPrefDown))"

definition rational_lcm :: "rational128 \<Rightarrow> rational128 \<Rightarrow> u128 option" where
  "rational_lcm self other =
     (if r_d self = r_d other then Some (r_d self)
      else
        let g = gcd_u128 (r_d self) (r_d other)
        in multiply_by_rational_with_rounding (r_d self) (r_d other) g NearestPrefDown)"

definition lazy_saturating_add :: "rational128 \<Rightarrow> rational128 \<Rightarrow> rational128" where
  "lazy_saturating_add self other =
     (if rational_is_zero other then self
      else \<lparr>r_n = saturating_add (r_n self) (r_n other), r_d = r_d self\<rparr>)"

definition lazy_saturating_sub :: "rational128 \<Rightarrow> rational128 \<Rightarrow> rational128" where
  "lazy_saturating_sub self other =
     (if rational_is_zero other then self
      else \<lparr>r_n = saturating_sub (r_n self) (r_n other), r_d = r_d self\<rparr>)"

definition rational_checked_add :: "rational128 \<Rightarrow> rational128 \<Rightarrow> string + rational128" where
  "rational_checked_add self other =
     (case rational_lcm self other of
        None \<Rightarrow> Inl ''failed to scale to denominator''
      | Some common \<Rightarrow>
          (case (to_den self common, to_den other common) of
             (Some self_scaled, Some other_scaled) \<Rightarrow>
               (case checked_add (r_n self_scaled) (r_n other_scaled) of
                  None \<Rightarrow> Inl ''overflow while adding numerators''
                | Some n \<Rightarrow> Inr \<lparr>r_n = n, r_d = r_d self_scaled\<rparr>)
           | _ \<Rightarrow> Inl ''failed to scale to denominator''))"

definition rational_checked_sub :: "rational128 \<Rightarrow> rational128 \<Rightarrow> string + rational128" where
  "rational_checked_sub self other =
     (case rational_lcm self other of
        None \<Rightarrow> Inl ''failed to scale to denominator''
      | Some common \<Rightarrow>
          (case (to_den self common, to_den other common) of
             (Some self_scaled, Some other_scaled) \<Rightarrow>
               (case checked_sub (r_n self_scaled) (r_n other_scaled) of
                  None \<Rightarrow> Inl ''overflow while subtracting numerators''
                | Some n \<Rightarrow> Inr \<lparr>r_n = n, r_d = r_d self_scaled\<rparr>)
           | _ \<Rightarrow> Inl ''failed to scale to denominator''))"

text \<open>Comparisons multiply big numbers, so they are in the monad of panics.\<close>

definition rational_cmp :: "rational128 \<Rightarrow> rational128 \<Rightarrow> ordering option" where
  "rational_cmp self other =
     (if r_d self = r_d other then Some (cmp (r_n self) (r_n other))
      else if r_d self = 0 then Some Greater
      else if r_d other = 0 then Some Less
      else do {
        self_n \<leftarrow> mul_big (to_big_uint (r_n self)) (to_big_uint (r_d other));
        other_n \<leftarrow> mul_big (to_big_uint (r_n other)) (to_big_uint (r_d self));
        Some (cmp_big self_n other_n)
      })"

definition rational_eq :: "rational128 \<Rightarrow> rational128 \<Rightarrow> bool option" where
  "rational_eq self other =
     (if r_d self = r_d other then Some (r_n self = r_n other)
      else do {
        self_n \<leftarrow> mul_big (to_big_uint (r_n self)) (to_big_uint (r_d other));
        other_n \<leftarrow> mul_big (to_big_uint (r_n other)) (to_big_uint (r_d self));
        Some (eq_big self_n other_n)
      })"

section \<open>Fractions of big numbers\<close>

record rational_infinite =
  i_n :: biguint
  i_d :: biguint

definition infinite_zero :: rational_infinite where
  "infinite_zero = \<lparr>i_n = zero_big, i_d = one_big\<rparr>"

definition infinite_one :: rational_infinite where
  "infinite_one = \<lparr>i_n = one_big, i_d = one_big\<rparr>"

text \<open>\<open>Ord::max\<close> returns its second argument unless the first is greater.\<close>

definition max_big :: "biguint \<Rightarrow> biguint \<Rightarrow> biguint" where
  "max_big a b = (if cmp_big a b = Greater then a else b)"

definition infinite_from :: "biguint \<Rightarrow> biguint \<Rightarrow> rational_infinite" where
  "infinite_from n d = \<lparr>i_n = n, i_d = max_big d one_big\<rparr>"

definition infinite_of_rational :: "rational128 \<Rightarrow> rational_infinite" where
  "infinite_of_rational t = \<lparr>i_n = to_big_uint (r_n t), i_d = to_big_uint (r_d t)\<rparr>"

definition infinite_cmp :: "rational_infinite \<Rightarrow> rational_infinite \<Rightarrow> ordering option" where
  "infinite_cmp self other =
     (if eq_big (i_d self) (i_d other) then Some (cmp_big (i_n self) (i_n other))
      else if is_zero_big (i_d self) then Some Greater
      else if is_zero_big (i_d other) then Some Less
      else do {
        self_n \<leftarrow> mul_big (i_n self) (i_d other);
        other_n \<leftarrow> mul_big (i_n other) (i_d self);
        Some (cmp_big self_n other_n)
      })"

definition infinite_eq :: "rational_infinite \<Rightarrow> rational_infinite \<Rightarrow> bool option" where
  "infinite_eq self other = map_option (\<lambda>c. c = Equal) (infinite_cmp self other)"

section \<open>Scaling\<close>

lemma round_div_dvd: "0 < d \<Longrightarrow> d dvd n \<Longrightarrow> round_div r n d = n div d"
  by (cases r) (auto simp: round_div_def)

lemma multiply_exact:
  assumes "c \<noteq> 0" "unat c dvd unat a * unat b"
  shows "multiply_by_rational_with_rounding a b c r =
    (if unat a * unat b div unat c < 2 ^ 128 then Some (of_nat (unat a * unat b div unat c)) else None)"
  using assms by (simp add: multiply_by_rational_eq round_div_dvd unat_gt_0)

lemma rational_lcm_eq:
  assumes "r_d a \<noteq> 0" "r_d b \<noteq> 0"
  shows "rational_lcm a b =
    (let l = lcm (unat (r_d a)) (unat (r_d b)) in if l < 2 ^ 128 then Some (of_nat l) else None)"
proof (cases "r_d a = r_d b")
  case True
  then show ?thesis using unat_less_power [of "r_d b"] by (simp add: rational_lcm_def)
next
  case False
  let ?g = "gcd_u128 (r_d a) (r_d b)"
  have g: "unat ?g = gcd (unat (r_d a)) (unat (r_d b))" by (rule gcd_u128_correct)
  then have "unat ?g \<noteq> 0" using assms by (simp add: unat_eq_0)
  then have "?g \<noteq> 0" by auto
  then have "multiply_by_rational_with_rounding (r_d a) (r_d b) ?g NearestPrefDown =
      (if lcm (unat (r_d a)) (unat (r_d b)) < 2 ^ 128 then Some (of_nat (lcm (unat (r_d a)) (unat (r_d b)))) else None)"
    by (subst multiply_exact) (simp_all add: g lcm_nat_def)
  then show ?thesis using False by (simp add: rational_lcm_def Let_def)
qed

lemma to_den_eq:
  assumes "r_d a \<noteq> 0" "unat (r_d a) dvd unat den"
  shows "to_den a den =
    (let n = unat (r_n a) * (unat den div unat (r_d a)) in if n < 2 ^ 128 then Some \<lparr>r_n = of_nat n, r_d = den\<rparr> else None)"
proof (cases "den = r_d a")
  case True
  then show ?thesis using assms(1) unat_less_power [of "r_n a"] by (simp add: to_den_def unat_eq_0)
next
  case False
  have "unat (r_n a) * unat den div unat (r_d a) = unat (r_n a) * (unat den div unat (r_d a))"
    using assms(2) by (rule div_mult_swap [symmetric])
  then show ?thesis using False assms by (simp add: to_den_def multiply_exact Let_def)
qed

text \<open>The two numerators over the least common denominator.\<close>

definition common_den :: "rational128 \<Rightarrow> rational128 \<Rightarrow> nat" where
  "common_den a b = lcm (unat (r_d a)) (unat (r_d b))"

definition scaled :: "rational128 \<Rightarrow> nat \<Rightarrow> nat" where
  "scaled a l = unat (r_n a) * (l div unat (r_d a))"

definition rational_value :: "rational128 \<Rightarrow> real" where
  "rational_value a = ratio (unat (r_n a)) (unat (r_d a))"

lemma ratio_scale: "0 < d \<Longrightarrow> 0 < k \<Longrightarrow> ratio (n * k) (d * k) = ratio n d"
  by (simp add: ratio_def)

lemma scaled_value:
  assumes "r_d a \<noteq> 0" "unat (r_d a) dvd l" "0 < l"
  shows "ratio (scaled a l) l = rational_value a"
proof -
  obtain k where k: "l = unat (r_d a) * k" using assms(2) by blast
  have pos: "0 < unat (r_d a)" "0 < k" using assms(1,3) k by (auto simp: unat_gt_0 intro: gr0I)
  then have "scaled a l = unat (r_n a) * k" by (simp add: scaled_def k)
  then show ?thesis unfolding rational_value_def k by (simp only: ratio_scale [OF pos])
qed

lemma scaling:
  assumes d: "r_d a \<noteq> 0" "r_d b \<noteq> 0" and l: "common_den a b < 2 ^ 128"
  defines "c \<equiv> of_nat (common_den a b) :: u128"
  shows "rational_lcm a b = Some c" "unat c = common_den a b"
    "to_den a c = (if scaled a (unat c) < 2 ^ 128 then Some \<lparr>r_n = of_nat (scaled a (unat c)), r_d = c\<rparr> else None)"
    "to_den b c = (if scaled b (unat c) < 2 ^ 128 then Some \<lparr>r_n = of_nat (scaled b (unat c)), r_d = c\<rparr> else None)"
proof -
  show "rational_lcm a b = Some c" using d l by (simp add: rational_lcm_eq common_den_def c_def Let_def)
  show c: "unat c = common_den a b" using l by (simp add: c_def unat_of_nat)
  have "unat (r_d a) dvd unat c" "unat (r_d b) dvd unat c" by (simp_all add: c common_den_def)
  then show
    "to_den a c = (if scaled a (unat c) < 2 ^ 128 then Some \<lparr>r_n = of_nat (scaled a (unat c)), r_d = c\<rparr> else None)"
    "to_den b c = (if scaled b (unat c) < 2 ^ 128 then Some \<lparr>r_n = of_nat (scaled b (unat c)), r_d = c\<rparr> else None)"
    using d by (simp_all add: to_den_eq scaled_def Let_def)
qed

lemma checked_add_of_nat:
  assumes "x < 2 ^ 128" "y < 2 ^ 128"
  shows "checked_add (of_nat x :: u128) (of_nat y) = (if x + y < 2 ^ 128 then Some (of_nat (x + y)) else None)"
proof -
  have u: "unat (of_nat x :: u128) = x" "unat (of_nat y :: u128) = y" using assms by (simp_all add: unat_of_nat)
  show ?thesis
  proof (cases "x + y < 2 ^ 128")
    case True
    then have "unat (of_nat (x + y) :: u128) = x + y" by (subst unat_of_nat) simp
    then have "checked_add (of_nat x :: u128) (of_nat y) = Some (of_nat (x + y))"
      using True by (simp only: checked_add_eq_Some u)
    with True show ?thesis by simp
  next
    case False
    then have "checked_add (of_nat x :: u128) (of_nat y) = None" by (simp add: checked_add_eq_None u)
    with False show ?thesis by simp
  qed
qed

lemma checked_sub_of_nat:
  assumes "x < 2 ^ 128" "y < 2 ^ 128"
  shows "checked_sub (of_nat x :: u128) (of_nat y) = (if y \<le> x then Some (of_nat (x - y)) else None)"
proof -
  have u: "unat (of_nat x :: u128) = x" "unat (of_nat y :: u128) = y" using assms by (simp_all add: unat_of_nat)
  show ?thesis by (simp add: checked_sub_def word_le_nat_alt u of_nat_diff)
qed

lemma rational_checked_eqs:
  assumes d: "r_d a \<noteq> 0" "r_d b \<noteq> 0"
  defines "l \<equiv> common_den a b"
  shows "rational_checked_add a b =
      (if \<not> (l < 2 ^ 128 \<and> scaled a l < 2 ^ 128 \<and> scaled b l < 2 ^ 128) then Inl ''failed to scale to denominator''
       else if \<not> scaled a l + scaled b l < 2 ^ 128 then Inl ''overflow while adding numerators''
       else Inr \<lparr>r_n = of_nat (scaled a l + scaled b l), r_d = of_nat l\<rparr>)"
    and "rational_checked_sub a b =
      (if \<not> (l < 2 ^ 128 \<and> scaled a l < 2 ^ 128 \<and> scaled b l < 2 ^ 128) then Inl ''failed to scale to denominator''
       else if \<not> scaled b l \<le> scaled a l then Inl ''overflow while subtracting numerators''
       else Inr \<lparr>r_n = of_nat (scaled a l - scaled b l), r_d = of_nat l\<rparr>)"
proof -
  have none: "rational_lcm a b = None" if "\<not> l < 2 ^ 128"
    using that d by (simp add: rational_lcm_eq l_def common_den_def Let_def)
  note sc = scaling [OF d, folded l_def]
  show "rational_checked_add a b =
      (if \<not> (l < 2 ^ 128 \<and> scaled a l < 2 ^ 128 \<and> scaled b l < 2 ^ 128) then Inl ''failed to scale to denominator''
       else if \<not> scaled a l + scaled b l < 2 ^ 128 then Inl ''overflow while adding numerators''
       else Inr \<lparr>r_n = of_nat (scaled a l + scaled b l), r_d = of_nat l\<rparr>)"
    using none by (cases "l < 2 ^ 128") (simp_all add: rational_checked_add_def sc checked_add_of_nat del: of_nat_add)
  show "rational_checked_sub a b =
      (if \<not> (l < 2 ^ 128 \<and> scaled a l < 2 ^ 128 \<and> scaled b l < 2 ^ 128) then Inl ''failed to scale to denominator''
       else if \<not> scaled b l \<le> scaled a l then Inl ''overflow while subtracting numerators''
       else Inr \<lparr>r_n = of_nat (scaled a l - scaled b l), r_d = of_nat l\<rparr>)"
    using none by (cases "l < 2 ^ 128") (simp_all add: rational_checked_sub_def sc checked_sub_of_nat del: of_nat_diff)
qed

lemma scaled_bound: "x < 2 ^ 128 \<Longrightarrow> 0 < l \<Longrightarrow> l < 2 ^ 128 \<Longrightarrow>
    rational_value \<lparr>r_n = of_nat x, r_d = of_nat l\<rparr> = ratio x l"
  by (simp add: rational_value_def unat_of_nat)

lemma common_den:
  assumes "r_d a \<noteq> 0" "r_d b \<noteq> 0"
  shows "0 < common_den a b" "ratio (scaled a (common_den a b)) (common_den a b) = rational_value a"
    "ratio (scaled b (common_den a b)) (common_den a b) = rational_value b"
proof -
  have "unat (r_d a) \<noteq> 0" "unat (r_d b) \<noteq> 0" using assms by (simp_all add: unat_eq_0)
  then show pos: "0 < common_den a b" by (simp add: common_den_def lcm_pos_nat)
  show "ratio (scaled a (common_den a b)) (common_den a b) = rational_value a"
    "ratio (scaled b (common_den a b)) (common_den a b) = rational_value b"
    using assms pos by (auto intro!: scaled_value simp: common_den_def)
qed

section \<open>Comparison\<close>

lemma ratio_cmp:
  assumes "0 < d" "0 < e"
  shows "cmp (ratio n d) (ratio m e) = cmp (n * e) (m * d)"
proof -
  have "ratio n d < ratio m e \<longleftrightarrow> real (n * e) < real (m * d)" "ratio n d = ratio m e \<longleftrightarrow> real (n * e) = real (m * d)"
    using assms by (simp_all add: ratio_def divide_less_eq less_divide_eq divide_eq_eq eq_divide_eq field_simps)
  then show ?thesis unfolding cmp_def of_nat_less_iff of_nat_eq_iff by simp
qed

lemma cross_product: "\<exists>w. mul_big (to_big_uint x) (to_big_uint y) = Some w \<and> big_value w = unat x * unat y"
  using mul_big_value [of "to_big_uint x" "to_big_uint y"] by (auto simp: to_big_uint_value)

lemma cmp_unat: "cmp (x :: 'w::len word) y = cmp (unat x) (unat y)"
  by (simp add: cmp_def word_less_nat_alt word_unat_eq_iff)

lemma cmp_times: "0 < k \<Longrightarrow> cmp (n * k) (m * k) = cmp n (m :: nat)"
  by (simp add: cmp_def)

lemma is_zero_big_value: "is_zero_big b \<longleftrightarrow> big_value b = 0"
proof -
  have "list_all (\<lambda>d. d = 0) ds \<longleftrightarrow> bv ds = 0" for ds
    by (induction ds) (auto simp: bv_Cons unat_eq_0 less_not_refl2 [OF base_pos])
  then show ?thesis by (simp add: is_zero_big_def)
qed

section \<open>Properties\<close>

text \<open>
  C37. Sums and differences of fractions with nonzero denominators are exact: a result has the
  value of the sum or the difference, and a sum fails exactly if the least common denominator or
  the numerator over it exceeds 128 bits.
\<close>

theorem rational_sums_exact:
  assumes "r_d a \<noteq> 0" "r_d b \<noteq> 0"
  shows "(\<forall>r. rational_checked_add a b = Inr r \<longrightarrow> rational_value r = rational_value a + rational_value b) \<and>
    (\<forall>r. rational_checked_sub a b = Inr r \<longrightarrow> rational_value r = rational_value a - rational_value b) \<and>
    ((\<exists>r. rational_checked_add a b = Inr r) \<longleftrightarrow>
       common_den a b < 2 ^ 128 \<and> scaled a (common_den a b) + scaled b (common_den a b) < 2 ^ 128)"
proof -
  let ?l = "common_den a b"
  note den = common_den [OF assms]
  have add: "ratio (scaled a ?l + scaled b ?l) ?l = rational_value a + rational_value b"
    using den by (simp add: ratio_def add_divide_distrib)
  have sub: "ratio (scaled a ?l - scaled b ?l) ?l = rational_value a - rational_value b" if "scaled b ?l \<le> scaled a ?l"
    using that den by (simp add: ratio_def diff_divide_distrib of_nat_diff)
  have "rational_value r = rational_value a + rational_value b" if "rational_checked_add a b = Inr r" for r
    using that add scaled_bound [OF _ den(1)] unfolding rational_checked_eqs(1) [OF assms]
    by (auto split: if_splits simp del: of_nat_add)
  moreover have "rational_value r = rational_value a - rational_value b" if "rational_checked_sub a b = Inr r" for r
    using that sub scaled_bound [of "scaled a ?l - scaled b ?l", OF _ den(1)] unfolding rational_checked_eqs(2) [OF assms]
    by (auto split: if_splits simp del: of_nat_diff)
  ultimately show ?thesis unfolding rational_checked_eqs(1) [OF assms] by auto
qed

theorem rational_sums_exact_witness:
  "rational_value (from_unchecked 1 6) + rational_value (from_unchecked 1 4) = rational_value (from_unchecked 5 12)"
proof -
  have "rational_checked_add (from_unchecked 1 6) (from_unchecked 1 4) = Inr (from_unchecked 5 12)"
    by (subst rational_checked_eqs(1)) (simp_all add: from_unchecked_def common_den_def scaled_def lcm_nat_def gcd_nat.simps)
  then show ?thesis
    using rational_sums_exact [of "from_unchecked 1 6" "from_unchecked 1 4"] by (simp add: from_unchecked_def)
qed

text \<open>
  C38. Comparison and equality of fractions with nonzero denominators decide the order and the
  equality of their values, also after the conversion to fractions of big numbers, where no product
  can overflow. The fraction \<open>0/0\<close>, which only \<open>from_unchecked\<close> makes, is equal to every fraction
  and at the same time greater than every fraction with a nonzero denominator.
\<close>

theorem rational_order:
  assumes "r_d a \<noteq> 0" "r_d b \<noteq> 0"
  shows "rational_cmp a b = Some (cmp (rational_value a) (rational_value b)) \<and>
    rational_eq a b = Some (rational_value a = rational_value b) \<and>
    infinite_cmp (infinite_of_rational a) (infinite_of_rational b) = rational_cmp a b \<and>
    rational_eq (from_unchecked 0 0) b = Some True \<and> rational_cmp (from_unchecked 0 0) b = Some Greater"
proof -
  have pos: "0 < unat (r_d a)" "0 < unat (r_d b)" using assms by (simp_all add: unat_gt_0)
  obtain x y where x: "mul_big (to_big_uint (r_n a)) (to_big_uint (r_d b)) = Some x" "big_value x = unat (r_n a) * unat (r_d b)"
    and y: "mul_big (to_big_uint (r_n b)) (to_big_uint (r_d a)) = Some y" "big_value y = unat (r_n b) * unat (r_d a)"
    using cross_product by metis
  have v: "cmp (rational_value a) (rational_value b) = cmp (big_value x) (big_value y)"
    unfolding rational_value_def x y by (rule ratio_cmp [OF pos])
  have same: "cmp (r_n a) (r_n b) = cmp (big_value x) (big_value y)" if "r_d a = r_d b"
    using that pos by (simp only: cmp_unat x y cmp_times)
  have c: "rational_cmp a b = Some (cmp (big_value x) (big_value y))"
    using assms same by (simp add: rational_cmp_def x(1) y(1) cmp_big_value)
  have eq: "cmp p q = Equal \<longleftrightarrow> p = q" for p q :: "'x::linorder" by (simp add: cmp_def)
  have "rational_eq a b = Some (cmp (big_value x) (big_value y) = Equal)"
    using same eq [of "r_n a" "r_n b"] by (auto simp: rational_eq_def x(1) y(1) eq_big_def cmp_big_value)
  then have e: "rational_eq a b = Some (rational_value a = rational_value b)"
    unfolding v [symmetric] by (simp add: cmp_def)
  have "eq_big (to_big_uint (r_d a)) (to_big_uint (r_d b)) \<longleftrightarrow> r_d a = r_d b"
    by (simp add: eq_big_def cmp_big_value to_big_uint_value eq word_unat_eq_iff)
  moreover have "\<not> is_zero_big (to_big_uint (r_d a))" "\<not> is_zero_big (to_big_uint (r_d b))"
    using pos by (simp_all add: is_zero_big_value to_big_uint_value)
  moreover have "cmp_big (to_big_uint (r_n a)) (to_big_uint (r_n b)) = cmp (r_n a) (r_n b)"
    by (simp only: cmp_big_value to_big_uint_value cmp_unat)
  ultimately have "infinite_cmp (infinite_of_rational a) (infinite_of_rational b) = rational_cmp a b"
    using assms by (simp add: infinite_cmp_def infinite_of_rational_def rational_cmp_def)
  moreover have "rational_eq (from_unchecked 0 0) b = Some True"
  proof -
    obtain p q where "mul_big (to_big_uint 0) (to_big_uint (r_d b)) = Some p" "big_value p = 0"
      "mul_big (to_big_uint (r_n b)) (to_big_uint 0) = Some q" "big_value q = 0"
      using cross_product [of 0 "r_d b"] cross_product [of "r_n b" 0] by auto
    then show ?thesis using assms(2) by (simp add: rational_eq_def from_unchecked_def eq_big_def cmp_big_value)
  qed
  moreover have "rational_cmp (from_unchecked 0 0) b = Some Greater"
    using assms(2) by (simp add: rational_cmp_def from_unchecked_def)
  ultimately show ?thesis using c e v by simp
qed

theorem rational_order_witness:
  "rational_cmp (from_unchecked 1 3) (from_unchecked 1 2) =
     Some (cmp (rational_value (from_unchecked 1 3)) (rational_value (from_unchecked 1 2)))"
  using rational_order [of "from_unchecked 1 3" "from_unchecked 1 2"] by (simp add: from_unchecked_def)

end
