(* ===== verification/Normalize.thy ===== *)
theory Normalize
  imports BigUint Per_Things "HOL-Library.Multiset"
begin

text \<open>
  Comparison with a threshold and normalisation of a list of numbers to a given sum
  (\<open>primitives/arithmetic/src/lib.rs\<close>).

  \<open>normalize\<close> distributes the difference between the sum of the input and the target over the
  elements: first one share per element, then one by one. The loop that subtracts one by one skips
  elements that are zero and ends only because the sum is still above the target; it is a partial
  function here, and the main result is that it ends and that the target is met.
\<close>

section \<open>Comparison with a threshold\<close>

definition tcmp :: "'w::len word \<Rightarrow> 'w word \<Rightarrow> 'w word \<Rightarrow> ordering" where
  "tcmp self other threshold =
     (if threshold = 0 then cmp self other
      else
        let upper_bound = saturating_add other threshold;
            lower_bound = saturating_sub other threshold
        in if upper_bound \<le> lower_bound then cmp self other
           else (case (cmp self lower_bound, cmp self upper_bound) of
                   (Greater, Greater) \<Rightarrow> Greater
                 | (Less, Less) \<Rightarrow> Less
                 | _ \<Rightarrow> Equal))"

section \<open>Normalisation\<close>

type_synonym 'w indexed = "(nat \<times> 'w word) list"

text \<open>\<open>output_with_idx[i].1 = x\<close>; an index out of range panics.\<close>

definition value_at :: "'w::len indexed \<Rightarrow> nat \<Rightarrow> 'w word option" where
  "value_at out i = (if i < length out then Some (snd (out ! i)) else None)"

definition write_at :: "'w::len indexed \<Rightarrow> nat \<Rightarrow> 'w word \<Rightarrow> 'w indexed" where
  "write_at out i x = out[i := (fst (out ! i), x)]"

primrec checked_sum :: "'w::len word list \<Rightarrow> 'w word \<Rightarrow> 'w word option" where
  "checked_sum [] s = Some s"
| "checked_sum (t # ts) s = do { s \<leftarrow> checked_add s t; checked_sum ts s }"

text \<open>Add \<open>amount\<close> to the current minimum and move on once it has reached the threshold.\<close>

definition bump_step :: "'w::len word \<Rightarrow> 'w word \<Rightarrow> 'w indexed \<times> nat \<Rightarrow> ('w indexed \<times> nat) option" where
  "bump_step threshold amount st =
     (let (out, min_index) = st
      in do {
           x \<leftarrow> value_at out min_index;
           x \<leftarrow> checked_add x amount;
           let out = write_at out min_index x;
           Some (out, if threshold \<le> x then (min_index + 1) mod length out else min_index)
         })"

function bump_leftover :: "'w::len word \<Rightarrow> 'w word \<Rightarrow> 'w indexed \<times> nat \<Rightarrow> ('w indexed \<times> nat) option" where
  "bump_leftover threshold leftover st =
     (if leftover = 0 then Some st
      else do { st \<leftarrow> bump_step threshold 1 st; bump_leftover threshold (leftover - 1) st })"
  by pat_completeness auto
termination
  by (relation "measure (\<lambda>(_, leftover, _). unat leftover)") (simp_all add: unat_minus_one unat_gt_0)

declare bump_leftover.simps [simp del]

definition bump :: "'w::len word \<Rightarrow> 'w word \<Rightarrow> 'w word \<Rightarrow> 'w indexed \<Rightarrow> 'w indexed option" where
  "bump threshold per_round leftover out =
     do {
       st \<leftarrow> (if per_round \<noteq> 0 then for_each (\<lambda>_. bump_step threshold per_round) [0..<length out] (out, 0)
             else Some (out, 0));
       (out, _) \<leftarrow> bump_leftover threshold leftover st;
       Some out
     }"

abbreviation step_down :: "nat \<Rightarrow> nat \<Rightarrow> nat" where
  "step_down n i \<equiv> (if i = 0 then n - 1 else i - 1)"

text \<open>Take one share from the current maximum; what it cannot give goes to the leftover.\<close>

definition shrink_step ::
  "'w::len word \<Rightarrow> 'w word \<Rightarrow> 'w indexed \<times> nat \<times> 'w word \<Rightarrow> ('w indexed \<times> nat \<times> 'w word) option" where
  "shrink_step threshold per_round st =
     (let (out, max_index, leftover) = st
      in do {
           x \<leftarrow> value_at out max_index;
           let (y, leftover) = (case checked_sub x per_round of
                                  Some y \<Rightarrow> (y, leftover)
                                | None \<Rightarrow> (saturating_sub x per_round, leftover + (per_round - x)));
           let out = write_at out max_index y;
           Some (out, if y \<le> threshold then step_down (length out) max_index else max_index, leftover)
         })"

text \<open>The loop over the leftover; \<open>None\<close> is a panic or a run that does not end.\<close>

partial_function (option) shrink_leftover ::
  "'w::len word \<Rightarrow> 'w word \<Rightarrow> 'w indexed \<Rightarrow> nat \<Rightarrow> 'w indexed option" where
  "shrink_leftover threshold leftover out max_index =
     (if leftover = 0 then Some out
      else do {
        x \<leftarrow> value_at out max_index;
        case checked_sub x 1 of
          Some y \<Rightarrow>
            shrink_leftover threshold (leftover - 1) (write_at out max_index y)
              (if y \<le> threshold then step_down (length out) max_index else max_index)
        | None \<Rightarrow> shrink_leftover threshold leftover out (step_down (length out) max_index)
      })"

definition shrink :: "'w::len word \<Rightarrow> 'w word \<Rightarrow> 'w word \<Rightarrow> 'w indexed \<Rightarrow> 'w indexed option" where
  "shrink threshold per_round leftover out =
     do {
       (out, max_index, leftover) \<leftarrow>
         (if per_round \<noteq> 0
          then for_each (\<lambda>_. shrink_step threshold per_round) [0..<length out] (out, length out - 1, leftover)
          else Some (out, length out - 1, leftover));
       shrink_leftover threshold leftover out max_index
     }"

definition normalize_vec :: "'w::len word list \<Rightarrow> 'w word \<Rightarrow> (string + 'w word list) option" where
  "normalize_vec input targeted_sum =
     (case checked_sum input 0 of
        None \<Rightarrow> Some (Inl ''sum of input cannot fit in `T`'')
      | Some sum_t \<Rightarrow>
          let cnt = length input
          in if \<not> cnt < 2 ^ LENGTH('w) then Some (Inl ''length of `inputs` cannot fit in `T`'')
             else if cnt = 0 then Some (Inr [])
             else
               let count_t = of_nat cnt;
                   diff = max targeted_sum sum_t - min targeted_sum sum_t
               in if diff = 0 then Some (Inr input)
                  else
                    let per_round = diff div count_t;
                        leftover = diff mod count_t;
                        output_with_idx = sort_key snd (enumerate 0 input)
                    in do {
                         out \<leftarrow> (if sum_t < targeted_sum
                                then bump (targeted_sum div count_t) per_round leftover output_with_idx
                                else shrink (snd (hd output_with_idx)) per_round leftover output_with_idx);
                         Some (Inr (map snd (sort_key fst out)))
                       })"

text \<open>Normalisation of fractions, computed in the wider type.\<close>

definition normalize_per_things ::
  "'u::len itself \<Rightarrow> 'i::len word \<Rightarrow> 'i word list \<Rightarrow> 'i word \<Rightarrow> (string + 'i word list) option" where
  "normalize_per_things _ acc self targeted_sum =
     (let uppers = map (\<lambda>p. ucast p :: 'u word) self
      in do {
           normalized \<leftarrow> normalize_vec uppers (ucast targeted_sum);
           Some (map_sum id (map (\<lambda>i. from_parts acc (saturated_into i))) normalized)
         })"

section \<open>Sums of indexed lists\<close>

definition tot :: "'w::len indexed \<Rightarrow> nat" where
  "tot out = sum_list (map (\<lambda>p. unat (snd p)) out)"

lemma value_at_le: "i < length out \<Longrightarrow> unat (snd (out ! i)) \<le> tot out"
  unfolding tot_def by (metis (no_types, lifting) elem_le_sum_list length_map nth_map)

lemma tot_mset: "mset a = mset b \<Longrightarrow> tot a = tot b"
  unfolding tot_def sum_mset_sum_list [symmetric] mset_map by simp

lemma length_write_at [simp]: "length (write_at out i x) = length out"
  by (simp add: write_at_def)

lemma tot_write_at: "i < length out \<Longrightarrow> tot (write_at out i x) + unat (snd (out ! i)) = tot out + unat x"
proof -
  assume i: "i < length out"
  have "tot (write_at out i x) = tot out + unat x - unat (snd (out ! i))"
    using i unfolding tot_def write_at_def map_update by (simp add: sum_list_update)
  then show ?thesis using value_at_le [OF i] by simp
qed

text \<open>\<open>raises a b\<close>: the same indices, and every value at least as large.\<close>

definition raises :: "'w::len indexed \<Rightarrow> 'w indexed \<Rightarrow> bool" where
  "raises a b \<longleftrightarrow> list_all2 (\<lambda>p q. fst p = fst q \<and> unat (snd p) \<le> unat (snd q)) a b"

lemma raises_refl [simp]: "raises a a"
  by (simp add: raises_def list_all2_refl)

lemma raises_trans: "raises a b \<Longrightarrow> raises b c \<Longrightarrow> raises a c"
  unfolding raises_def by (rule list_all2_trans) auto

lemma raises_write:
  "i < length a \<Longrightarrow> unat (snd (a ! i)) \<le> unat x \<Longrightarrow> raises a (write_at a i x)"
  "i < length a \<Longrightarrow> unat x \<le> unat (snd (a ! i)) \<Longrightarrow> raises (write_at a i x) a"
  unfolding raises_def write_at_def list_all2_conv_all_nth by (auto simp: nth_list_update)

lemma raises_tot: "raises a b \<Longrightarrow> tot a \<le> tot b"
  unfolding raises_def by (induction rule: list_all2_induct) (auto simp: tot_def)

section \<open>Adding\<close>

lemma bump_step_Some:
  assumes "i < length (out :: 'w::len indexed)" "tot out + unat amount < 2 ^ LENGTH('w)"
  shows "\<exists>out' i'. bump_step threshold amount (out, i) = Some (out', i') \<and> i' < length out' \<and>
    length out' = length out \<and> tot out' = tot out + unat amount \<and> raises out out'"
proof -
  let ?x = "snd (out ! i)"
  have "unat ?x + unat amount < 2 ^ LENGTH('w)" using value_at_le [OF assms(1)] assms(2) by linarith
  then have u: "unat (?x + amount) = unat ?x + unat amount" using unat_add_lem by blast
  then have "checked_add ?x amount = Some (?x + amount)" by (simp only: checked_add_eq_Some)
  moreover have "tot (write_at out i (?x + amount)) = tot out + unat amount"
    using tot_write_at [OF assms(1), of "?x + amount"] u by linarith
  moreover have "raises out (write_at out i (?x + amount))" by (rule raises_write(1) [OF assms(1)]) (simp add: u)
  moreover have "0 < length out" using assms(1) by (cases out) simp_all
  ultimately show ?thesis
    using assms(1) by (simp add: bump_step_def value_at_def Let_def)
qed

lemma bump_leftover_Some:
  assumes "i < length (out :: 'w::len indexed)" "tot out + unat leftover < 2 ^ LENGTH('w)"
  shows "\<exists>out' i'. bump_leftover threshold leftover (out, i) = Some (out', i') \<and>
    length out' = length out \<and> tot out' = tot out + unat leftover \<and> raises out out'"
  using assms
proof (induction "unat leftover" arbitrary: leftover out i)
  case 0
  then have "leftover = 0" by (simp add: unat_eq_zero)
  then show ?case by (subst bump_leftover.simps) simp
next
  case (Suc k)
  then have nz: "leftover \<noteq> 0" by auto
  then have l: "unat (leftover - 1) = unat leftover - 1" by (rule unat_minus_one)
  have one: "unat (1 :: 'w word) = 1" by simp
  obtain out1 i1 where b: "bump_step threshold 1 (out, i) = Some (out1, i1)" "i1 < length out1"
    "length out1 = length out" "tot out1 = tot out + 1" "raises out out1"
    using bump_step_Some [of i out 1 threshold] Suc.prems Suc.hyps(2) by (auto simp: one)
  have k: "k = unat (leftover - 1)" and fits: "tot out1 + unat (leftover - 1) < 2 ^ LENGTH('w)"
    using Suc.hyps(2) Suc.prems(2) l b(4) by simp_all
  obtain out2 i2 where "bump_leftover threshold (leftover - 1) (out1, i1) = Some (out2, i2)"
    "length out2 = length out1" "tot out2 = tot out1 + unat (leftover - 1)" "raises out1 out2"
    using Suc.hyps(1) [OF k b(2) fits] by blast
  then show ?case
    using b nz l Suc.hyps(2) raises_trans [OF b(5)] by (subst bump_leftover.simps) simp
qed

lemma bump_Some:
  assumes "out \<noteq> []" "tot (out :: 'w::len indexed) + length out * unat per_round + unat leftover < 2 ^ LENGTH('w)"
  shows "\<exists>out'. bump threshold per_round leftover out = Some out' \<and>
    tot out' = tot out + length out * unat per_round + unat leftover \<and> raises out out'"
proof -
  let ?n = "length out"
  define P where "P = (\<lambda>k (out', i). i < length out' \<and> length out' = ?n \<and> tot out' = tot out + k * unat per_round \<and> raises out out')"
  have loop: "\<exists>s. for_each (\<lambda>_. bump_step threshold per_round) [0..<?n] (out, 0) = Some s \<and> P ?n s"
  proof (rule for_up)
    fix k s assume k: "k < ?n" and "P k s"
    then obtain out1 i where s: "s = (out1, i)" and P: "i < length out1" "length out1 = ?n"
      "tot out1 = tot out + k * unat per_round" "raises out out1" by (auto simp: P_def)
    have "Suc k * unat per_round \<le> ?n * unat per_round" using k by (intro mult_le_mono1) simp
    then have "tot out1 + unat per_round < 2 ^ LENGTH('w)" using P(3) assms(2) by simp
    then show "\<exists>s'. bump_step threshold per_round s = Some s' \<and> P (Suc k) s'"
      using bump_step_Some [OF P(1)] raises_trans [OF P(4)] P(2,3) by (fastforce simp: s P_def)
  qed (use assms(1) in \<open>simp add: P_def\<close>)
  have "\<exists>s. (if per_round \<noteq> 0 then for_each (\<lambda>_. bump_step threshold per_round) [0..<?n] (out, 0) else Some (out, 0)) = Some s \<and> P ?n s"
    using loop assms(1) by (auto simp: P_def)
  then obtain out1 i where st: "(if per_round \<noteq> 0 then for_each (\<lambda>_. bump_step threshold per_round) [0..<?n] (out, 0)
      else Some (out, 0)) = Some (out1, i)" "i < length out1" "length out1 = ?n" "tot out1 = tot out + ?n * unat per_round"
    "raises out out1" by (auto simp: P_def)
  obtain out2 i2 where "bump_leftover threshold leftover (out1, i) = Some (out2, i2)"
    "tot out2 = tot out1 + unat leftover" "raises out1 out2"
    using bump_leftover_Some [OF st(2), of leftover threshold] st(4) assms(2) by auto
  then show ?thesis using st raises_trans [OF st(5)] by (auto simp: bump_def)
qed

section \<open>Subtracting\<close>

lemma shrink_step_Some:
  assumes i: "i < length (out :: 'w::len indexed)"
    and fits: "unat leftover + unat per_round \<le> tot out"  "tot out < 2 ^ LENGTH('w)"
  shows "\<exists>out' i' leftover'. shrink_step threshold per_round (out, i, leftover) = Some (out', i', leftover') \<and>
    i' < length out' \<and> length out' = length out \<and>
    tot out' + unat per_round + unat leftover = tot out + unat leftover' \<and> raises out' out"
proof -
  let ?x = "snd (out ! i)"
  define r where "r = (case checked_sub ?x per_round of
    Some y \<Rightarrow> (y, leftover) | None \<Rightarrow> (saturating_sub ?x per_round, leftover + (per_round - ?x)))"
  obtain y l where r: "r = (y, l)" by (cases r)
  have yl: "unat y \<le> unat ?x \<and> unat y + unat per_round + unat leftover = unat ?x + unat l"
  proof (cases "per_round \<le> ?x")
    case True
    then have "y = ?x - per_round" "l = leftover" using r by (simp_all add: r_def checked_sub_def)
    then show ?thesis using True by (simp add: unat_sub word_le_nat_alt)
  next
    case False
    then have "y = 0" "l = leftover + (per_round - ?x)" using r by (simp_all add: r_def checked_sub_def saturating_sub_def)
    moreover have d: "unat (per_round - ?x) = unat per_round - unat ?x" "unat ?x < unat per_round"
      using False by (simp_all add: unat_sub word_le_nat_alt)
    moreover have "unat leftover + unat (per_round - ?x) < 2 ^ LENGTH('w)" using d fits by linarith
    then have "unat (leftover + (per_round - ?x)) = unat leftover + unat (per_round - ?x)" using unat_add_lem by blast
    ultimately show ?thesis by simp
  qed
  then have "tot (write_at out i y) + unat per_round + unat leftover = tot out + unat l"
    using tot_write_at [OF i, of y] by linarith
  moreover have "raises (write_at out i y) out" by (rule raises_write(2) [OF i]) (use yl in simp)
  moreover have "shrink_step threshold per_round (out, i, leftover) =
      Some (write_at out i y, if y \<le> threshold then step_down (length out) i else i, l)"
    using i r unfolding r_def by (simp add: shrink_step_def value_at_def Let_def)
  ultimately show ?thesis using i by (intro exI [of _ "write_at out i y"]) auto
qed

text \<open>
  While the sum is above the target some element is positive; the loop reaches it by stepping
  down, and then gives up one.
\<close>

lemma shrink_leftover_skip:
  assumes "i < length out" "j < length out" "snd (out ! j) \<noteq> 0" "leftover \<noteq> 0"
  shows "\<exists>k < length out. snd (out ! k) \<noteq> 0 \<and>
    shrink_leftover threshold leftover out i = shrink_leftover threshold leftover out k"
  using assms
proof (induction "if j \<le> i then i - j else i + length out - j" arbitrary: i)
  case 0
  then have "i = j" by (auto split: if_splits)
  then show ?case using assms by blast
next
  case (Suc d)
  show ?case
  proof (cases "snd (out ! i) = 0")
    case False
    then show ?thesis using Suc.prems by blast
  next
    case True
    let ?k = "step_down (length out) i"
    have "i \<noteq> j" using True Suc.prems(3) by auto
    then have "d = (if j \<le> ?k then ?k - j else ?k + length out - j)" "?k < length out"
      using Suc.hyps(2) Suc.prems(1,2) by (auto split: if_splits)
    then have "\<exists>k < length out. snd (out ! k) \<noteq> 0 \<and>
        shrink_leftover threshold leftover out ?k = shrink_leftover threshold leftover out k"
      using Suc.hyps(1) Suc.prems(2-4) by blast
    moreover have "shrink_leftover threshold leftover out i = shrink_leftover threshold leftover out ?k"
      using True Suc.prems(1,4) by (subst shrink_leftover.simps) (simp add: value_at_def checked_sub_def)
    ultimately show ?thesis by simp
  qed
qed

lemma positive_element: "0 < tot out \<Longrightarrow> \<exists>j < length out. snd (out ! j) \<noteq> 0"
proof (rule ccontr)
  assume "0 < tot out" and no: "\<not> (\<exists>j < length out. snd (out ! j) \<noteq> 0)"
  have "map (\<lambda>p. unat (snd p)) out = map (\<lambda>_. 0) out"
    using no by (intro map_cong) (auto simp: in_set_conv_nth)
  then have "tot out = 0" unfolding tot_def by simp
  with \<open>0 < tot out\<close> show False by simp
qed

lemma shrink_leftover_Some:
  assumes "i < length (out :: 'w::len indexed)" "unat leftover \<le> tot out"
  shows "\<exists>out'. shrink_leftover threshold leftover out i = Some out' \<and>
    tot out' + unat leftover = tot out \<and> raises out' out"
  using assms
proof (induction "unat leftover" arbitrary: leftover out i)
  case 0
  then have "leftover = 0" by (simp add: unat_eq_zero)
  then show ?case by (subst shrink_leftover.simps) simp
next
  case (Suc n)
  then have nz: "leftover \<noteq> 0" by auto
  then have l: "unat (leftover - 1) = unat leftover - 1" by (rule unat_minus_one)
  have "0 < tot out" using Suc.hyps(2) Suc.prems(2) by linarith
  then obtain j where "j < length out" "snd (out ! j) \<noteq> 0" using positive_element by blast
  then obtain k where k: "k < length out" "snd (out ! k) \<noteq> 0"
    "shrink_leftover threshold leftover out i = shrink_leftover threshold leftover out k"
    using shrink_leftover_skip [OF Suc.prems(1) _ _ nz] by blast
  let ?x = "snd (out ! k)"
  let ?out = "write_at out k (?x - 1)"
  let ?i = "if ?x - 1 \<le> threshold then step_down (length out) k else k"
  have x: "unat (?x - 1) = unat ?x - 1" "0 < unat ?x" using k(2) by (simp_all add: unat_minus_one unat_gt_0)
  have "1 \<le> ?x" using x(2) by (simp add: word_le_nat_alt)
  then have run: "shrink_leftover threshold leftover out k = shrink_leftover threshold (leftover - 1) ?out ?i"
    using nz k(1) by (subst shrink_leftover.simps) (simp add: value_at_def checked_sub_def)
  have t: "tot ?out + 1 = tot out" using tot_write_at [OF k(1), of "?x - 1"] x by linarith
  have g: "raises ?out out" by (rule raises_write(2) [OF k(1)]) (simp add: x)
  have n: "n = unat (leftover - 1)" "?i < length ?out" "unat (leftover - 1) \<le> tot ?out"
    using Suc.hyps(2) Suc.prems(2) l t k(1) by auto
  obtain out' where "shrink_leftover threshold (leftover - 1) ?out ?i = Some out'"
    "tot out' + unat (leftover - 1) = tot ?out" "raises out' ?out"
    using Suc.hyps(1) [OF n] by blast
  then show ?case using k(3) run t l Suc.hyps(2) raises_trans [OF _ g] by auto
qed

lemma shrink_Some:
  assumes "out \<noteq> []" "length out * unat per_round + unat leftover \<le> tot out" "tot (out :: 'w::len indexed) < 2 ^ LENGTH('w)"
  shows "\<exists>out'. shrink threshold per_round leftover out = Some out' \<and>
    tot out' + length out * unat per_round + unat leftover = tot out \<and> raises out' out"
proof -
  let ?n = "length out" and ?st = "(out, length out - 1, leftover)"
  define P where "P = (\<lambda>k (out', i, l :: 'w word). i < length out' \<and> length out' = ?n \<and>
    tot out' + k * unat per_round + unat leftover = tot out + unat l \<and> raises out' out)"
  have n: "length out - 1 < length out" using assms(1) by simp
  have loop: "\<exists>s. for_each (\<lambda>_. shrink_step threshold per_round) [0..<?n] ?st = Some s \<and> P ?n s"
  proof (rule for_up)
    fix k s assume k: "k < ?n" and "P k s"
    then obtain out1 i l where s: "s = (out1, i, l)" and P: "i < length out1" "length out1 = ?n"
      "tot out1 + k * unat per_round + unat leftover = tot out + unat l" "raises out1 out" by (auto simp: P_def)
    have "Suc k * unat per_round \<le> ?n * unat per_round" using k by (intro mult_le_mono1) simp
    then have "unat l + unat per_round \<le> tot out1" "tot out1 < 2 ^ LENGTH('w)"
      using P(3) assms(2,3) raises_tot [OF P(4)] by simp_all
    then show "\<exists>s'. shrink_step threshold per_round s = Some s' \<and> P (Suc k) s'"
      using shrink_step_Some [OF P(1), of l per_round threshold] raises_trans [OF _ P(4)] P(2,3)
      by (fastforce simp: s P_def)
  qed (use n in \<open>simp add: P_def\<close>)
  have "\<exists>s. (if per_round \<noteq> 0 then for_each (\<lambda>_. shrink_step threshold per_round) [0..<?n] ?st else Some ?st) = Some s \<and> P ?n s"
    using loop n by (auto simp: P_def)
  then obtain out1 i l where st: "(if per_round \<noteq> 0 then for_each (\<lambda>_. shrink_step threshold per_round) [0..<?n] ?st
      else Some ?st) = Some (out1, i, l)" "i < length out1"
    "tot out1 + ?n * unat per_round + unat leftover = tot out + unat l" "raises out1 out" by (auto simp: P_def)
  have "unat l \<le> tot out1" using st(3) assms(2) by linarith
  then obtain out2 where "shrink_leftover threshold l out1 i = Some out2" "tot out2 + unat l = tot out1" "raises out2 out1"
    using shrink_leftover_Some [OF st(2)] by blast
  then show ?thesis using st raises_trans [OF _ st(4)] by (auto simp: shrink_def)
qed

section \<open>Back to the original order\<close>

lemma resorted:
  assumes out: "mset out0 = mset (enumerate 0 input)" "map fst out = map fst out0"
  shows "length (map snd (sort_key fst out)) = length input" "k < length out \<Longrightarrow> fst (out ! k) < length input"
    "k < length out \<Longrightarrow> map snd (sort_key fst out) ! fst (out ! k) = snd (out ! k)"
    "sum_list (map unat (map snd (sort_key fst out))) = tot out"
proof -
  have keys: "mset (map fst out) = mset [0..<length input]"
  proof -
    have "mset (map fst out) = mset (map fst (enumerate 0 input))" unfolding out(2) by (simp only: mset_map out(1))
    then show ?thesis by (simp only: map_fst_enumerate) simp
  qed
  then have len: "length out = length input" using mset_eq_length [OF keys] by simp
  then show l: "length (map snd (sort_key fst out)) = length input" by simp
  have perm: "mset (map fst (sort_key fst out)) = mset [0..<length input]" using keys by (simp only: mset_map mset_sort)
  have "sort [0..<length input] = map fst (sort_key fst out)" by (rule properties_for_sort [OF perm sorted_sort_key])
  moreover have "sort [0..<length input] = [0..<length input]" by (rule sorted_sort_id) simp
  ultimately have idx: "map fst (sort_key fst out) = [0..<length input]" by (simp only:)
  show "fst (out ! k) < length input" if "k < length out"
  proof -
    have "fst (out ! k) \<in> set (map fst out)" using that by simp
    then show ?thesis unfolding mset_eq_setD [OF keys] by simp
  qed
  show "map snd (sort_key fst out) ! fst (out ! k) = snd (out ! k)" if k: "k < length out"
  proof -
    have "out ! k \<in> set (sort_key fst out)" using k by simp
    then obtain m where m: "m < length out" "sort_key fst out ! m = out ! k"
      unfolding in_set_conv_nth by auto
    have "map fst (sort_key fst out) ! m = m" unfolding idx using m(1) len by simp
    then have "fst (sort_key fst out ! m) = m" using m(1) by (subst (asm) nth_map) simp_all
    then have k: "fst (out ! k) = m" by (simp only: m(2))
    show ?thesis unfolding k using m by (subst nth_map) simp_all
  qed
  have "tot (sort_key fst out) = tot out" by (rule tot_mset) simp
  then show "sum_list (map unat (map snd (sort_key fst out))) = tot out" by (simp add: tot_def comp_def)
qed

lemma sorted_input:
  fixes input :: "'w::len word list"
  defines "out0 \<equiv> sort_key snd (enumerate 0 input)"
  shows "mset out0 = mset (enumerate 0 input)" "length out0 = length input" "tot out0 = sum_list (map unat input)"
    "k < length out0 \<Longrightarrow> input ! fst (out0 ! k) = snd (out0 ! k)"
    "i < length input \<Longrightarrow> \<exists>k < length out0. fst (out0 ! k) = i"
proof -
  show m: "mset out0 = mset (enumerate 0 input)" "length out0 = length input" by (simp_all add: out0_def)
  have "tot out0 = tot (enumerate 0 input)" by (rule tot_mset [OF m(1)])
  also have "\<dots> = sum_list (map unat (map snd (enumerate 0 input)))" unfolding tot_def map_map comp_def ..
  finally show "tot out0 = sum_list (map unat input)" by (simp add: map_snd_enumerate)
  show "input ! fst (out0 ! k) = snd (out0 ! k)" if "k < length out0"
  proof -
    have "out0 ! k \<in> set out0" using that by simp
    then have "out0 ! k \<in> set (enumerate 0 input)" unfolding mset_eq_setD [OF m(1)] .
    then show ?thesis by (auto simp: in_set_enumerate_eq)
  qed
  show "\<exists>k < length out0. fst (out0 ! k) = i" if "i < length input"
  proof -
    have "(i, input ! i) \<in> set out0" unfolding mset_eq_setD [OF m(1)] using that by (simp add: in_set_enumerate_eq)
    then show ?thesis by (force simp: in_set_conv_nth)
  qed
qed

lemma checked_sum_eq:
  "checked_sum ts (s :: 'w::len word) =
    (if unat s + sum_list (map unat ts) < 2 ^ LENGTH('w) then Some (of_nat (unat s + sum_list (map unat ts))) else None)"
proof (induction ts arbitrary: s)
  case (Cons t ts)
  show ?case
  proof (cases "unat s + unat t < 2 ^ LENGTH('w)")
    case True
    then have "unat (s + t) = unat s + unat t" using unat_add_lem by blast
    moreover from this have "checked_add s t = Some (s + t)" by (simp only: checked_add_eq_Some)
    ultimately show ?thesis using Cons [of "s + t"] by (simp add: add.assoc)
  next
    case False
    then have "checked_add s t = None" by (simp add: checked_add_eq_None)
    with False show ?thesis by simp
  qed
qed (use unat_less_power [of s] in simp)

lemma raises_keys: "raises a b \<Longrightarrow> map fst b = map fst a" "raises a b \<Longrightarrow> map fst a = map fst b"
  unfolding raises_def by (induction rule: list_all2_induct) auto

lemma resorted_all2:
  fixes input :: "'w::len word list" and out :: "'w indexed"
  defines "out0 \<equiv> sort_key snd (enumerate 0 input)"
  assumes keys: "map fst out = map fst out0"
    and rel: "\<And>k. k < length out0 \<Longrightarrow> R (snd (out0 ! k)) (snd (out ! k))"
  shows "list_all2 R input (map snd (sort_key fst out))"
proof -
  note r = resorted [OF sorted_input(1) [of input, folded out0_def] keys]
  have len: "length out = length out0" using keys by (rule map_eq_imp_length_eq)
  have "R (input ! i) (map snd (sort_key fst out) ! i)" if i: "i < length input" for i
  proof -
    obtain k where k: "k < length out0" "fst (out0 ! k) = i"
      using sorted_input(5) [OF i] by (auto simp: out0_def)
    have "fst (out ! k) = i" using arg_cong [OF keys, of "\<lambda>xs. xs ! k"] k len by simp
    moreover have "input ! i = snd (out0 ! k)"
      using sorted_input(4) [of k input, folded out0_def, OF k(1)] k(2) by simp
    ultimately show ?thesis using rel [OF k(1)] r(3) [of k] k(1) len by simp
  qed
  then show ?thesis using r(1) by (simp add: list_all2_conv_all_nth)
qed

lemma raises_resorted:
  fixes input :: "'w::len word list" and out :: "'w indexed"
  defines "out0 \<equiv> sort_key snd (enumerate 0 input)"
  shows "raises out0 out \<Longrightarrow> list_all2 (\<le>) input (map snd (sort_key fst out))"
    "raises out out0 \<Longrightarrow> list_all2 (\<ge>) input (map snd (sort_key fst out))"
    "raises out0 out \<or> raises out out0 \<Longrightarrow> sum_list (map unat (map snd (sort_key fst out))) = tot out"
proof -
  show "list_all2 (\<le>) input (map snd (sort_key fst out))" if g: "raises out0 out"
    using g unfolding out0_def
    by (intro resorted_all2 raises_keys(1) [OF g [unfolded out0_def]])
      (auto simp: raises_def list_all2_conv_all_nth word_le_nat_alt)
  show "list_all2 (\<ge>) input (map snd (sort_key fst out))" if g: "raises out out0"
    using g unfolding out0_def
    by (intro resorted_all2 raises_keys(2) [OF g [unfolded out0_def]])
      (auto simp: raises_def list_all2_conv_all_nth word_le_nat_alt)
  show "sum_list (map unat (map snd (sort_key fst out))) = tot out" if "raises out0 out \<or> raises out out0"
    using that raises_keys resorted(4) [OF sorted_input(1) [of input, folded out0_def]] by metis
qed

section \<open>Normalisation\<close>

lemma normalize_sum:
  fixes input :: "'w::len word list"
  shows "if 2 ^ LENGTH('w) \<le> sum_list (map unat input)
    then normalize_vec input target = Some (Inl ''sum of input cannot fit in `T`'')
    else if 2 ^ LENGTH('w) \<le> length input
    then normalize_vec input target = Some (Inl ''length of `inputs` cannot fit in `T`'')
    else \<exists>out. normalize_vec input target = Some (Inr out) \<and> length out = length input \<and>
      (input = [] \<or> sum_list (map unat out) = unat target) \<and>
      (if sum_list (map unat input) \<le> unat target then list_all2 (\<le>) input out else list_all2 (\<ge>) input out)"
proof (cases "2 ^ LENGTH('w) \<le> sum_list (map unat input) \<or> 2 ^ LENGTH('w) \<le> length input \<or> input = []")
  case True
  then show ?thesis by (auto simp: normalize_vec_def checked_sum_eq)
next
  case False
  define S n out0 where "S = sum_list (map unat input)" and "n = length input" and "out0 = sort_key snd (enumerate 0 input)"
  have fits: "S < 2 ^ LENGTH('w)" "n < 2 ^ LENGTH('w)" "0 < n" using False by (auto simp: S_def n_def)
  define sum_t count_t where "sum_t = (of_nat S :: 'w word)" and "count_t = (of_nat n :: 'w word)"
  have u: "unat sum_t = S" "unat count_t = n" using fits by (simp_all add: sum_t_def count_t_def unat_of_nat)
  define diff where "diff = max target sum_t - min target sum_t"
  have d: "unat diff = max (unat target) S - min (unat target) S"
    by (simp add: diff_def unat_sub word_le_nat_alt min_def max_def u)
  let ?p = "diff div count_t" and ?l = "diff mod count_t"
  have pl: "n * unat ?p + unat ?l = unat diff" by (simp add: unat_div unat_mod u)
  have o0: "length out0 = n" "tot out0 = S" "out0 \<noteq> []"
    using sorted_input(2,3) [of input, folded out0_def] fits(3) by (auto simp: n_def S_def)
  have run: "normalize_vec input target = (if diff = 0 then Some (Inr input)
      else do {
        out \<leftarrow> (if sum_t < target then bump (target div count_t) ?p ?l out0 else shrink (snd (hd out0)) ?p ?l out0);
        Some (Inr (map snd (sort_key fst out)))
      })"
    using False fits unfolding normalize_vec_def checked_sum_eq n_def [symmetric] S_def [symmetric]
    by (simp add: sum_t_def [symmetric] count_t_def [symmetric] diff_def [symmetric] out0_def [symmetric] Let_def)
  have refl: "list_all2 (\<le>) input input" "list_all2 (\<ge>) input input" by (simp_all add: list_all2_refl)
  consider "diff = 0" | "diff \<noteq> 0" "sum_t < target" | "diff \<noteq> 0" "\<not> sum_t < target" by blast
  then show ?thesis
  proof cases
    case 1
    then have "S = unat target" using d by (simp add: max_def min_def split: if_splits)
    then show ?thesis using 1 run refl False by (auto simp: S_def)
  next
    case 2
    then have "tot out0 + length out0 * unat ?p + unat ?l = unat target"
      using pl d o0 by (simp add: word_less_nat_alt u max_def min_def)
    then obtain out where out: "bump (target div count_t) ?p ?l out0 = Some out" "tot out = unat target" "raises out0 out"
      using bump_Some [OF o0(3), of ?p ?l "target div count_t"] unat_less_power [of target] by auto
    have "S \<le> unat target" using 2(2) by (simp add: word_less_nat_alt u)
    then show ?thesis
      using run 2 out raises_resorted(1,3) [where input = input and out = out, folded out0_def] False list_all2_lengthD [of "(\<le>)" input]
      by (simp add: S_def)
  next
    case 3
    then have "length out0 * unat ?p + unat ?l + unat target = tot out0"
      using pl d o0 by (simp add: word_less_nat_alt u max_def min_def split: if_splits)
    then obtain out where out: "shrink (snd (hd out0)) ?p ?l out0 = Some out" "tot out = unat target" "raises out out0"
      using shrink_Some [OF o0(3), of ?p ?l "snd (hd out0)"] fits(1) o0(2) by auto
    have "\<not> S \<le> unat target" using 3 d by (auto simp: word_less_nat_alt u max_def min_def unat_eq_zero split: if_splits)
    then show ?thesis
      using run 3 out raises_resorted(2,3) [where input = input and out = out, folded out0_def] False list_all2_lengthD [of "(\<ge>)" input]
      by (simp add: S_def)
  qed
qed

text \<open>Fractions survive the way through the wider type.\<close>

lemma from_parts_exact:
  fixes x :: "'u::len word" and acc :: "'i::len word"
  assumes "unat x \<le> unat acc"
  shows "unat (from_parts acc (saturated_into x)) = unat x"
proof -
  have "unat x < 2 ^ LENGTH('i)" using assms unat_less_power [of acc] by linarith
  then have "unat (saturated_into x :: 'i word) = unat x" by (simp add: saturated_into_def unat_cast_fits)
  then show ?thesis using assms by (simp add: from_parts_def unat_min)
qed

section \<open>Properties\<close>

text \<open>
  C39. Normalisation meets its target. It fails exactly if the sum or the number of the elements
  does not fit the integer type; otherwise it terminates without panicking and returns as many
  elements as it was given, whose sum is the target (for a nonempty input), and it only adds to
  elements when the target is not below the sum, and only subtracts otherwise.
\<close>

theorem normalize_meets_target:
  fixes input :: "'w::len word list"
  shows "if 2 ^ LENGTH('w) \<le> sum_list (map unat input)
    then normalize_vec input target = Some (Inl ''sum of input cannot fit in `T`'')
    else if 2 ^ LENGTH('w) \<le> length input
    then normalize_vec input target = Some (Inl ''length of `inputs` cannot fit in `T`'')
    else \<exists>out. normalize_vec input target = Some (Inr out) \<and> length out = length input \<and>
      (input = [] \<or> sum_list (map unat out) = unat target) \<and>
      (if sum_list (map unat input) \<le> unat target then list_all2 (\<le>) input out else list_all2 (\<ge>) input out)"
  by (rule normalize_sum)

text \<open>
  Normalising fractions to a fraction that is their sum's target returns fractions whose parts
  add up to the target exactly, computed in the wider type where the sum of the parts fits.
\<close>

lemma normalize_per_things_meets_target:
  fixes acc :: "'i::len word"
  assumes "per_thing TYPE('u::len) acc" "ps \<noteq> []" "target \<le> acc"
    and "sum_list (map unat ps) < 2 ^ LENGTH('u)" "length ps < 2 ^ LENGTH('u)"
  shows "\<exists>qs. normalize_per_things TYPE('u) acc ps target = Some (Inr qs) \<and> length qs = length ps \<and>
    sum_list (map unat qs) = unat target \<and> list_all (\<lambda>q. q \<le> acc) qs"
proof -
  have w: "LENGTH('i) \<le> LENGTH('u)" using assms(1) by (rule per_thing.inner_upper)
  have up: "unat (ucast p :: 'u word) = unat p" for p :: "'i word" using w by (rule unat_cast_up)
  let ?us = "map (\<lambda>p. ucast p :: 'u word) ps"
  have us: "map unat ?us = map unat ps" by (simp add: up)
  obtain out where out: "normalize_vec ?us (ucast target) = Some (Inr out)" "length out = length ps"
    "sum_list (map unat out) = unat target"
    using normalize_sum [of ?us "ucast target"] assms(2,4,5) unfolding us by (auto simp: up)
  let ?f = "\<lambda>i. from_parts acc (saturated_into i)"
  have "unat (?f x) = unat x" if "x \<in> set out" for x
  proof -
    have "unat x \<le> sum_list (map unat out)" using that by (intro member_le_sum_list) auto
    also have "\<dots> \<le> unat acc" using out(3) assms(3) by (simp add: word_le_nat_alt)
    finally show ?thesis by (rule from_parts_exact)
  qed
  then have "map unat (map ?f out) = map unat out" by simp
  then have "sum_list (map unat (map ?f out)) = unat target" by (simp only: out(3))
  moreover have "list_all (\<lambda>q. q \<le> acc) (map ?f out)" by (simp add: list_all_iff from_parts_def)
  ultimately show ?thesis using out by (simp add: normalize_per_things_def)
qed

end
