(* ===== verification/Lanes.thy ===== *)
theory Lanes
  imports Bridge_Errors
begin

text \<open>
  The two ends of a message lane: the data of \<open>bridges/primitives/messages/src/lib.rs\<close> and
  \<open>lane.rs\<close>, the inbound lane of \<open>bridges/modules/messages/src/inbound_lane.rs\<close> and the outbound
  lane of \<open>outbound_lane.rs\<close>. A lane here is its data; the messages pallet keeps it in storage.
  Nonces are 64-bit words. The field \<open>state\<close> of the two kinds of lane data and the fields
  \<open>begin\<close> and \<open>end\<close> of a range carry a prefix.

  The lemmas give the invariant of each end, that every operation keeps it, and what an operation
  does to the range of nonces it covers.
\<close>

type_synonym message_nonce = "64 word"

section \<open>Ranges of nonces\<close>

text \<open>The methods of \<open>RangeInclusiveExt\<close> on the range from \<open>start\<close> to \<open>stop\<close>.\<close>

definition checked_len :: "message_nonce \<Rightarrow> message_nonce \<Rightarrow> message_nonce option" where
  "checked_len start stop =
     (case checked_sub stop start of None \<Rightarrow> None | Some len \<Rightarrow> checked_add len 1)"

definition saturating_len :: "message_nonce \<Rightarrow> message_nonce \<Rightarrow> message_nonce" where
  "saturating_len start stop =
     (case checked_sub stop start of None \<Rightarrow> 0 | Some len \<Rightarrow> saturating_add len 1)"

record delivered_messages =
  dm_begin :: message_nonce
  dm_end :: message_nonce

definition delivered_new :: "message_nonce \<Rightarrow> delivered_messages" where
  "delivered_new n = \<lparr>dm_begin = n, dm_end = n\<rparr>"

definition total_messages :: "delivered_messages \<Rightarrow> message_nonce" where
  "total_messages self = saturating_len (dm_begin self) (dm_end self)"

definition note_dispatched_message :: "delivered_messages \<Rightarrow> delivered_messages" where
  "note_dispatched_message self = self\<lparr>dm_end := dm_end self + 1\<rparr>"

definition contains_message :: "delivered_messages \<Rightarrow> message_nonce \<Rightarrow> bool" where
  "contains_message self n \<longleftrightarrow> dm_begin self \<le> n \<and> n \<le> dm_end self"

section \<open>Lane data\<close>

datatype lane_state = Opened | Closed

fun is_active :: "lane_state \<Rightarrow> bool" where
  "is_active Opened = True"
| "is_active Closed = False"

record 'r unrewarded_relayer =
  relayer :: 'r
  messages :: delivered_messages

record 'r inbound_lane_data =
  relayers :: "'r unrewarded_relayer list"
  last_confirmed_nonce :: message_nonce
  in_state :: lane_state

definition inbound_default :: "'r inbound_lane_data" where
  "inbound_default = \<lparr>relayers = [], last_confirmed_nonce = 0, in_state = Closed\<rparr>"

definition inbound_opened :: "'r inbound_lane_data" where
  "inbound_opened = inbound_default\<lparr>in_state := Opened\<rparr>"

definition last_delivered_nonce :: "'r inbound_lane_data \<Rightarrow> message_nonce" where
  "last_delivered_nonce self =
     (if relayers self = [] then last_confirmed_nonce self else dm_end (messages (last (relayers self))))"

definition total_unrewarded_messages :: "'r inbound_lane_data \<Rightarrow> message_nonce" where
  "total_unrewarded_messages self =
     (if relayers self = [] then 0
      else saturating_len (dm_begin (messages (hd (relayers self)))) (dm_end (messages (last (relayers self)))))"

text \<open>\<open>relayer_len\<close> is \<open>UnrewardedRelayer::max_encoded_len()\<close>; sizes are 64-bit \<open>usize\<close> values.\<close>

definition encoded_size_hint :: "64 word \<Rightarrow> 64 word \<Rightarrow> 64 word option" where
  "encoded_size_hint relayer_len relayers_entries =
     (case checked_mul relayers_entries relayer_len of None \<Rightarrow> None | Some n \<Rightarrow> checked_add n 8)"

record unrewarded_relayers_state =
  unrewarded_relayer_entries :: message_nonce
  messages_in_oldest_entry :: message_nonce
  urs_total_messages :: message_nonce
  urs_last_delivered_nonce :: message_nonce

definition relayers_state_from :: "'r inbound_lane_data \<Rightarrow> unrewarded_relayers_state" where
  "relayers_state_from lane =
     \<lparr>unrewarded_relayer_entries = of_nat (length (relayers lane)),
      messages_in_oldest_entry =
        (case relayers lane of [] \<Rightarrow> 0 | entry # _ \<Rightarrow> total_messages (messages entry)),
      urs_total_messages = total_unrewarded_messages lane,
      urs_last_delivered_nonce = last_delivered_nonce lane\<rparr>"

definition relayers_state_is_valid :: "unrewarded_relayers_state \<Rightarrow> 'r inbound_lane_data \<Rightarrow> bool" where
  "relayers_state_is_valid self lane_data \<longleftrightarrow> self = relayers_state_from lane_data"

record outbound_lane_data =
  oldest_unpruned_nonce :: message_nonce
  latest_received_nonce :: message_nonce
  latest_generated_nonce :: message_nonce
  out_state :: lane_state

definition outbound_default :: outbound_lane_data where
  "outbound_default =
     \<lparr>oldest_unpruned_nonce = 1, latest_received_nonce = 0, latest_generated_nonce = 0, out_state = Closed\<rparr>"

definition outbound_opened :: outbound_lane_data where
  "outbound_opened = outbound_default\<lparr>out_state := Opened\<rparr>"

text \<open>The two ways to ask for the queued messages: of the data, and of the lane.\<close>

definition queued_messages :: "outbound_lane_data \<Rightarrow> message_nonce \<times> message_nonce" where
  "queued_messages self = (latest_received_nonce self + 1, latest_generated_nonce self)"

definition lane_queued_messages :: "outbound_lane_data \<Rightarrow> message_nonce \<times> message_nonce" where
  "lane_queued_messages data = (oldest_unpruned_nonce data, latest_generated_nonce data)"

section \<open>The inbound lane\<close>

text \<open>The loop that drops the entries all of whose messages are confirmed.\<close>

fun pop_confirmed :: "message_nonce \<Rightarrow> 'r unrewarded_relayer list \<Rightarrow> 'r unrewarded_relayer list" where
  "pop_confirmed new_confirmed_nonce [] = []"
| "pop_confirmed new_confirmed_nonce (entry # rest) =
     (if dm_end (messages entry) \<le> new_confirmed_nonce then pop_confirmed new_confirmed_nonce rest
      else entry # rest)"

definition trim_front :: "message_nonce \<Rightarrow> 'r unrewarded_relayer list \<Rightarrow> 'r unrewarded_relayer list" where
  "trim_front new_confirmed_nonce entries =
     (case entries of
        entry # rest \<Rightarrow>
          if dm_begin (messages entry) \<le> new_confirmed_nonce
          then entry\<lparr>messages := (messages entry)\<lparr>dm_begin := new_confirmed_nonce + 1\<rparr>\<rparr> # rest
          else entry # rest
      | [] \<Rightarrow> [])"

definition receive_state_update ::
  "outbound_lane_data \<Rightarrow> 'r inbound_lane_data \<Rightarrow> message_nonce option \<times> 'r inbound_lane_data" where
  "receive_state_update outbound_lane_data data =
     (if latest_received_nonce outbound_lane_data > last_delivered_nonce data then (None, data)
      else if latest_received_nonce outbound_lane_data \<le> last_confirmed_nonce data then (None, data)
      else
        let new_confirmed_nonce = latest_received_nonce outbound_lane_data
        in (Some (latest_received_nonce outbound_lane_data),
            data\<lparr>last_confirmed_nonce := new_confirmed_nonce,
                 relayers := trim_front new_confirmed_nonce (pop_confirmed new_confirmed_nonce (relayers data))\<rparr>))"

datatype 'd reception_result =
    Dispatched 'd | InvalidNonce | TooManyUnrewardedRelayers | TooManyUnconfirmedMessages

text \<open>
  The checks of \<open>receive_message\<close> before it dispatches, with \<open>None\<close> for a message that passes, and
  what it records afterwards.
\<close>

definition reject_message ::
  "message_nonce \<Rightarrow> message_nonce \<Rightarrow> message_nonce \<Rightarrow> 'r inbound_lane_data \<Rightarrow> 'd reception_result option" where
  "reject_message max_entries max_unconfirmed n data =
     (if Some n \<noteq> checked_add (last_delivered_nonce data) 1 then Some InvalidNonce
      else if max_entries \<le> of_nat (length (relayers data)) then Some TooManyUnrewardedRelayers
      else if max_unconfirmed < saturating_sub n (last_confirmed_nonce data) then Some TooManyUnconfirmedMessages
      else None)"

definition note_relayer ::
  "'r \<Rightarrow> message_nonce \<Rightarrow> 'r inbound_lane_data \<Rightarrow> 'r inbound_lane_data" where
  "note_relayer r n data =
     data\<lparr>relayers :=
       (if relayers data \<noteq> [] \<and> relayer (last (relayers data)) = r
        then butlast (relayers data) @
          [(last (relayers data))\<lparr>messages := note_dispatched_message (messages (last (relayers data)))\<rparr>]
        else relayers data @ [\<lparr>relayer = r, messages = delivered_new n\<rparr>])\<rparr>"

section \<open>The outbound lane\<close>

text \<open>
  The messages of an outbound lane are a map from nonces to payloads. \<open>confirm_delivery\<close> goes
  through the entries of the relayers, then removes the confirmed messages one by one.
\<close>

type_synonym 'p stored_messages = "message_nonce \<Rightarrow> 'p option"

definition send_message_lane ::
  "'p \<Rightarrow> outbound_lane_data \<times> 'p stored_messages \<Rightarrow> message_nonce \<times> outbound_lane_data \<times> 'p stored_messages" where
  "send_message_lane message_payload = (\<lambda>(data, stored).
     let n = latest_generated_nonce data + 1
     in (n, data\<lparr>latest_generated_nonce := n\<rparr>, stored(n := Some message_payload)))"

fun check_relayers ::
  "message_nonce \<Rightarrow> message_nonce option \<Rightarrow> 'r unrewarded_relayer list \<Rightarrow>
   reception_confirmation_error + unit" where
  "check_relayers latest_received expected_entry_begin [] = Inr ()"
| "check_relayers latest_received expected_entry_begin (entry # rest) =
     (if dm_end (messages entry) < dm_begin (messages entry) then Inl EmptyUnrewardedRelayerEntry
      else if expected_entry_begin \<noteq> Some (dm_begin (messages entry))
      then Inl NonConsecutiveUnrewardedRelayerEntries
      else if latest_received < dm_end (messages entry) then Inl FailedToConfirmFutureMessages
      else check_relayers latest_received (checked_add (dm_end (messages entry)) 1) rest)"

definition ensure_unrewarded_relayers_are_correct ::
  "message_nonce \<Rightarrow> 'r unrewarded_relayer list \<Rightarrow> reception_confirmation_error + unit" where
  "ensure_unrewarded_relayers_are_correct latest_received entries =
     check_relayers latest_received
       (case entries of [] \<Rightarrow> None | entry # _ \<Rightarrow> Some (dm_begin (messages entry))) entries"

text \<open>The range from \<open>start\<close> to \<open>stop\<close> as the loop visits it.\<close>

definition nonces :: "message_nonce \<Rightarrow> message_nonce \<Rightarrow> message_nonce list" where
  "nonces start stop = map of_nat [unat start ..< Suc (unat stop)]"

definition remove_messages :: "message_nonce list \<Rightarrow> 'p stored_messages \<Rightarrow> 'p stored_messages" where
  "remove_messages ns stored = fold (\<lambda>n m. m(n := None)) ns stored"

definition confirm_delivery ::
  "message_nonce \<Rightarrow> message_nonce \<Rightarrow> 'r unrewarded_relayer list \<Rightarrow> outbound_lane_data \<times> 'p stored_messages \<Rightarrow>
   (reception_confirmation_error + delivered_messages option) \<times> outbound_lane_data \<times> 'p stored_messages" where
  "confirm_delivery max_allowed_messages latest_delivered_nonce entries = (\<lambda>(data, stored).
     let confirmed_messages =
       \<lparr>dm_begin = saturating_add (latest_received_nonce data) 1, dm_end = latest_delivered_nonce\<rparr>
     in
     if total_messages confirmed_messages = 0 then (Inr None, data, stored)
     else if latest_generated_nonce data < dm_end confirmed_messages
     then (Inl FailedToConfirmFutureMessages, data, stored)
     else if max_allowed_messages < total_messages confirmed_messages
     then (Inl TryingToConfirmMoreMessagesThanExpected, data, stored)
     else
       case ensure_unrewarded_relayers_are_correct (dm_end confirmed_messages) entries of
         Inl e \<Rightarrow> (Inl e, data, stored)
       | Inr _ \<Rightarrow>
           (Inr (Some confirmed_messages),
            data\<lparr>latest_received_nonce := dm_end confirmed_messages,
                 oldest_unpruned_nonce := saturating_add (dm_end confirmed_messages) 1\<rparr>,
            remove_messages (nonces (dm_begin confirmed_messages) (dm_end confirmed_messages)) stored))"

definition remove_oldest_unpruned_message ::
  "outbound_lane_data \<times> 'p stored_messages \<Rightarrow> outbound_lane_data \<times> 'p stored_messages" where
  "remove_oldest_unpruned_message = (\<lambda>(data, stored).
     (data\<lparr>oldest_unpruned_nonce := oldest_unpruned_nonce data + 1\<rparr>,
      stored(oldest_unpruned_nonce data := None)))"

section \<open>Rewards of relayers\<close>

text \<open>
  \<open>calc_relayers_rewards\<close>: the rewards are a map keyed by relayer (a \<open>BTreeMap\<close>), here a function
  with \<open>None\<close> for a relayer without entry.
\<close>

definition add_reward ::
  "message_nonce \<Rightarrow> message_nonce \<Rightarrow> 'r unrewarded_relayer \<Rightarrow> ('r \<Rightarrow> message_nonce option) \<Rightarrow>
   'r \<Rightarrow> message_nonce option" where
  "add_reward start stop entry rewards =
     (let nonce_begin = max (dm_begin (messages entry)) start;
          nonce_end = min (dm_end (messages entry)) stop
      in if nonce_end \<ge> nonce_begin
         then rewards(relayer entry \<mapsto>
           saturating_add (case rewards (relayer entry) of Some x \<Rightarrow> x | None \<Rightarrow> 0)
             (saturating_len nonce_begin nonce_end))
         else rewards)"

definition calc_relayers_rewards ::
  "'r unrewarded_relayer list \<Rightarrow> message_nonce \<Rightarrow> message_nonce \<Rightarrow> 'r \<Rightarrow> message_nonce option" where
  "calc_relayers_rewards messages_relayers start stop =
     fold (add_reward start stop) messages_relayers Map.empty"

section \<open>The entries of relayers\<close>

text \<open>
  \<open>covers lo entries hi\<close>: the entries are nonempty ranges that follow one another and together hold
  the nonces after \<open>lo\<close> up to \<open>hi\<close>.
\<close>

fun covers :: "nat \<Rightarrow> 'r unrewarded_relayer list \<Rightarrow> nat \<Rightarrow> bool" where
  "covers lo [] hi \<longleftrightarrow> hi = lo"
| "covers lo (entry # rest) hi \<longleftrightarrow>
     unat (dm_begin (messages entry)) = Suc lo \<and> dm_begin (messages entry) \<le> dm_end (messages entry) \<and>
     covers (unat (dm_end (messages entry))) rest hi"

definition inbound_ok :: "'r inbound_lane_data \<Rightarrow> bool" where
  "inbound_ok data \<longleftrightarrow>
     covers (unat (last_confirmed_nonce data)) (relayers data) (unat (last_delivered_nonce data))"

lemma unat_Suc64: "unat x < 2 ^ 64 - 1 \<Longrightarrow> unat (x + 1) = Suc (unat x)" for x :: "64 word"
  by (simp add: unat_word_ariths)

lemma less_not_max: "x < y \<Longrightarrow> unat x < 2 ^ 64 - 1" for x y :: "64 word"
  using unat_less_power [of y] by (simp add: word_less_nat_alt)

lemma unat_saturating_len: "unat (saturating_len a b) = (if a \<le> b then Suc (unat b - unat a) else 0)" if "unat a \<noteq> 0"
proof (cases "a \<le> b")
  case True
  then have d: "checked_sub b a = Some (b - a)" "unat (b - a) = unat b - unat a"
    by (auto simp: checked_sub_def unat_sub word_le_nat_alt)
  have "Suc (unat b - unat a) < 2 ^ 64" using unat_less_power [of b] True that by (simp add: word_le_nat_alt)
  then show ?thesis using True d by (simp add: saturating_len_def unat_saturating_add)
next
  case False
  then have "checked_sub b a = None" by (simp add: checked_sub_def)
  with False show ?thesis by (simp add: saturating_len_def)
qed

lemma covers_le: "covers lo es hi \<Longrightarrow> lo \<le> hi"
  by (induction lo es hi rule: covers.induct) (auto simp: word_le_nat_alt)

lemma covers_last: "covers lo es hi \<Longrightarrow> es \<noteq> [] \<Longrightarrow> unat (dm_end (messages (last es))) = hi"
  by (induction es arbitrary: lo) (auto split: if_splits)

lemma covers_less: "covers lo es hi \<Longrightarrow> es \<noteq> [] \<Longrightarrow> lo < hi"
  using covers_le by (cases es) (fastforce simp: word_le_nat_alt)+

lemma covers_append: "covers lo (es @ fs) hi \<longleftrightarrow> (\<exists>m. covers lo es m \<and> covers m fs hi)"
  by (induction es arbitrary: lo) auto

lemma inbound_ok_covers:
  assumes "covers (unat (last_confirmed_nonce d)) (relayers d) hi"
  shows "inbound_ok d" "unat (last_delivered_nonce d) = hi"
proof -
  show "unat (last_delivered_nonce d) = hi"
    using assms covers_last [OF assms] by (cases "relayers d = []") (auto simp: last_delivered_nonce_def)
  with assms show "inbound_ok d" by (simp add: inbound_ok_def)
qed

lemma covers_confirm:
  assumes "covers lo es hi" "lo \<le> unat c" "unat c \<le> hi"
  shows "covers (unat c) (trim_front c (pop_confirmed c es)) hi"
  using assms
proof (induction es arbitrary: lo)
  case Nil
  then show ?case by (simp add: trim_front_def)
next
  case (Cons e es)
  show ?case
  proof (cases "dm_end (messages e) \<le> c")
    case True
    then show ?thesis using Cons.IH [of "unat (dm_end (messages e))"] Cons.prems by (simp add: word_le_nat_alt)
  next
    case False
    then have "c < dm_end (messages e)" by (simp add: not_le)
    from unat_Suc64 [OF less_not_max [OF this]] have c: "unat (c + 1) = Suc (unat c)" .
    have "c + 1 \<le> dm_end (messages e)" using c False by (simp add: word_le_nat_alt)
    moreover have "unat c = lo" if "\<not> dm_begin (messages e) \<le> c"
      using that Cons.prems by (simp add: word_le_nat_alt)
    ultimately show ?thesis using False c Cons.prems by (auto simp: trim_front_def)
  qed
qed

lemma receive_state_update_ok:
  assumes "inbound_ok d" "receive_state_update out d = (r, d')"
  shows "inbound_ok d' \<and> last_delivered_nonce d' = last_delivered_nonce d \<and> in_state d' = in_state d \<and>
    last_confirmed_nonce d' =
      (if latest_received_nonce out \<le> last_delivered_nonce d
       then max (last_confirmed_nonce d) (latest_received_nonce out) else last_confirmed_nonce d)"
proof (cases "last_confirmed_nonce d < latest_received_nonce out \<and> latest_received_nonce out \<le> last_delivered_nonce d")
  case True
  let ?c = "latest_received_nonce out"
  have d': "d' = d\<lparr>last_confirmed_nonce := ?c, relayers := trim_front ?c (pop_confirmed ?c (relayers d))\<rparr>"
    using assms(2) leD [OF conjunct2 [OF True]] conjunct1 [OF True]
    by (simp add: receive_state_update_def Let_def not_le [symmetric])
  have "covers (unat ?c) (trim_front ?c (pop_confirmed ?c (relayers d))) (unat (last_delivered_nonce d))"
    using assms(1) True by (intro covers_confirm) (auto simp: inbound_ok_def word_le_nat_alt word_less_nat_alt)
  then have "inbound_ok d'" "unat (last_delivered_nonce d') = unat (last_delivered_nonce d)"
    using inbound_ok_covers [of d'] by (simp_all add: d')
  then show ?thesis using True d' less_imp_le [OF conjunct1 [OF True]] by (simp add: word_unat_eq_iff [symmetric] max_def)
next
  case False
  then have "d' = d" using assms(2) by (auto simp: receive_state_update_def split: if_splits)
  with False assms(1) show ?thesis by (auto simp: max_def)
qed

lemma reject_message_None:
  "reject_message me mu n d = None \<longleftrightarrow>
     unat n = Suc (unat (last_delivered_nonce d)) \<and> of_nat (length (relayers d)) < me \<and>
     saturating_sub n (last_confirmed_nonce d) \<le> mu"
proof -
  have "Some n = checked_add (last_delivered_nonce d) 1 \<longleftrightarrow> unat n = Suc (unat (last_delivered_nonce d))"
    using checked_add_eq_Some [of "last_delivered_nonce d" 1 n] by auto
  then show ?thesis by (simp add: reject_message_def not_le not_less)
qed

lemma note_relayer_ok:
  assumes "inbound_ok d" "unat n = Suc (unat (last_delivered_nonce d))"
  shows "inbound_ok (note_relayer r n d) \<and> last_delivered_nonce (note_relayer r n d) = n \<and>
    last_confirmed_nonce (note_relayer r n d) = last_confirmed_nonce d \<and>
    in_state (note_relayer r n d) = in_state d"
proof -
  let ?d = "note_relayer r n d" and ?es = "relayers d"
  have cov: "covers (unat (last_confirmed_nonce d)) ?es (unat (last_delivered_nonce d))"
    using assms(1) by (simp add: inbound_ok_def)
  have "covers (unat (last_confirmed_nonce d)) (relayers ?d) (unat n)"
  proof (cases "?es \<noteq> [] \<and> relayer (last ?es) = r")
    case True
    let ?e = "last ?es"
    have es: "?es = butlast ?es @ [?e]" using True by simp
    then obtain m where m: "covers (unat (last_confirmed_nonce d)) (butlast ?es) m" "covers m [?e] (unat (last_delivered_nonce d))"
      using cov covers_append by metis
    have "unat (dm_end (messages ?e) + 1) = unat n"
      using m(2) assms(2) unat_less_power [of n] by (simp add: unat_word_ariths)
    then have "covers m [?e\<lparr>messages := note_dispatched_message (messages ?e)\<rparr>] (unat n)"
      using m(2) assms(2) by (auto simp: note_dispatched_message_def word_le_nat_alt)
    with m(1) True show ?thesis by (auto simp: note_relayer_def covers_append)
  next
    case False
    then show ?thesis using cov assms(2) by (auto simp: note_relayer_def covers_append delivered_new_def)
  qed
  with inbound_ok_covers [of ?d "unat n"] show ?thesis by (simp add: note_relayer_def word_unat_eq_iff)
qed

lemma total_unrewarded_covers:
  assumes "covers lo (relayers d) hi"
  shows "unat (total_unrewarded_messages d) = hi - lo"
proof (cases "relayers d")
  case Nil
  with assms show ?thesis by (simp add: total_unrewarded_messages_def)
next
  case (Cons e es)
  have b: "unat (dm_begin (messages (hd (relayers d)))) = Suc lo" using assms Cons by simp
  have e: "unat (dm_end (messages (last (relayers d)))) = hi" using covers_last [OF assms] Cons by simp
  have "lo < hi" using covers_less [OF assms] Cons by simp
  then show ?thesis using Cons b e unat_saturating_len [of "dm_begin (messages (hd (relayers d)))"]
    by (simp add: total_unrewarded_messages_def word_le_nat_alt)
qed

text \<open>What the source chain checks of the entries holds of every inbound lane.\<close>

lemma check_relayers_covers:
  assumes "covers lo es hi" "hi \<le> unat latest" "es = [] \<or> start = Some (dm_begin (messages (hd es)))"
  shows "check_relayers latest start es = Inr ()"
  using assms
proof (induction es arbitrary: lo start)
  case (Cons e es)
  have "unat (dm_end (messages e)) \<le> hi" using covers_le Cons.prems(1) by fastforce
  then have le: "unat (dm_end (messages e)) \<le> unat latest" using Cons.prems(2) by (rule order_trans)
  have "es = [] \<or> checked_add (dm_end (messages e)) 1 = Some (dm_begin (messages (hd es)))"
    using Cons.prems(1) by (cases es) (auto simp: checked_add_eq_Some)
  then have "check_relayers latest (checked_add (dm_end (messages e)) 1) es = Inr ()"
    using Cons.IH [of "unat (dm_end (messages e))"] Cons.prems by simp
  with Cons.prems le show ?case by (simp add: not_less word_le_nat_alt word_less_nat_alt)
qed simp

lemma relayers_correct:
  "covers lo es hi \<Longrightarrow> hi \<le> unat latest \<Longrightarrow> ensure_unrewarded_relayers_are_correct latest es = Inr ()"
  unfolding ensure_unrewarded_relayers_are_correct_def
  by (rule check_relayers_covers) (auto split: list.split)

section \<open>The outbound lane keeps its messages\<close>

text \<open>
  The messages kept are exactly those that are generated and not yet confirmed. The bound leaves
  room for the nonce after the last one.
\<close>

definition outbound_ok :: "outbound_lane_data \<times> 'p stored_messages \<Rightarrow> bool" where
  "outbound_ok = (\<lambda>(data, stored).
     unat (oldest_unpruned_nonce data) = Suc (unat (latest_received_nonce data)) \<and>
     latest_received_nonce data \<le> latest_generated_nonce data \<and>
     unat (latest_generated_nonce data) < 2 ^ 64 - 1 \<and>
     (\<forall>n. stored n \<noteq> None \<longleftrightarrow> latest_received_nonce data < n \<and> n \<le> latest_generated_nonce data))"

lemma outbound_opened_ok: "outbound_ok (outbound_opened, Map.empty)"
  by (auto simp: outbound_ok_def outbound_opened_def outbound_default_def)

lemma send_message_ok:
  assumes ok: "outbound_ok (d, m)" and room: "unat (latest_generated_nonce d) + 1 < 2 ^ 64 - 1"
    and run: "send_message_lane p (d, m) = (n, d', m')"
  shows "outbound_ok (d', m')" "unat n = Suc (unat (latest_generated_nonce d))"
    "latest_generated_nonce d' = n" "latest_received_nonce d' = latest_received_nonce d"
    "m' = m(n := Some p)" "out_state d' = out_state d"
proof -
  have n: "n = latest_generated_nonce d + 1" "d' = d\<lparr>latest_generated_nonce := n\<rparr>" "m' = m(n := Some p)"
    using run by (auto simp: send_message_lane_def Let_def)
  show u: "unat n = Suc (unat (latest_generated_nonce d))" using room n(1) by (simp add: unat_Suc64)
  show "latest_generated_nonce d' = n" "latest_received_nonce d' = latest_received_nonce d"
    "m' = m(n := Some p)" "out_state d' = out_state d" using n by simp_all
  show "outbound_ok (d', m')"
    using ok u room n by (auto simp: outbound_ok_def word_le_nat_alt word_less_nat_alt word_unat_eq_iff le_Suc_eq)
qed

lemma set_nonces: "a \<in> set (nonces b c) \<longleftrightarrow> b \<le> a \<and> a \<le> c"
proof -
  have "\<exists>k\<in>{unat b..<Suc (unat c)}. a = of_nat k" if "b \<le> a" "a \<le> c"
    using that by (intro bexI [of _ "unat a"]) (simp_all add: word_le_nat_alt less_Suc_eq_le)
  moreover have "b \<le> of_nat k \<and> (of_nat k :: 64 word) \<le> c" if "unat b \<le> k" "k \<le> unat c" for k
  proof -
    have "unat (of_nat k :: 64 word) = k" using that unat_less_power [of c] by (simp add: unat_of_nat)
    with that show ?thesis by (simp add: word_le_nat_alt)
  qed
  ultimately show ?thesis by (auto simp: nonces_def less_Suc_eq_le image_iff simp del: upt_Suc)
qed

lemma remove_messages_at: "remove_messages ns m n = (if n \<in> set ns then None else m n)"
  by (induction ns arbitrary: m) (auto simp: remove_messages_def)

text \<open>
  A confirmation whose entries cover the nonces up to the last delivered one never fails, unless
  it claims more messages than were sent or than the caller declared.
\<close>

lemma confirm_delivery_run:
  assumes ok: "outbound_ok (d, m)" and cov: "covers lo es (unat ld)"
    and sent: "ld \<le> latest_generated_nonce d" and allowed: "unat ld - unat (latest_received_nonce d) \<le> unat allowed"
  shows "confirm_delivery allowed ld es (d, m) =
    (if ld \<le> latest_received_nonce d then (Inr None, d, m)
     else (Inr (Some \<lparr>dm_begin = latest_received_nonce d + 1, dm_end = ld\<rparr>),
       d\<lparr>latest_received_nonce := ld, oldest_unpruned_nonce := ld + 1\<rparr>,
       (\<lambda>n. if latest_received_nonce d < n \<and> n \<le> ld then None else m n)))"
proof -
  let ?r = "latest_received_nonce d"
  have bounds: "unat ?r < 2 ^ 64 - 1" "unat ld < 2 ^ 64 - 1"
    using ok sent by (auto simp: outbound_ok_def word_le_nat_alt)
  have r1: "saturating_add ?r 1 = ?r + 1" "unat (?r + 1) = Suc (unat ?r)" and l1: "saturating_add ld 1 = ld + 1"
    using bounds by (simp_all add: word_unat_eq_iff unat_saturating_add unat_Suc64)
  have len: "unat (saturating_len (?r + 1) ld) = unat ld - unat ?r"
    using r1(2) by (simp add: unat_saturating_len word_le_nat_alt Suc_diff_Suc)
  have some: "?r < n \<longleftrightarrow> ?r + 1 \<le> n" for n using r1(2) by (simp add: word_le_nat_alt word_less_nat_alt Suc_le_eq)
  have zero: "saturating_len (?r + 1) ld = 0 \<longleftrightarrow> ld \<le> ?r"
    using len by (simp add: word_unat_eq_iff word_le_nat_alt)
  have "ensure_unrewarded_relayers_are_correct ld es = Inr ()" by (rule relayers_correct [OF cov order_refl])
  then show ?thesis
    using sent allowed len
    by (auto simp: confirm_delivery_def Let_def total_messages_def r1 l1 zero fun_eq_iff remove_messages_at
        set_nonces some not_less word_le_nat_alt word_less_nat_alt)
qed

section \<open>Rewards count messages\<close>

definition reward_of :: "('r \<Rightarrow> message_nonce option) \<Rightarrow> 'r \<Rightarrow> nat" where
  "reward_of rewards r = (case rewards r of Some x \<Rightarrow> unat x | None \<Rightarrow> 0)"

definition delivered_by :: "'r \<Rightarrow> 'r unrewarded_relayer list \<Rightarrow> nat set" where
  "delivered_by r es =
     (\<Union>e\<in>{e \<in> set es. relayer e = r}. {unat (dm_begin (messages e))..unat (dm_end (messages e))})"

lemma delivered_by_covers: "covers lo es hi \<Longrightarrow> delivered_by r es \<subseteq> {Suc lo..hi}"
proof (induction lo es hi rule: covers.induct)
  case (2 lo e es hi)
  then have "delivered_by r es \<subseteq> {Suc (unat (dm_end (messages e)))..hi}" by simp
  moreover have "Suc lo = unat (dm_begin (messages e))" "dm_begin (messages e) \<le> dm_end (messages e)"
    "unat (dm_end (messages e)) \<le> hi" using 2 covers_le by auto
  ultimately show ?case by (fastforce simp: delivered_by_def word_le_nat_alt)
qed (simp add: delivered_by_def)

lemma add_reward_one:
  assumes b: "unat (dm_begin (messages e)) \<noteq> 0"
    and room: "reward_of m (relayer e) + (Suc (unat (dm_end (messages e))) - unat (dm_begin (messages e))) < 2 ^ 64"
  shows "reward_of (add_reward s t e m) r = reward_of m r +
    (if relayer e = r
     then card ({unat s..unat t} \<inter> {unat (dm_begin (messages e))..unat (dm_end (messages e))}) else 0)"
proof -
  let ?b = "max (dm_begin (messages e)) s" and ?e = "min (dm_end (messages e)) t"
  have set: "{unat s..unat t} \<inter> {unat (dm_begin (messages e))..unat (dm_end (messages e))} = {unat ?b..unat ?e}"
    by (auto simp: max_def min_def word_le_nat_alt)
  have nz: "unat ?b \<noteq> 0" using b by (simp add: max_def word_le_nat_alt)
  have "unat ?e \<le> unat (dm_end (messages e))" "unat (dm_begin (messages e)) \<le> unat ?b"
    by (simp_all add: max_def min_def word_le_nat_alt)
  then have "Suc (unat ?e) - unat ?b \<le> Suc (unat (dm_end (messages e))) - unat (dm_begin (messages e))"
    by (meson Suc_le_mono diff_le_mono diff_le_mono2 le_trans)
  with room have room': "reward_of m (relayer e) + card {unat ?b..unat ?e} < 2 ^ 64" by simp
  have len: "unat (saturating_len ?b ?e) = card {unat ?b..unat ?e}"
    using unat_saturating_len [OF nz, of ?e] by (auto simp: word_le_nat_alt Suc_diff_le)
  have "unat (saturating_add x (saturating_len ?b ?e)) = unat x + card {unat ?b..unat ?e}"
    if "unat x = reward_of m (relayer e)" for x
    using saturating_add_exact [of x "saturating_len ?b ?e"] that len room' by simp
  then have add: "reward_of (add_reward s t e m) (relayer e) = reward_of m (relayer e) + card {unat ?b..unat ?e}"
    by (cases "m (relayer e)") (auto simp: add_reward_def Let_def reward_of_def word_le_nat_alt)
  have "reward_of (add_reward s t e m) r = reward_of m r" if "relayer e \<noteq> r"
    using that by (simp add: add_reward_def Let_def reward_of_def)
  with add show ?thesis unfolding set by (cases "relayer e = r") simp_all
qed

lemma rewards_fold:
  assumes "covers lo es hi" "\<And>r. reward_of m r + (hi - lo) < 2 ^ 64"
  shows "reward_of (fold (add_reward s t) es m) r = reward_of m r + card ({unat s..unat t} \<inter> delivered_by r es)"
  using assms
proof (induction es arbitrary: lo m)
  case (Cons e es)
  let ?b = "unat (dm_begin (messages e))" and ?e = "unat (dm_end (messages e))"
  let ?here = "if relayer e = r then {?b..?e} else {}"
  have e: "?b = Suc lo" "?b \<le> ?e" "covers ?e es hi" "?e \<le> hi"
    using Cons.prems(1) covers_le by (auto simp: word_le_nat_alt)
  have one: "reward_of (add_reward s t e m) k =
      reward_of m k + (if relayer e = k then card ({unat s..unat t} \<inter> {?b..?e}) else 0)" for k
    using add_reward_one [of e m s t k] Cons.prems(2) [of "relayer e"] e by simp
  have "card ({unat s..unat t} \<inter> {?b..?e}) \<le> card {?b..?e}" by (rule card_mono) auto
  then have le: "card ({unat s..unat t} \<inter> {?b..?e}) \<le> ?e - lo" using e by simp
  have room: "reward_of (add_reward s t e m) k + (hi - ?e) < 2 ^ 64" for k
  proof -
    have "reward_of (add_reward s t e m) k \<le> reward_of m k + (?e - lo)" using one [of k] le by simp
    moreover have "?e - lo + (hi - ?e) = hi - lo" using e by simp
    ultimately show ?thesis using Cons.prems(2) [of k] by linarith
  qed
  have split: "delivered_by r (e # es) = ?here \<union> delivered_by r es" by (auto simp: delivered_by_def)
  have "?here \<inter> delivered_by r es = {}" using delivered_by_covers [OF e(3), of r] by auto
  then have "card ({unat s..unat t} \<inter> delivered_by r (e # es)) =
      card ({unat s..unat t} \<inter> ?here) + card ({unat s..unat t} \<inter> delivered_by r es)"
    unfolding split Int_Un_distrib by (intro card_Un_disjoint) auto
  then show ?case using Cons.IH [OF e(3) room] one [of r] by simp
qed (simp add: delivered_by_def)

lemma rewards_exact:
  assumes "covers lo es hi" "hi < 2 ^ 64"
  shows "reward_of (calc_relayers_rewards es s t) r = card ({unat s..unat t} \<inter> delivered_by r es)"
  using rewards_fold [OF assms(1), of Map.empty s t r] assms(2)
  by (simp add: calc_relayers_rewards_def reward_of_def)

text \<open>
  C10. For a lane whose entries of relayers are as the pallet keeps them, the rewards computed for a
  range of nonces give every relayer exactly the number of messages in the range that the relayer
  delivered.
\<close>

theorem relayer_rewards_exact:
  assumes "inbound_ok e"
  shows "reward_of (calc_relayers_rewards (relayers e) start stop) r =
    card ({unat start..unat stop} \<inter> delivered_by r (relayers e))"
proof (rule rewards_exact)
  show "covers (unat (last_confirmed_nonce e)) (relayers e) (unat (last_delivered_nonce e))"
    using assms by (simp add: inbound_ok_def)
  show "unat (last_delivered_nonce e) < 2 ^ 64" using unat_less_power [of "last_delivered_nonce e"] by simp
qed

theorem relayer_rewards_exact_witness:
  "reward_of (calc_relayers_rewards [\<lparr>relayer = 2 :: nat, messages = \<lparr>dm_begin = 3, dm_end = 5\<rparr>\<rparr>] 4 6) 2
   = card ({4..6} \<inter> {3..5 :: nat})"
proof -
  let ?es = "[\<lparr>relayer = 2 :: nat, messages = \<lparr>dm_begin = 3, dm_end = 5\<rparr>\<rparr>]"
  let ?e = "\<lparr>relayers = ?es, last_confirmed_nonce = 2, in_state = Opened\<rparr>"
  have ok: "inbound_ok ?e" by (simp add: inbound_ok_def last_delivered_nonce_def)
  have by_2: "delivered_by 2 ?es = {3..5}" by (simp add: delivered_by_def)
  have n: "unat (4 :: message_nonce) = 4" "unat (6 :: message_nonce) = 6" by simp_all
  from relayer_rewards_exact [OF ok, of 4 6 2] show ?thesis unfolding inbound_lane_data.select_convs by_2 n .
qed

end
