(* ===== verification/Messages.thy ===== *)
theory Messages
  imports Runtime Origins Lanes
begin

text \<open>
  The bridge messages pallet: its storage, the lanes manager (\<open>lanes_manager.rs\<close>), the proofs it
  verifies (\<open>proofs.rs\<close>), its calls and the interface for senders (\<open>lib.rs\<close>), and the checks on
  transactions before they enter a block (\<open>call_ext.rs\<close> and \<open>call_info.rs\<close>), all of
  \<open>bridges/modules/messages/src\<close> and \<open>bridges/primitives/messages/src\<close>.

  The storage items extend the runtime state. What other crates supply is a field of the
  configuration: the dispatcher of messages, the handlers of payments, the weights, and the
  verification of storage proofs by the pallet that follows the bridged chain, of which
  \<open>header_chain\<close> returns a reader. The events of this pallet are kept in a list of their own.
\<close>

section \<open>Weights\<close>

record weight =
  ref_time :: "64 word"
  proof_size :: "64 word"

definition weight_any_gt :: "weight \<Rightarrow> weight \<Rightarrow> bool" where
  "weight_any_gt self other \<longleftrightarrow> ref_time self > ref_time other \<or> proof_size self > proof_size other"

definition weight_min :: "weight \<Rightarrow> weight \<Rightarrow> weight" where
  "weight_min self other =
     \<lparr>ref_time = min (ref_time self) (ref_time other), proof_size = min (proof_size self) (proof_size other)\<rparr>"

definition weight_sub :: "weight \<Rightarrow> weight \<Rightarrow> weight" where
  "weight_sub self rhs =
     \<lparr>ref_time = ref_time self - ref_time rhs, proof_size = proof_size self - proof_size rhs\<rparr>"

definition weight_saturating_sub :: "weight \<Rightarrow> weight \<Rightarrow> weight" where
  "weight_saturating_sub self rhs =
     \<lparr>ref_time = saturating_sub (ref_time self) (ref_time rhs),
      proof_size = saturating_sub (proof_size self) (proof_size rhs)\<rparr>"

section \<open>State and configuration\<close>

datatype basic_operating_mode = Normal | Halted

datatype messages_operating_mode = Basic basic_operating_mode | RejectingOutboundMessages

fun is_halted_mode :: "messages_operating_mode \<Rightarrow> bool" where
  "is_halted_mode (Basic mode) \<longleftrightarrow> mode = Halted"
| "is_halted_mode RejectingOutboundMessages \<longleftrightarrow> False"

type_synonym payload = "8 word list"
type_synonym 'l message_key = "'l \<times> message_nonce"

record 'd message_dispatch_result =
  unspent_weight :: weight
  dispatch_level_result :: 'd

datatype ('l, 'd) messages_event =
    MessageAccepted 'l message_nonce
  | MessagesReceived 'l "(message_nonce \<times> 'd message_dispatch_result reception_result) list"
  | MessagesDelivered 'l delivered_messages

record ('a, 'l, 'r, 'd) messages_runtime = "'a runtime" +
  pallet_owner :: "'a option"
  operating_mode :: messages_operating_mode
  inbound_lanes :: "'l \<Rightarrow> 'r inbound_lane_data option"
  outbound_lanes :: "'l \<Rightarrow> outbound_lane_data option"
  outbound_messages :: "'l message_key \<Rightarrow> payload option"
  message_events :: "(phase \<times> ('l, 'd) messages_event) list"

text \<open>The keys a storage proof is read at, and the reader of a verified proof.\<close>

datatype 'l proof_key = Key_Message "'l message_key" | Key_OutboundLane 'l | Key_InboundLane 'l

record ('l, 'a) proof_reader =
  read_message :: "'l message_key \<Rightarrow> storage_proof_error + payload"
  read_outbound_lane :: "'l \<Rightarrow> storage_proof_error + outbound_lane_data option"
  read_inbound_lane :: "'l \<Rightarrow> storage_proof_error + 'a inbound_lane_data"
  no_unused_keys :: "'l proof_key list \<Rightarrow> storage_proof_error + unit"

record ('h, 'q, 'l) messages_proof =
  bridged_header_hash :: 'h
  storage_proof :: 'q
  proof_lane :: 'l
  nonces_start :: message_nonce
  nonces_end :: message_nonce

record ('h, 'q, 'l) delivery_proof =
  d_bridged_header_hash :: 'h
  d_storage_proof :: 'q
  d_proof_lane :: 'l

record ('a, 'l, 'r, 'd, 'h, 'q, 's) messages_config =
  max_unrewarded_relayers :: message_nonce
  max_unconfirmed_messages :: message_nonce
  maximal_incoming_message_size :: u32
  relayer_max_encoded_len :: "64 word"
  dispatch_is_active :: "'l \<Rightarrow> 's \<Rightarrow> bool"
  dispatch_weight :: "'l message_key \<Rightarrow> payload \<Rightarrow> 's \<Rightarrow> weight"
  dispatch :: "'l message_key \<Rightarrow> payload \<Rightarrow> 's \<Rightarrow> 'd message_dispatch_result \<times> 's"
  delivery_payments :: "'a \<Rightarrow> message_nonce \<Rightarrow> message_nonce \<Rightarrow> weight \<Rightarrow> 's \<Rightarrow> 's"
  confirmation_payments ::
    "'l \<Rightarrow> 'a unrewarded_relayer list \<Rightarrow> 'a \<Rightarrow> message_nonce \<times> message_nonce \<Rightarrow> 's \<Rightarrow> message_nonce \<times> 's"
  on_messages_delivered :: "'l \<Rightarrow> message_nonce \<Rightarrow> 's \<Rightarrow> 's"
  receive_messages_proof_weight :: "('h, 'q, 'l) messages_proof \<Rightarrow> u32 \<Rightarrow> weight \<Rightarrow> weight"
  delivery_proof_weight :: "('h, 'q, 'l) delivery_proof \<Rightarrow> unrewarded_relayers_state \<Rightarrow> weight"
  header_chain :: "'h \<Rightarrow> 'q \<Rightarrow> 's \<Rightarrow> header_chain_error + ('l, 'a) proof_reader"

type_synonym ('a, 'l, 'r, 'd, 'm) mstate = "('a, 'l, 'r, 'd, 'm) messages_runtime_scheme"

type_synonym ('a, 'l, 'r, 'd, 'h, 'q, 'm) mcfg =
  "('a, 'l, 'r, 'd, 'h, 'q, ('a, 'l, 'r, 'd, 'm) mstate) messages_config"

definition deposit_message_event ::
  "('l, 'd) messages_event \<Rightarrow> ('a, 'l, 'r, 'd, 'm) mstate \<Rightarrow> ('a, 'l, 'r, 'd, 'm) mstate" where
  "deposit_message_event event s =
     (if block_number s = 0 then s
      else
        let phase = (case execution_phase s of None \<Rightarrow> Initialization | Some p \<Rightarrow> p)
        in case checked_add (event_count s) 1 of
             None \<Rightarrow> s
           | Some n \<Rightarrow> s\<lparr>event_count := n, message_events := message_events s @ [(phase, event)]\<rparr>)"

section \<open>Owner and operating mode\<close>

definition ensure_owner_or_root ::
  "'a raw_origin \<Rightarrow> (('a, 'l, 'r, 'd, 'm) mstate, dispatch_error, unit) comp" where
  "ensure_owner_or_root origin s =
     (case origin of
        Root \<Rightarrow> (Inr (), s)
      | Signed signer \<Rightarrow> if pallet_owner s = Some signer then (Inr (), s) else (Inl DE_BadOrigin, s)
      | _ \<Rightarrow> (Inl DE_BadOrigin, s))"

definition ensure_not_halted :: "(('a, 'l, 'r, 'd, 'm) mstate, dispatch_error, unit) comp" where
  "ensure_not_halted s =
     (if is_halted_mode (operating_mode s) then (Inl (DE_Messages (BridgeModule BM_Halted)), s) else (Inr (), s))"

definition set_owner ::
  "'a raw_origin \<Rightarrow> 'a option \<Rightarrow> (('a, 'l, 'r, 'd, 'm) mstate, dispatch_error, unit) comp" where
  "set_owner origin maybe_owner =
     bindE (ensure_owner_or_root origin) (\<lambda>_. modifyE (\<lambda>s. s\<lparr>pallet_owner := maybe_owner\<rparr>))"

definition set_operating_mode ::
  "'a raw_origin \<Rightarrow> messages_operating_mode \<Rightarrow> (('a, 'l, 'r, 'd, 'm) mstate, dispatch_error, unit) comp" where
  "set_operating_mode origin mode =
     bindE (ensure_owner_or_root origin) (\<lambda>_. modifyE (\<lambda>s. s\<lparr>operating_mode := mode\<rparr>))"

definition ensure_normal_operating_mode :: "(('a, 'l, 'r, 'd, 'm) mstate, messages_error, unit) comp" where
  "ensure_normal_operating_mode s =
     (if operating_mode s = Basic Normal then (Inr (), s) else (Inl NotOperatingNormally, s))"

section \<open>The lanes manager\<close>

text \<open>A lane object is the identifier of the lane and the data it cached when it was made.\<close>

definition inbound_from_lane_id ::
  "('a, 'l, 'r, 'd, 'h, 'q, 'm) mcfg \<Rightarrow> 'l \<Rightarrow> bool \<Rightarrow>
   (('a, 'l, 'r, 'd, 'm) mstate, lanes_manager_error, 'r inbound_lane_data) comp" where
  "inbound_from_lane_id cfg lane_id check_active s =
     (case inbound_lanes s lane_id of
        None \<Rightarrow> (Inl UnknownInboundLane, s)
      | Some cached_data \<Rightarrow>
          if check_active \<and> \<not> is_active (in_state cached_data) then (Inl ClosedInboundLane, s)
          else if check_active \<and> \<not> dispatch_is_active cfg lane_id s then (Inl LaneDispatcherInactive, s)
          else (Inr cached_data, s))"

definition outbound_from_lane_id ::
  "'l \<Rightarrow> bool \<Rightarrow> (('a, 'l, 'r, 'd, 'm) mstate, lanes_manager_error, outbound_lane_data) comp" where
  "outbound_from_lane_id lane_id check_active s =
     (case outbound_lanes s lane_id of
        None \<Rightarrow> (Inl UnknownOutboundLane, s)
      | Some cached_data \<Rightarrow>
          if \<not> (\<not> check_active \<or> is_active (out_state cached_data)) then (Inl ClosedOutboundLane, s)
          else (Inr cached_data, s))"

definition set_inbound_data ::
  "'l \<Rightarrow> 'r inbound_lane_data \<Rightarrow> ('a, 'l, 'r, 'd, 'm) mstate \<Rightarrow> ('a, 'l, 'r, 'd, 'm) mstate" where
  "set_inbound_data lane_id d s = s\<lparr>inbound_lanes := (inbound_lanes s)(lane_id \<mapsto> d)\<rparr>"

definition set_outbound_data ::
  "'l \<Rightarrow> outbound_lane_data \<Rightarrow> ('a, 'l, 'r, 'd, 'm) mstate \<Rightarrow> ('a, 'l, 'r, 'd, 'm) mstate" where
  "set_outbound_data lane_id d s = s\<lparr>outbound_lanes := (outbound_lanes s)(lane_id \<mapsto> d)\<rparr>"

text \<open>The messages of one lane, read and written.\<close>

definition lane_messages :: "'l \<Rightarrow> ('a, 'l, 'r, 'd, 'm) mstate \<Rightarrow> payload stored_messages" where
  "lane_messages lane_id s = (\<lambda>n. outbound_messages s (lane_id, n))"

definition set_lane_messages ::
  "'l \<Rightarrow> payload stored_messages \<Rightarrow> ('a, 'l, 'r, 'd, 'm) mstate \<Rightarrow> ('a, 'l, 'r, 'd, 'm) mstate" where
  "set_lane_messages lane_id stored s =
     s\<lparr>outbound_messages := (\<lambda>(l, n). if l = lane_id then stored n else outbound_messages s (l, n))\<rparr>"

definition create_inbound_lane ::
  "('a, 'l, 'r, 'd, 'h, 'q, 'm) mcfg \<Rightarrow> 'l \<Rightarrow>
   (('a, 'l, 'r, 'd, 'm) mstate, lanes_manager_error, 'r inbound_lane_data) comp" where
  "create_inbound_lane cfg lane_id s =
     (case inbound_lanes s lane_id of
        Some _ \<Rightarrow> (Inl InboundLaneAlreadyExists, s)
      | None \<Rightarrow> inbound_from_lane_id cfg lane_id True
          (set_inbound_data lane_id (inbound_default\<lparr>in_state := Opened\<rparr>) s))"

definition create_outbound_lane ::
  "'l \<Rightarrow> (('a, 'l, 'r, 'd, 'm) mstate, lanes_manager_error, outbound_lane_data) comp" where
  "create_outbound_lane lane_id s =
     (case outbound_lanes s lane_id of
        Some _ \<Rightarrow> (Inl OutboundLaneAlreadyExists, s)
      | None \<Rightarrow> outbound_from_lane_id lane_id True
          (set_outbound_data lane_id (outbound_default\<lparr>out_state := Opened\<rparr>) s))"

text \<open>Closing, reopening and purging a lane; the first two write the cached data back.\<close>

definition set_inbound_state ::
  "'l \<Rightarrow> lane_state \<Rightarrow> 'r inbound_lane_data \<Rightarrow> ('a, 'l, 'r, 'd, 'm) mstate \<Rightarrow>
   'r inbound_lane_data \<times> ('a, 'l, 'r, 'd, 'm) mstate" where
  "set_inbound_state lane_id st d s =
     (let d1 = d\<lparr>in_state := st\<rparr> in (d1, set_inbound_data lane_id d1 s))"

definition set_outbound_state ::
  "'l \<Rightarrow> lane_state \<Rightarrow> outbound_lane_data \<Rightarrow> ('a, 'l, 'r, 'd, 'm) mstate \<Rightarrow>
   outbound_lane_data \<times> ('a, 'l, 'r, 'd, 'm) mstate" where
  "set_outbound_state lane_id st d s =
     (let d1 = d\<lparr>out_state := st\<rparr> in (d1, set_outbound_data lane_id d1 s))"

definition purge_inbound :: "'l \<Rightarrow> ('a, 'l, 'r, 'd, 'm) mstate \<Rightarrow> ('a, 'l, 'r, 'd, 'm) mstate" where
  "purge_inbound lane_id s = s\<lparr>inbound_lanes := (inbound_lanes s)(lane_id := None)\<rparr>"

definition purge_outbound :: "'l \<Rightarrow> ('a, 'l, 'r, 'd, 'm) mstate \<Rightarrow> ('a, 'l, 'r, 'd, 'm) mstate" where
  "purge_outbound lane_id s = s\<lparr>outbound_lanes := (outbound_lanes s)(lane_id := None)\<rparr>"

text \<open>Number of bytes by which the lane is smaller than the largest one.\<close>

definition extra_proof_size_bytes ::
  "('a, 'l, 'r, 'd, 'h, 'q, 'm) mcfg \<Rightarrow> 'r inbound_lane_data \<Rightarrow> 64 word" where
  "extra_proof_size_bytes cfg d =
     (let size = (\<lambda>entries. case encoded_size_hint (relayer_max_encoded_len cfg) entries of
                    Some n \<Rightarrow> n | None \<Rightarrow> max_value)
      in saturating_sub (size (max_unrewarded_relayers cfg)) (size (of_nat (length (relayers d)))))"

section \<open>Verification of proofs\<close>

record 'l proved_lane_messages =
  lane_state :: "outbound_lane_data option"
  proved_messages :: "('l message_key \<times> payload) list"

fun read_messages ::
  "('l, 'a) proof_reader \<Rightarrow> 'l \<Rightarrow> message_nonce list \<Rightarrow>
   verification_error + ('l message_key \<times> payload) list" where
  "read_messages parser lane [] = Inr []"
| "read_messages parser lane (n # rest) =
     (case read_message parser (lane, n) of
        Inl e \<Rightarrow> Inl (VE_MessageStorage e)
      | Inr message_payload \<Rightarrow>
          (case read_messages parser lane rest of
             Inl e \<Rightarrow> Inl e
           | Inr ms \<Rightarrow> Inr (((lane, n), message_payload) # ms)))"

definition verify_messages_proof ::
  "('a, 'l, 'r, 'd, 'h, 'q, 'm) mcfg \<Rightarrow> ('h, 'q, 'l) messages_proof \<Rightarrow> u32 \<Rightarrow> ('a, 'l, 'r, 'd, 'm) mstate \<Rightarrow>
   verification_error + 'l \<times> 'l proved_lane_messages" where
  "verify_messages_proof cfg proof messages_count s =
     (case header_chain cfg (bridged_header_hash proof) (storage_proof proof) s of
        Inl e \<Rightarrow> Inl (VE_HeaderChain e)
      | Inr parser \<Rightarrow>
          let lane = proof_lane proof;
              messages_in_the_proof = saturating_len (nonces_start proof) (nonces_end proof);
              nonces_range = (if nonces_start proof \<le> nonces_end proof
                       then nonces (nonces_start proof) (nonces_end proof) else [])
          in if messages_in_the_proof \<noteq> ucast messages_count then Inl MessagesCountMismatch
             else
               case read_messages parser lane nonces_range of
                 Inl e \<Rightarrow> Inl e
               | Inr ms \<Rightarrow>
                   (case read_outbound_lane parser lane of
                      Inl e \<Rightarrow> Inl (VE_OutboundLaneStorage e)
                    | Inr st \<Rightarrow>
                        if st = None \<and> ms = [] then Inl EmptyMessageProof
                        else
                          case no_unused_keys parser (map (\<lambda>n. Key_Message (lane, n)) nonces_range @ [Key_OutboundLane lane]) of
                            Inl e \<Rightarrow> Inl (VE_StorageProof e)
                          | Inr _ \<Rightarrow> Inr (lane, \<lparr>lane_state = st, proved_messages = ms\<rparr>)))"

definition verify_messages_delivery_proof ::
  "('a, 'l, 'r, 'd, 'h, 'q, 'm) mcfg \<Rightarrow> ('h, 'q, 'l) delivery_proof \<Rightarrow> ('a, 'l, 'r, 'd, 'm) mstate \<Rightarrow>
   verification_error + 'l \<times> 'a inbound_lane_data" where
  "verify_messages_delivery_proof cfg proof s =
     (case header_chain cfg (d_bridged_header_hash proof) (d_storage_proof proof) s of
        Inl e \<Rightarrow> Inl (VE_HeaderChain e)
      | Inr parser \<Rightarrow>
          let lane = d_proof_lane proof
          in case read_inbound_lane parser lane of
               Inl e \<Rightarrow> Inl (VE_InboundLaneStorage e)
             | Inr lane_data \<Rightarrow>
                 (case no_unused_keys parser [Key_InboundLane lane] of
                    Inl e \<Rightarrow> Inl (VE_StorageProof e)
                  | Inr _ \<Rightarrow> Inr (lane, lane_data)))"

section \<open>Receiving messages\<close>

text \<open>
  \<open>receive_message\<close> of the lane object: \<open>d\<close> is the data the object has cached, which it writes back
  after the dispatch.
\<close>

definition receive_message ::
  "('a, 'l, 'r, 'd, 'h, 'q, 'm) mcfg \<Rightarrow> 'l \<Rightarrow> 'r \<Rightarrow> message_nonce \<Rightarrow> payload \<Rightarrow> 'r inbound_lane_data \<Rightarrow>
   ('a, 'l, 'r, 'd, 'm) mstate \<Rightarrow>
   'd message_dispatch_result reception_result \<times> 'r inbound_lane_data \<times> ('a, 'l, 'r, 'd, 'm) mstate" where
  "receive_message cfg lane_id r n message_data d s =
     (case reject_message (max_unrewarded_relayers cfg) (max_unconfirmed_messages cfg) n d of
        Some rejected \<Rightarrow> (rejected, d, s)
      | None \<Rightarrow>
          let (dispatch_result, s1) = dispatch cfg (lane_id, n) message_data s;
              d1 = note_relayer r n d
          in (Dispatched dispatch_result, d1, set_inbound_data lane_id d1 s1))"

text \<open>The loop of \<open>receive_messages_proof\<close>, with the counters, weights and results it accumulates.\<close>

fun receive_loop ::
  "('a, 'l, 'r, 'd, 'h, 'q, 'm) mcfg \<Rightarrow> 'l \<Rightarrow> 'r \<Rightarrow> ('l message_key \<times> payload) list \<Rightarrow>
   'r inbound_lane_data \<Rightarrow> message_nonce \<Rightarrow> message_nonce \<Rightarrow> weight \<Rightarrow> weight \<Rightarrow>
   (message_nonce \<times> 'd message_dispatch_result reception_result) list \<Rightarrow>
   (('a, 'l, 'r, 'd, 'm) mstate, dispatch_error, message_nonce \<times> message_nonce \<times> weight \<times>
     (message_nonce \<times> 'd message_dispatch_result reception_result) list) comp" where
  "receive_loop cfg lane_id r [] d total_count valid_count weight_left actual_weight results s =
     (Inr (total_count, valid_count, actual_weight, results), s)"
| "receive_loop cfg lane_id r ((key, message_data) # rest) d total_count valid_count weight_left actual_weight results s =
     (let message_dispatch_weight = dispatch_weight cfg key message_data s
      in if weight_any_gt message_dispatch_weight weight_left
         then (Inl (DE_Messages InsufficientDispatchWeight), s)
         else
           let (receival_result, d1, s1) = receive_message cfg lane_id r (snd key) message_data d s;
               (valid1, unspent) =
                 (case receival_result of
                    Dispatched dispatch_result \<Rightarrow> (valid_count + 1, unspent_weight dispatch_result)
                  | _ \<Rightarrow> (valid_count, message_dispatch_weight));
               unspent1 = weight_min unspent message_dispatch_weight
           in receive_loop cfg lane_id r rest d1 (total_count + 1) valid1
                (weight_sub weight_left (weight_sub message_dispatch_weight unspent1))
                (weight_saturating_sub actual_weight unspent1)
                (results @ [(snd key, receival_result)]) s1)"

text \<open>\<open>receive_state_update\<close> of the lane object, which writes only an update it accepts.\<close>

definition update_lane_state ::
  "'l \<Rightarrow> outbound_lane_data option \<Rightarrow> 'r inbound_lane_data \<Rightarrow> ('a, 'l, 'r, 'd, 'm) mstate \<Rightarrow>
   'r inbound_lane_data \<times> ('a, 'l, 'r, 'd, 'm) mstate" where
  "update_lane_state lane_id st d s =
     (case st of
        None \<Rightarrow> (d, s)
      | Some out \<Rightarrow>
          (case receive_state_update out d of
             (None, d1) \<Rightarrow> (d1, s)
           | (Some _, d1) \<Rightarrow> (d1, set_inbound_data lane_id d1 s)))"

definition lift_error :: "('e \<Rightarrow> 'f) \<Rightarrow> ('s, 'e, 'r) comp \<Rightarrow> ('s, 'f, 'r) comp" where
  "lift_error conv m s = (case m s of (Inl e, t) \<Rightarrow> (Inl (conv e), t) | (Inr x, t) \<Rightarrow> (Inr x, t))"

definition receive_messages_proof ::
  "('a, 'l, 'r, 'd, 'h, 'q, 'm) mcfg \<Rightarrow> 'a raw_origin \<Rightarrow> 'r \<Rightarrow> ('h, 'q, 'l) messages_proof \<Rightarrow> u32 \<Rightarrow> weight \<Rightarrow>
   (('a, 'l, 'r, 'd, 'm) mstate, dispatch_error, weight) comp" where
  "receive_messages_proof cfg origin relayer_id_at_bridged_chain proof messages_count weight_limit =
     bindE ensure_not_halted (\<lambda>_.
     bindE (liftR (ensure_signed origin)) (\<lambda>relayer_id_at_this_chain.
     bindE (ensureE (ucast messages_count \<le> max_unconfirmed_messages cfg)
       (DE_Messages TooManyMessagesInTheProof)) (\<lambda>_.
     let actual_weight = receive_messages_proof_weight cfg proof messages_count weight_limit in
     bindE (getsE (verify_messages_proof cfg proof messages_count)) (\<lambda>verified.
     bindE (liftR (case verified of Inl _ \<Rightarrow> Inl (DE_Messages InvalidMessagesProof) | Inr x \<Rightarrow> Inr x)) (\<lambda>(lane_id, lane_data).
     bindE (lift_error (\<lambda>e. DE_Messages (LanesManager e)) (inbound_from_lane_id cfg lane_id True)) (\<lambda>d.
     let actual_weight = actual_weight\<lparr>proof_size :=
           saturating_sub (proof_size actual_weight) (extra_proof_size_bytes cfg d)\<rparr> in
     bindE (runE (update_lane_state lane_id (lane_state lane_data) d)) (\<lambda>d.
     bindE (receive_loop cfg lane_id relayer_id_at_bridged_chain (proved_messages lane_data) d 0 0
       weight_limit actual_weight []) (\<lambda>(total_count, valid_count, actual_weight, results).
     bindE (modifyE (delivery_payments cfg relayer_id_at_this_chain total_count valid_count actual_weight)) (\<lambda>_.
     bindE (modifyE (deposit_message_event (MessagesReceived lane_id results))) (\<lambda>_.
     ret actual_weight))))))))))"

section \<open>Receiving confirmations\<close>

definition receive_messages_delivery_proof ::
  "('a, 'l, 'r, 'd, 'h, 'q, 'm) mcfg \<Rightarrow> 'a raw_origin \<Rightarrow> ('h, 'q, 'l) delivery_proof \<Rightarrow> unrewarded_relayers_state \<Rightarrow>
   (('a, 'l, 'r, 'd, 'm) mstate, dispatch_error, weight) comp" where
  "receive_messages_delivery_proof cfg origin proof relayers_state =
     bindE ensure_not_halted (\<lambda>_.
     bindE (liftR (ensure_signed origin)) (\<lambda>confirmation_relayer.
     bindE (getsE (verify_messages_delivery_proof cfg proof)) (\<lambda>verified.
     bindE (liftR (case verified of Inl _ \<Rightarrow> Inl (DE_Messages InvalidMessagesDeliveryProof) | Inr x \<Rightarrow> Inr x))
       (\<lambda>(lane_id, lane_data).
     bindE (ensureE (relayers_state_is_valid relayers_state lane_data)
       (DE_Messages InvalidUnrewardedRelayersState)) (\<lambda>_.
     bindE (lift_error (\<lambda>e. DE_Messages (LanesManager e)) (outbound_from_lane_id lane_id False)) (\<lambda>d.
     bindE (getsE (lane_messages lane_id)) (\<lambda>stored.
     let (result, d1, stored1) =
           confirm_delivery (urs_total_messages relayers_state) (last_delivered_nonce lane_data)
             (relayers lane_data) (d, stored) in
     bindE (liftR (case result of
         Inl e \<Rightarrow> Inl (DE_Messages (ReceptionConfirmation e)) | Inr x \<Rightarrow> Inr x)) (\<lambda>confirmed_messages.
     bindE (case confirmed_messages of
         None \<Rightarrow> ret relayers_state
       | Some confirmed \<Rightarrow>
           bindE (modifyE (\<lambda>s. set_outbound_data lane_id d1 (set_lane_messages lane_id stored1 s))) (\<lambda>_.
           bindE (modifyE (deposit_message_event (MessagesDelivered lane_id confirmed))) (\<lambda>_.
           bindE (runE (confirmation_payments cfg lane_id (relayers lane_data) confirmation_relayer
             (dm_begin confirmed, dm_end confirmed))) (\<lambda>actually_rewarded_relayers.
           ret (relayers_state\<lparr>
             unrewarded_relayer_entries := min (unrewarded_relayer_entries relayers_state) actually_rewarded_relayers,
             urs_total_messages := min (urs_total_messages relayers_state)
               (case checked_len (dm_begin confirmed) (dm_end confirmed) of Some n \<Rightarrow> n | None \<Rightarrow> max_value)\<rparr>))))) (\<lambda>relayers_state.
     bindE (modifyE (on_messages_delivered cfg lane_id
       (saturating_len (fst (queued_messages d1)) (snd (queued_messages d1))))) (\<lambda>_.
     ret (delivery_proof_weight cfg proof relayers_state)))))))))))"

section \<open>Sending messages\<close>

text \<open>
  \<open>validate_message\<close> and \<open>send_message\<close> of the \<open>MessagesBridge\<close> interface. What the first returns holds
  the lane object, and so the lane data at the time of validation. The argument is the SCALE
  encoding of the message.
\<close>

record 'l send_message_args =
  args_lane_id :: 'l
  args_lane :: outbound_lane_data
  args_payload :: payload

definition validate_message ::
  "('a, 'l, 'r, 'd, 'h, 'q, 'm) mcfg \<Rightarrow> 'l \<Rightarrow> payload \<Rightarrow>
   (('a, 'l, 'r, 'd, 'm) mstate, messages_error, 'l send_message_args) comp" where
  "validate_message cfg lane_id message =
     bindE ensure_normal_operating_mode (\<lambda>_.
     bindE (lift_error LanesManager (outbound_from_lane_id lane_id True)) (\<lambda>lane.
     bindE (ensureE (length message \<le> unat (maximal_incoming_message_size cfg))
       (MessageRejectedByPallet MessageTooLarge)) (\<lambda>_.
     ret \<lparr>args_lane_id = lane_id, args_lane = lane, args_payload = message\<rparr>)))"

record send_message_artifacts =
  artifact_nonce :: message_nonce
  enqueued_messages :: message_nonce

definition send_message ::
  "'l send_message_args \<Rightarrow> ('a, 'l, 'r, 'd, 'm) mstate \<Rightarrow> send_message_artifacts \<times> ('a, 'l, 'r, 'd, 'm) mstate" where
  "send_message args s =
     (let lane_id = args_lane_id args;
          (n, d, stored) = send_message_lane (args_payload args) (args_lane args, lane_messages lane_id s);
          enqueued = saturating_len (fst (queued_messages d)) (snd (queued_messages d));
          s1 = set_outbound_data lane_id d (set_lane_messages lane_id stored s)
      in (\<lparr>artifact_nonce = n, enqueued_messages = enqueued\<rparr>,
          deposit_message_event (MessageAccepted lane_id n) s1))"

section \<open>Genesis and state checks\<close>

record ('a, 'l) messages_genesis_config =
  genesis_operating_mode :: messages_operating_mode
  genesis_owner :: "'a option"
  opened_lanes :: "'l list"

definition messages_genesis_build ::
  "('a, 'l) messages_genesis_config \<Rightarrow> ('a, 'l, 'r, 'd, 'm) mstate \<Rightarrow> ('a, 'l, 'r, 'd, 'm) mstate" where
  "messages_genesis_build self s =
     (let s1 = s\<lparr>operating_mode := genesis_operating_mode self\<rparr>;
          s2 = (case genesis_owner self of Some owner \<Rightarrow> s1\<lparr>pallet_owner := Some owner\<rparr> | None \<Rightarrow> s1)
      in fold (\<lambda>lane_id s. set_outbound_data lane_id outbound_opened (set_inbound_data lane_id inbound_opened s))
           (opened_lanes self) s2)"

definition unpruned_message_nonces ::
  "'l \<Rightarrow> outbound_lane_data \<Rightarrow> ('a, 'l, 'r, 'd, 'm) mstate \<Rightarrow> message_nonce list" where
  "unpruned_message_nonces lane_id d s =
     (case checked_sub (oldest_unpruned_nonce d) 1 of
        None \<Rightarrow> []
      | Some expected_last_prunned_nonce \<Rightarrow>
          let start_nonce = (case checked_sub expected_last_prunned_nonce 16 of Some n \<Rightarrow> n | None \<Rightarrow> 0)
          in filter (\<lambda>n. outbound_messages s (lane_id, n) \<noteq> None) (nonces start_nonce expected_last_prunned_nonce))"

text \<open>\<open>lane_ids\<close> are the keys of the outbound lanes in the order of the storage backend.\<close>

definition do_try_state_for_outbound_lanes ::
  "'l list \<Rightarrow> ('a, 'l, 'r, 'd, 'm) mstate \<Rightarrow> string + unit" where
  "do_try_state_for_outbound_lanes lane_ids s =
     (let unpruned_lanes = filter (\<lambda>lane_id.
            case outbound_lanes s lane_id of
              None \<Rightarrow> False | Some d \<Rightarrow> unpruned_message_nonces lane_id d s \<noteq> []) lane_ids
      in if unpruned_lanes = [] then Inr () else Inl ''Found unpruned lanes!'')"

section \<open>Checks before a call enters a block\<close>

text \<open>A range is its first and last nonce; it is empty when the first is greater.\<close>

record 'l base_messages_proof_info =
  info_lane_id :: 'l
  bundled_range :: "message_nonce \<times> message_nonce"
  best_stored_nonce :: message_nonce

definition range_is_empty :: "message_nonce \<times> message_nonce \<Rightarrow> bool" where
  "range_is_empty r \<longleftrightarrow> \<not> fst r \<le> snd r"

definition appends_to_stored_nonce :: "'l base_messages_proof_info \<Rightarrow> bool" where
  "appends_to_stored_nonce self \<longleftrightarrow> Some (fst (bundled_range self)) = checked_add (best_stored_nonce self) 1"

record unrewarded_relayer_occupation =
  free_relayer_slots :: message_nonce
  free_message_slots :: message_nonce

record 'l receive_messages_proof_info =
  rmp_base :: "'l base_messages_proof_info"
  rmp_unrewarded_relayers :: unrewarded_relayer_occupation

definition delivery_is_obsolete :: "'l receive_messages_proof_info \<Rightarrow> bool \<Rightarrow> bool" where
  "delivery_is_obsolete self is_dispatcher_active =
     (if \<not> is_dispatcher_active then True
      else if range_is_empty (bundled_range (rmp_base self)) then
        \<not> (free_relayer_slots (rmp_unrewarded_relayers self) = 0 \<or>
           free_message_slots (rmp_unrewarded_relayers self) = 0)
      else \<not> appends_to_stored_nonce (rmp_base self))"

definition confirmation_is_obsolete :: "'l base_messages_proof_info \<Rightarrow> bool" where
  "confirmation_is_obsolete self \<longleftrightarrow> range_is_empty (bundled_range self) \<or> \<not> appends_to_stored_nonce self"

definition unrewarded_relayers_occupation ::
  "('a, 'l, 'r, 'd, 'h, 'q, 'm) mcfg \<Rightarrow> 'r inbound_lane_data \<Rightarrow> unrewarded_relayer_occupation" where
  "unrewarded_relayers_occupation cfg d =
     \<lparr>free_relayer_slots = saturating_sub (max_unrewarded_relayers cfg) (of_nat (length (relayers d))),
      free_message_slots =
        (let unconfirmed_messages = saturating_sub (last_delivered_nonce d) (last_confirmed_nonce d)
         in saturating_sub (max_unconfirmed_messages cfg) unconfirmed_messages)\<rparr>"

datatype ('a, 'r, 'h, 'q, 'l) messages_call =
    Set_owner "'a option"
  | Set_operating_mode messages_operating_mode
  | Receive_messages_proof 'r "('h, 'q, 'l) messages_proof" u32 weight
  | Receive_messages_delivery_proof "('h, 'q, 'l) delivery_proof" unrewarded_relayers_state

datatype 'l messages_call_info =
    Info_ReceiveMessagesProof "'l receive_messages_proof_info"
  | Info_ReceiveMessagesDeliveryProof "'l base_messages_proof_info"

fun messages_proof_info_of ::
  "('a, 'l, 'r, 'd, 'h, 'q, 'm) mcfg \<Rightarrow> ('a, 'r, 'h, 'q, 'l) messages_call \<Rightarrow> ('a, 'l, 'r, 'd, 'm) mstate \<Rightarrow>
   'l receive_messages_proof_info option" where
  "messages_proof_info_of cfg (Receive_messages_proof r proof n w) s =
     (case inbound_lanes s (proof_lane proof) of
        None \<Rightarrow> None
      | Some d \<Rightarrow> Some
          \<lparr>rmp_base = \<lparr>info_lane_id = proof_lane proof, bundled_range = (nonces_start proof, nonces_end proof),
             best_stored_nonce = last_delivered_nonce d\<rparr>,
           rmp_unrewarded_relayers = unrewarded_relayers_occupation cfg d\<rparr>)"
| "messages_proof_info_of cfg _ s = None"

fun delivery_proof_info_of ::
  "('a, 'r, 'h, 'q, 'l) messages_call \<Rightarrow> ('a, 'l, 'r, 'd, 'm) mstate \<Rightarrow> 'l base_messages_proof_info option" where
  "delivery_proof_info_of (Receive_messages_delivery_proof proof relayers_state) s =
     (case outbound_lanes s (d_proof_lane proof) of
        None \<Rightarrow> None
      | Some d \<Rightarrow> Some
          \<lparr>info_lane_id = d_proof_lane proof,
           bundled_range = (latest_received_nonce d + 1, urs_last_delivered_nonce relayers_state),
           best_stored_nonce = latest_received_nonce d\<rparr>)"
| "delivery_proof_info_of _ s = None"

definition call_info ::
  "('a, 'l, 'r, 'd, 'h, 'q, 'm) mcfg \<Rightarrow> ('a, 'r, 'h, 'q, 'l) messages_call \<Rightarrow> ('a, 'l, 'r, 'd, 'm) mstate \<Rightarrow>
   'l messages_call_info option" where
  "call_info cfg c s =
     (case messages_proof_info_of cfg c s of
        Some info \<Rightarrow> Some (Info_ReceiveMessagesProof info)
      | None \<Rightarrow> map_option Info_ReceiveMessagesDeliveryProof (delivery_proof_info_of c s))"

datatype invalid_transaction = Invalid_Call | Invalid_Stale

definition check_obsolete_call ::
  "('a, 'l, 'r, 'd, 'h, 'q, 'm) mcfg \<Rightarrow> ('a, 'r, 'h, 'q, 'l) messages_call \<Rightarrow> ('a, 'l, 'r, 'd, 'm) mstate \<Rightarrow>
   invalid_transaction + unit" where
  "check_obsolete_call cfg c s =
     (let is_pallet_halted = is_halted_mode (operating_mode s)
      in case call_info cfg c s of
           None \<Rightarrow> Inr ()
         | Some info \<Rightarrow>
             if is_pallet_halted then Inl Invalid_Call
             else
               case info of
                 Info_ReceiveMessagesProof proof_info \<Rightarrow>
                   if delivery_is_obsolete proof_info (dispatch_is_active cfg (info_lane_id (rmp_base proof_info)) s)
                   then Inl Invalid_Stale else Inr ()
               | Info_ReceiveMessagesDeliveryProof proof_info \<Rightarrow>
                   if confirmation_is_obsolete proof_info then Inl Invalid_Stale else Inr ())"

definition was_successful ::
  "('a, 'l, 'r, 'd, 'h, 'q, 'm) mcfg \<Rightarrow> 'l messages_call_info \<Rightarrow> ('a, 'l, 'r, 'd, 'm) mstate \<Rightarrow> bool" where
  "was_successful cfg info s =
     (case info of
        Info_ReceiveMessagesProof info \<Rightarrow>
          (case inbound_lanes s (info_lane_id (rmp_base info)) of
             None \<Rightarrow> False
           | Some d \<Rightarrow>
               if range_is_empty (bundled_range (rmp_base info)) then
                 free_message_slots (unrewarded_relayers_occupation cfg d) >
                   free_message_slots (rmp_unrewarded_relayers info)
               else last_delivered_nonce d = snd (bundled_range (rmp_base info)))
      | Info_ReceiveMessagesDeliveryProof info \<Rightarrow>
          (case outbound_lanes s (info_lane_id info) of
             None \<Rightarrow> False
           | Some d \<Rightarrow> latest_received_nonce d = snd (bundled_range info)))"

text \<open>The calls, each in its storage layer.\<close>

fun messages_call_body ::
  "('a, 'l, 'r, 'd, 'h, 'q, 'm) mcfg \<Rightarrow> 'a raw_origin \<Rightarrow> ('a, 'r, 'h, 'q, 'l) messages_call \<Rightarrow>
   (('a, 'l, 'r, 'd, 'm) mstate, dispatch_error, weight option) comp" where
  "messages_call_body cfg origin (Set_owner new_owner) = bindE (set_owner origin new_owner) (\<lambda>_. ret None)"
| "messages_call_body cfg origin (Set_operating_mode mode) =
     bindE (set_operating_mode origin mode) (\<lambda>_. ret None)"
| "messages_call_body cfg origin (Receive_messages_proof r proof n w) =
     bindE (receive_messages_proof cfg origin r proof n w) (\<lambda>weight. ret (Some weight))"
| "messages_call_body cfg origin (Receive_messages_delivery_proof proof relayers_state) =
     bindE (receive_messages_delivery_proof cfg origin proof relayers_state) (\<lambda>weight. ret (Some weight))"

definition dispatch_messages_call ::
  "('a, 'l, 'r, 'd, 'h, 'q, 'm) mcfg \<Rightarrow> 'a raw_origin \<Rightarrow> ('a, 'r, 'h, 'q, 'l) messages_call \<Rightarrow>
   (('a, 'l, 'r, 'd, 'm) mstate, dispatch_error, weight option) comp" where
  "dispatch_messages_call cfg origin c = with_storage_layer (messages_call_body cfg origin c)"

end
