(* ===== verification/Delivery.thy ===== *)
theory Delivery
  imports Messages
begin

text \<open>
  What the calls of the messages pallet do to its storage, proved once for every configuration
  whose hooks (the dispatcher, the payments, the notification of the sender) leave the storage of
  the pallet alone: the interface \<open>messages_hooks\<close>. The dispatcher keeps a log of what it was
  given, from which the theorems on the bridge read off what was delivered.
\<close>

section \<open>What a delivery does to the pallet\<close>

text \<open>The hooks of the pallet run inside its calls; they leave its storage and the layers alone.\<close>

definition same_pallet ::
  "('a, 'l, 'r, 'd, 'm) mstate \<Rightarrow> ('a, 'l, 'r, 'd, 'm) mstate \<Rightarrow> bool" where
  "same_pallet s t \<longleftrightarrow>
     pallet_owner t = pallet_owner s \<and> operating_mode t = operating_mode s \<and>
     inbound_lanes t = inbound_lanes s \<and> outbound_lanes t = outbound_lanes s \<and>
     outbound_messages t = outbound_messages s \<and> transaction_level t = transaction_level s"

lemma same_pallet_refl [simp]: "same_pallet s s"
  by (simp add: same_pallet_def)

lemma same_pallet_trans: "same_pallet s t \<Longrightarrow> same_pallet t u \<Longrightarrow> same_pallet s u"
  by (simp add: same_pallet_def)

lemma same_pallet_event [simp]: "same_pallet s (deposit_message_event ev s)"
  by (simp add: same_pallet_def deposit_message_event_def Let_def split: option.split)

lemma event_more [simp]: "messages_runtime.more (deposit_message_event ev s) = messages_runtime.more s"
  by (simp add: deposit_message_event_def Let_def split: option.split)

text \<open>
  What the loop over the messages amounts to: the messages that pass the checks of the lane, one
  after the other, are dispatched, and the lane data records them.
\<close>

definition accepts :: "message_nonce \<Rightarrow> message_nonce \<Rightarrow> message_nonce \<Rightarrow> 'r inbound_lane_data \<Rightarrow> bool" where
  "accepts me mu n d \<longleftrightarrow> (reject_message me mu n d :: unit reception_result option) = None"

lemma reject_accepts: "(reject_message me mu n d :: 'x reception_result option) = None \<longleftrightarrow> accepts me mu n d"
  by (simp add: accepts_def reject_message_def)

lemma accepts_next: "accepts me mu n d \<Longrightarrow> unat n = Suc (unat (last_delivered_nonce d))"
  by (simp add: accepts_def reject_message_None)

fun accept ::
  "message_nonce \<Rightarrow> message_nonce \<Rightarrow> 'l \<Rightarrow> 'r \<Rightarrow> ('l message_key \<times> payload) list \<Rightarrow> 'r inbound_lane_data \<Rightarrow>
   'r inbound_lane_data \<times> ('l message_key \<times> payload) list" where
  "accept me mu lane_id r [] d = (d, [])"
| "accept me mu lane_id r ((key, p) # ms) d =
     (if accepts me mu (snd key) d
      then (case accept me mu lane_id r ms (note_relayer r (snd key) d) of
              (d1, accepted) \<Rightarrow> (d1, ((lane_id, snd key), p) # accepted))
      else accept me mu lane_id r ms d)"

text \<open>Messages that are those of the sequence \<open>sent\<close>, the first of which has nonce one.\<close>

definition authentic :: "'l \<Rightarrow> payload list \<Rightarrow> ('l message_key \<times> payload) list \<Rightarrow> bool" where
  "authentic lane_id sent ms \<longleftrightarrow>
     (\<forall>((l, n), p) \<in> set ms. l = lane_id \<and> 0 < unat n \<and> unat n \<le> length sent \<and> p = sent ! (unat n - 1))"

lemma accept_ok:
  assumes "accept me mu lane_id r ms d = (d1, accepted)" "inbound_ok d" "authentic lane_id sent ms"
    "unat (last_delivered_nonce d) \<le> length sent"
  shows "inbound_ok d1 \<and> last_confirmed_nonce d1 = last_confirmed_nonce d \<and> in_state d1 = in_state d \<and>
    unat (last_delivered_nonce d) \<le> unat (last_delivered_nonce d1) \<and>
    unat (last_delivered_nonce d1) \<le> length sent \<and>
    take (unat (last_delivered_nonce d)) sent @ map snd accepted = take (unat (last_delivered_nonce d1)) sent \<and>
    (\<forall>x \<in> set accepted. fst (fst x) = lane_id)"
  using assms
proof (induction ms arbitrary: d accepted)
  case (Cons m ms)
  obtain l n p where m: "m = ((l, n), p)" by (metis prod.exhaust)
  have auth: "authentic lane_id sent ms" and n: "unat n \<le> length sent" "p = sent ! (unat n - 1)"
    using Cons.prems(3) by (auto simp: authentic_def m)
  show ?case
  proof (cases "accepts me mu n d")
    case True
    then have suc: "unat n = Suc (unat (last_delivered_nonce d))" by (rule accepts_next)
    let ?d = "note_relayer r n d"
    note nr = note_relayer_ok [OF Cons.prems(2) suc, of r]
    from True Cons.prems(1) obtain acc where acc: "accept me mu lane_id r ms ?d = (d1, acc)"
      "accepted = ((lane_id, n), p) # acc" by (auto simp: m split: prod.splits)
    have "unat (last_delivered_nonce d) < length sent" using suc n(1) by linarith
    then have "take (unat n) sent = take (unat (last_delivered_nonce d)) sent @ [p]"
      unfolding suc n(2) diff_Suc_1 by (rule take_Suc_conv_app_nth)
    then have "take (unat (last_delivered_nonce d)) sent @ map snd accepted = take (unat n) sent @ map snd acc"
      unfolding acc(2) list.map snd_conv by (simp only: append_assoc append_Cons append_Nil)
    with Cons.IH [OF acc(1) _ auth] nr n suc acc(2) show ?thesis by simp
  next
    case False
    then show ?thesis using Cons.IH [of d accepted] Cons.prems auth by (simp add: m)
  qed
qed simp

lemma read_messages_Ok:
  "read_messages rd lane ns = Inr ms \<Longrightarrow> (k, p) \<in> set ms \<Longrightarrow> fst k = lane \<and> read_message rd k = Inr p"
  by (induction ns arbitrary: ms) (auto split: sum.splits)

lemma verify_messages_proof_Ok:
  assumes "verify_messages_proof cfg proof n s = Inr (lane, pm)"
  shows "lane = proof_lane proof \<and> (\<exists>rd. header_chain cfg (bridged_header_hash proof) (storage_proof proof) s = Inr rd \<and>
    read_outbound_lane rd lane = Inr (lane_state pm) \<and>
    (\<forall>(k, p) \<in> set (proved_messages pm). fst k = lane \<and> read_message rd k = Inr p))"
  using assms by (auto simp: verify_messages_proof_def Let_def dest: read_messages_Ok split: sum.splits if_splits)

lemma inbound_from_lane_id_Ok:
  "inbound_from_lane_id cfg lane_id check s = (Inr d, t) \<Longrightarrow> inbound_lanes s lane_id = Some d \<and> t = s"
  by (auto simp: inbound_from_lane_id_def split: option.splits if_splits)

lemma outbound_from_lane_id_Ok:
  "outbound_from_lane_id lane_id check s = (Inr d, t) \<Longrightarrow> outbound_lanes s lane_id = Some d \<and> t = s"
  by (auto simp: outbound_from_lane_id_def split: option.splits if_splits)

lemma lift_error_Ok: "lift_error conv m s = (Inr x, t) \<longleftrightarrow> m s = (Inr x, t)"
  by (auto simp: lift_error_def split: prod.splits sum.splits)

lemma runE_Ok: "runE f s = (Inr x, t) \<longleftrightarrow> f s = (x, t)"
  by (auto simp: runE_def split: prod.splits)

lemmas returns = runE_Ok ret_def getsE_def modifyE_def ensureE_def liftR_def

lemma ensure_not_halted_Ok:
  "ensure_not_halted s = (Inr u, t) \<longleftrightarrow> \<not> is_halted_mode (operating_mode s) \<and> t = s"
  by (auto simp: ensure_not_halted_def)

lemma receive_messages_proof_Ok:
  assumes "receive_messages_proof cfg origin r proof n w s = (Inr x, t)"
  shows "\<exists>a pm d d0 s1 aw0 i j aw rs s2.
    verify_messages_proof cfg proof n s = Inr (proof_lane proof, pm) \<and>
    inbound_lanes s (proof_lane proof) = Some d \<and>
    update_lane_state (proof_lane proof) (lane_state pm) d s = (d0, s1) \<and>
    receive_loop cfg (proof_lane proof) r (proved_messages pm) d0 0 0 w aw0 [] s1 = (Inr (i, j, aw, rs), s2) \<and>
    t = deposit_message_event (MessagesReceived (proof_lane proof) rs) (delivery_payments cfg a i j aw s2)"
  using assms
  by (fastforce simp: receive_messages_proof_def Let_def returns bindE_eq_Inr ensure_not_halted_Ok lift_error_Ok
      split: if_splits sum.splits dest: inbound_from_lane_id_Ok verify_messages_proof_Ok)

lemma verify_messages_delivery_proof_Ok:
  assumes "verify_messages_delivery_proof cfg proof s = Inr (lane, idata)"
  shows "lane = d_proof_lane proof \<and> (\<exists>rd. header_chain cfg (d_bridged_header_hash proof) (d_storage_proof proof) s = Inr rd \<and>
    read_inbound_lane rd lane = Inr idata)"
  using assms by (auto simp: verify_messages_delivery_proof_def Let_def split: sum.splits)

text \<open>The lane written back as it is.\<close>

lemma set_outbound_same [simp]:
  "outbound_lanes s lane_id = Some d \<Longrightarrow> set_outbound_data lane_id d (set_lane_messages lane_id (lane_messages lane_id s) s) = s"
  by (auto simp: set_outbound_data_def set_lane_messages_def lane_messages_def fun_upd_idem
      intro!: messages_runtime.equality)

lemma confirm_delivery_None:
  "confirm_delivery allowed ld es (d, m) = (Inr None, d1, m1) \<Longrightarrow> d1 = d \<and> m1 = m"
  by (auto simp: confirm_delivery_def Let_def split: if_splits sum.splits)

text \<open>A confirmation as far as the checks on the proof, and the whole of it when they pass.\<close>

lemma delivery_proof_checked:
  assumes run: "receive_messages_delivery_proof cfg origin proof rs s = (Inr x, t)"
  shows "\<exists>a idata d. \<not> is_halted_mode (operating_mode s) \<and> ensure_signed origin = Inr a \<and>
    verify_messages_delivery_proof cfg proof s = Inr (d_proof_lane proof, idata) \<and> rs = relayers_state_from idata \<and>
    outbound_lanes s (d_proof_lane proof) = Some d"
proof -
  have nh: "\<not> is_halted_mode (operating_mode s)"
    by (rule ccontr) (use run in \<open>simp add: receive_messages_delivery_proof_def bindE_fail ensure_not_halted_def\<close>)
  then have h: "ensure_not_halted s = (Inr (), s)" by (simp add: ensure_not_halted_def)
  obtain a where a: "ensure_signed origin = Inr a"
    using run h by (cases "ensure_signed origin") (simp_all add: receive_messages_delivery_proof_def bindE_step monad)
  obtain l idata where v: "verify_messages_delivery_proof cfg proof s = Inr (l, idata)"
    using run h a by (cases "verify_messages_delivery_proof cfg proof s")
      (auto simp add: receive_messages_delivery_proof_def bindE_step monad)
  have l: "l = d_proof_lane proof" using verify_messages_delivery_proof_Ok [OF v] by simp
  have rs: "rs = relayers_state_from idata"
    by (rule ccontr) (use run h a v in
      \<open>simp add: receive_messages_delivery_proof_def bindE_step monad relayers_state_is_valid_def\<close>)
  obtain d where "outbound_lanes s (d_proof_lane proof) = Some d"
  proof (cases "outbound_lanes s (d_proof_lane proof)")
    case None
    then have "lift_error (\<lambda>e. DE_Messages (LanesManager e)) (outbound_from_lane_id (d_proof_lane proof) False) s
      = (Inl (DE_Messages (LanesManager UnknownOutboundLane)), s)"
      by (simp add: lift_error_def outbound_from_lane_id_def)
    with run h a v l rs show ?thesis
      by (simp add: receive_messages_delivery_proof_def bindE_step bindE_fail monad relayers_state_is_valid_def)
  qed
  with nh a v l rs show ?thesis by blast
qed

abbreviation inside :: "('a, 'l, 'r, 'd, 'm) mstate \<Rightarrow> ('a, 'l, 'r, 'd, 'm) mstate" where
  "inside s \<equiv> s\<lparr>transaction_level := transaction_level s + 1\<rparr>"

lemma same_pallet_back:
  "same_pallet (inside s) u \<Longrightarrow> transaction_level s < TRANSACTIONAL_LIMIT \<Longrightarrow> same_pallet s (dec_transaction_level u)"
  using level_back [of u s] by (simp add: same_pallet_def)

text \<open>The keys of the accepted messages, and the lanes a state has.\<close>

lemma accept_lane: "x \<in> set (snd (accept me mu lane_id r ms d)) \<Longrightarrow> fst (fst x) = lane_id"
  by (induction me mu lane_id r ms d rule: accept.induct) (auto split: if_splits prod.splits)

definition same_lanes ::
  "('a, 'l, 'r, 'd, 'm) mstate \<Rightarrow> ('a, 'l, 'r, 'd, 'm) mstate \<Rightarrow> bool" where
  "same_lanes s t \<longleftrightarrow>
     inbound_lanes t = inbound_lanes s \<and> outbound_lanes t = outbound_lanes s \<and>
     outbound_messages t = outbound_messages s \<and> transaction_level t = transaction_level s"

lemma same_pallet_lanes: "same_pallet s t \<Longrightarrow> same_lanes s t"
  by (simp add: same_pallet_def same_lanes_def)

text \<open>
  What the light client of the other chain guarantees: the reader of an accepted proof reads the
  lane as it was in one of the past states of the other chain.
\<close>

definition deliveries_sound ::
  "('a, 'l, 'r, 'd, 'h, 'q, 'm) mcfg \<Rightarrow> 'l \<Rightarrow> (outbound_lane_data \<times> payload stored_messages) list \<Rightarrow>
   ('a, 'l, 'r, 'd, 'm) mstate \<Rightarrow> bool" where
  "deliveries_sound cfg lane past s \<longleftrightarrow>
     (\<forall>h q rd. header_chain cfg h q s = Inr rd \<longrightarrow>
        (\<exists>(d, m) \<in> set past. (\<forall>n p. read_message rd (lane, n) = Inr p \<longrightarrow> m n = Some p) \<and>
           (\<forall>d1. read_outbound_lane rd lane = Inr (Some d1) \<longrightarrow> d1 = d)))"

definition confirmations_sound ::
  "('a, 'l, 'r, 'd, 'h, 'q, 'm) mcfg \<Rightarrow> 'l \<Rightarrow> 'a inbound_lane_data list \<Rightarrow> ('a, 'l, 'r, 'd, 'm) mstate \<Rightarrow> bool" where
  "confirmations_sound cfg lane past s \<longleftrightarrow>
     (\<forall>h q rd e. header_chain cfg h q s = Inr rd \<longrightarrow> read_inbound_lane rd lane = Inr e \<longrightarrow> e \<in> set past)"

text \<open>What the dispatcher was given on one lane, in order.\<close>

definition delivered_on ::
  "('m \<Rightarrow> ('l message_key \<times> payload) list) \<Rightarrow> 'l \<Rightarrow> ('a, 'l, 'r, 'd, 'm) mstate \<Rightarrow> payload list" where
  "delivered_on log lane s = map snd (filter (\<lambda>x. fst (fst x) = lane) (log (messages_runtime.more s)))"

text \<open>The messages \<open>acc\<close> are accepted from a proof of a past state of the other chain.\<close>

definition accepted_from ::
  "(outbound_lane_data \<times> payload stored_messages) list \<Rightarrow> message_nonce \<Rightarrow> message_nonce \<Rightarrow> 'l \<Rightarrow>
   'r inbound_lane_data \<Rightarrow> 'r inbound_lane_data \<Rightarrow> ('l message_key \<times> payload) list \<Rightarrow> bool" where
  "accepted_from past me mu lane d d1 acc \<longleftrightarrow>
     (\<exists>r ms st out m. (out, m) \<in> set past \<and> (\<forall>(k, p) \<in> set ms. fst k = lane \<and> m (snd k) = Some p) \<and>
        (st = None \<or> st = Some out) \<and>
        accept me mu lane r ms (case st of None \<Rightarrow> d | Some out \<Rightarrow> snd (receive_state_update out d)) = (d1, acc))"

locale messages_hooks =
  fixes cfg :: "('a, 'l, 'r, 'd, 'h, 'q, 'm) mcfg" and log :: "'m \<Rightarrow> ('l message_key \<times> payload) list"
  assumes dispatch_keeps: "same_pallet s (snd (dispatch cfg k p s))"
    and dispatch_logs: "log (messages_runtime.more (snd (dispatch cfg k p s))) = log (messages_runtime.more s) @ [(k, p)]"
    and delivery_payments_keep: "same_pallet s (delivery_payments cfg a i j w s)"
    and delivery_payments_log: "log (messages_runtime.more (delivery_payments cfg a i j w s)) = log (messages_runtime.more s)"
    and confirmation_payments_keep: "same_pallet s (snd (confirmation_payments cfg l es b rg s))"
    and confirmation_payments_log:
      "log (messages_runtime.more (snd (confirmation_payments cfg l es b rg s))) = log (messages_runtime.more s)"
    and delivered_hook_keep: "same_pallet s (on_messages_delivered cfg l n s)"
    and delivered_hook_log: "log (messages_runtime.more (on_messages_delivered cfg l n s)) = log (messages_runtime.more s)"
begin

definition logged :: "('a, 'l, 'r, 'd, 'm) mstate \<Rightarrow> ('l message_key \<times> payload) list" where
  "logged s = log (messages_runtime.more s)"

text \<open>\<open>received s lane_id d xs t\<close>: the lane has data \<open>d\<close> now, the messages \<open>xs\<close> were dispatched, no more.\<close>

definition received ::
  "('a, 'l, 'r, 'd, 'm) mstate \<Rightarrow> 'l \<Rightarrow> 'r inbound_lane_data \<Rightarrow> ('l message_key \<times> payload) list \<Rightarrow>
   ('a, 'l, 'r, 'd, 'm) mstate \<Rightarrow> bool" where
  "received s lane_id d xs t \<longleftrightarrow>
     same_pallet (s\<lparr>inbound_lanes := (inbound_lanes s)(lane_id \<mapsto> d)\<rparr>) t \<and> logged t = logged s @ xs"

lemma received_trans:
  assumes "received s lane_id d xs t" "received t lane_id d1 ys u"
  shows "received s lane_id d1 (xs @ ys) u"
proof -
  have "inbound_lanes u = (inbound_lanes s)(lane_id \<mapsto> d1)"
    using assms by (simp add: received_def same_pallet_def)
  then show ?thesis using assms by (simp add: received_def same_pallet_def)
qed

lemma receive_message_effect:
  assumes "receive_message cfg lane_id r n p d s = (res, d1, t)" "inbound_lanes s lane_id = Some d"
  shows "if accepts (max_unrewarded_relayers cfg) (max_unconfirmed_messages cfg) n d
    then d1 = note_relayer r n d \<and> received s lane_id d1 [((lane_id, n), p)] t
    else d1 = d \<and> t = s"
proof (cases "accepts (max_unrewarded_relayers cfg) (max_unconfirmed_messages cfg) n d")
  case True
  then have none: "reject_message (max_unrewarded_relayers cfg) (max_unconfirmed_messages cfg) n d = None"
    by (rule iffD2 [OF reject_accepts])
  obtain dr s1 where disp: "dispatch cfg (lane_id, n) p s = (dr, s1)" by (metis prod.exhaust)
  have "same_pallet s s1" "logged s1 = logged s @ [((lane_id, n), p)]"
    using dispatch_keeps [of s "(lane_id, n)" p] dispatch_logs [of "(lane_id, n)" p s]
    by (simp_all add: disp logged_def)
  moreover have "d1 = note_relayer r n d" "t = set_inbound_data lane_id d1 s1"
    using assms(1) by (auto simp: receive_message_def none disp Let_def)
  ultimately show ?thesis
    using True by (simp add: received_def logged_def same_pallet_def set_inbound_data_def)
next
  case False
  then obtain x :: "'d message_dispatch_result reception_result" where
    "reject_message (max_unrewarded_relayers cfg) (max_unconfirmed_messages cfg) n d = Some x"
    using reject_accepts by blast
  with assms False show ?thesis by (simp add: receive_message_def)
qed

lemma receive_loop_step:
  assumes "receive_loop cfg lane_id r ((key, p) # ms) d i j wl aw rs s = (Inr x, t)"
    "receive_message cfg lane_id r (snd key) p d s = (res, d1, s1)"
  shows "\<exists>i1 j1 wl1 aw1 rs1. receive_loop cfg lane_id r ms d1 i1 j1 wl1 aw1 rs1 s1 = (Inr x, t)"
proof -
  have "\<not> weight_any_gt (dispatch_weight cfg key p s) wl"
    by (rule notI) (use assms(1) in \<open>simp add: Let_def\<close>)
  with assms(1) show ?thesis
    unfolding receive_loop.simps Let_def assms(2) if_not_P case_prod_beta fst_conv snd_conv
    by (simp only: if_False) (intro exI, assumption)
qed

lemma receive_loop_effect:
  assumes "receive_loop cfg lane_id r ms d i j wl aw rs s = (Inr x, t)" "inbound_lanes s lane_id = Some d"
    "accept (max_unrewarded_relayers cfg) (max_unconfirmed_messages cfg) lane_id r ms d = (d1, accepted)"
  shows "received s lane_id d1 accepted t"
  using assms
proof (induction ms arbitrary: d i j wl aw rs s accepted)
  case Nil
  then show ?case by (auto simp: received_def same_pallet_def)
next
  case (Cons m ms)
  obtain l n p where m: "m = ((l, n), p)" by (metis prod.exhaust)
  obtain res d2 s2 where rm: "receive_message cfg lane_id r n p d s = (res, d2, s2)" by (metis prod.exhaust)
  obtain i' j' wl' aw' rs' where rest: "receive_loop cfg lane_id r ms d2 i' j' wl' aw' rs' s2 = (Inr x, t)"
    using receive_loop_step [OF Cons.prems(1) [unfolded m], of res d2 s2] rm unfolding snd_conv by blast
  note eff = receive_message_effect [OF rm Cons.prems(2)]
  show ?case
  proof (cases "accepts (max_unrewarded_relayers cfg) (max_unconfirmed_messages cfg) n d")
    case True
    with eff have d2: "d2 = note_relayer r n d" and s2: "received s lane_id d2 [((lane_id, n), p)] s2" by auto
    from True Cons.prems(3) d2 obtain acc where
      acc: "accept (max_unrewarded_relayers cfg) (max_unconfirmed_messages cfg) lane_id r ms d2 = (d1, acc)"
        "accepted = ((lane_id, n), p) # acc" by (auto simp: m split: prod.splits)
    have "inbound_lanes s2 lane_id = Some d2" using s2 by (simp add: received_def same_pallet_def)
    from received_trans [OF s2 Cons.IH [OF rest this acc(1)]] acc(2) show ?thesis by simp
  next
    case False
    with eff Cons.prems(3) have "d2 = d" "s2 = s"
      "accept (max_unrewarded_relayers cfg) (max_unconfirmed_messages cfg) lane_id r ms d = (d1, accepted)"
      by (simp_all add: m)
    with Cons.IH [OF rest] Cons.prems(2) show ?thesis by simp
  qed
qed

lemma received_keep:
  assumes "received s lane_id d xs t" "same_pallet t u" "logged u = logged t"
  shows "received s lane_id d xs u"
  using assms by (simp add: received_def same_pallet_def)

lemma logged_event [simp]: "logged (deposit_message_event ev s) = logged s"
  by (simp add: logged_def)

lemma received_paid:
  assumes "received s lane_id d xs t"
  shows "received s lane_id d xs (deposit_message_event ev (delivery_payments cfg a i j aw t))"
  using assms
proof (rule received_keep)
  show "same_pallet t (deposit_message_event ev (delivery_payments cfg a i j aw t))"
    by (rule same_pallet_trans [OF delivery_payments_keep same_pallet_event])
qed (simp add: logged_def delivery_payments_log)

lemma update_lane_state_effect:
  assumes "inbound_lanes s lane_id = Some d" "update_lane_state lane_id st d s = (d1, s1)"
  shows "d1 = (case st of None \<Rightarrow> d | Some out \<Rightarrow> snd (receive_state_update out d))" "received s lane_id d1 [] s1"
  using assms
  by (auto simp: update_lane_state_def received_def same_pallet_def logged_def set_inbound_data_def
      receive_state_update_def Let_def fun_upd_idem split: option.splits if_splits)

lemma receive_messages_proof_effect:
  assumes run: "receive_messages_proof cfg origin r proof n w s = (Inr x, t)"
  obtains rd st ms d d1 acc where
    "header_chain cfg (bridged_header_hash proof) (storage_proof proof) s = Inr rd"
    "read_outbound_lane rd (proof_lane proof) = Inr st"
    "\<forall>(k, p) \<in> set ms. fst k = proof_lane proof \<and> read_message rd k = Inr p"
    "inbound_lanes s (proof_lane proof) = Some d"
    "accept (max_unrewarded_relayers cfg) (max_unconfirmed_messages cfg) (proof_lane proof) r ms
       (case st of None \<Rightarrow> d | Some out \<Rightarrow> snd (receive_state_update out d)) = (d1, acc)"
    "received s (proof_lane proof) d1 acc t"
proof -
  let ?l = "proof_lane proof"
  from receive_messages_proof_Ok [OF run] obtain a pm d d0 s1 aw0 i j aw rs s2 where
    v: "verify_messages_proof cfg proof n s = Inr (?l, pm)" and d: "inbound_lanes s ?l = Some d"
    and up: "update_lane_state ?l (lane_state pm) d s = (d0, s1)"
    and loop: "receive_loop cfg ?l r (proved_messages pm) d0 0 0 w aw0 [] s1 = (Inr (i, j, aw, rs), s2)"
    and t: "t = deposit_message_event (MessagesReceived ?l rs) (delivery_payments cfg a i j aw s2)" by blast
  from verify_messages_proof_Ok [OF v] obtain rd where
    rd: "header_chain cfg (bridged_header_hash proof) (storage_proof proof) s = Inr rd"
      "read_outbound_lane rd ?l = Inr (lane_state pm)"
      "\<forall>(k, p) \<in> set (proved_messages pm). fst k = ?l \<and> read_message rd k = Inr p" by blast
  note up = update_lane_state_effect [OF d up]
  obtain d1 acc where acc: "accept (max_unrewarded_relayers cfg) (max_unconfirmed_messages cfg) ?l r
    (proved_messages pm) d0 = (d1, acc)" by (metis prod.exhaust)
  have "inbound_lanes s1 ?l = Some d0" using up(2) by (simp add: received_def same_pallet_def)
  from received_trans [OF up(2) receive_loop_effect [OF loop this acc]]
  have "received s ?l d1 acc t" unfolding t by (intro received_paid) simp
  with that rd d acc up(1) show thesis by blast
qed

lemma confirmation_effect:
  assumes nh: "\<not> is_halted_mode (operating_mode s)" and a: "ensure_signed origin = Inr a"
    and v: "verify_messages_delivery_proof cfg proof s = Inr (l, idata)" and rs: "rs = relayers_state_from idata"
    and d: "outbound_lanes s l = Some d"
    and conf: "confirm_delivery (total_unrewarded_messages idata) (last_delivered_nonce idata) (relayers idata)
       (d, lane_messages l s) = (res, d1, m1)"
  shows "case res of
      Inl e \<Rightarrow> receive_messages_delivery_proof cfg origin proof rs s = (Inl (DE_Messages (ReceptionConfirmation e)), s)
    | Inr _ \<Rightarrow> \<exists>x t. receive_messages_delivery_proof cfg origin proof rs s = (Inr x, t) \<and>
        same_pallet (set_outbound_data l d1 (set_lane_messages l m1 s)) t \<and> logged t = logged s"
proof -
  have h: "ensure_not_halted s = (Inr (), s)" using nh by (simp add: ensure_not_halted_def)
  have lm: "lift_error (\<lambda>e. DE_Messages (LanesManager e)) (outbound_from_lane_id l False) s = (Inr d, s)"
    using d by (simp add: lift_error_def outbound_from_lane_id_def)
  have tm: "urs_total_messages (relayers_state_from idata) = total_unrewarded_messages idata"
    by (simp add: relayers_state_from_def)
  note run = receive_messages_delivery_proof_def bindE_step h lm monad
    a v rs relayers_state_is_valid_def conf tm
  show ?thesis
  proof (cases res)
    case (Inl e)
    then show ?thesis by (simp add: run)
  next
    case res: (Inr c)
    show ?thesis
    proof (cases c)
      case None
      have "d1 = d" "m1 = lane_messages l s" using confirm_delivery_None conf res None by blast+
      with res None d show ?thesis
        by (simp add: run delivered_hook_keep logged_def delivered_hook_log)
    next
      case (Some c1)
      obtain y u where pay: "confirmation_payments cfg l (relayers idata) a (dm_begin c1, dm_end c1)
        (deposit_message_event (MessagesDelivered l c1) (set_outbound_data l d1 (set_lane_messages l m1 s))) = (y, u)"
        by (metis prod.exhaust)
      have "same_pallet (deposit_message_event (MessagesDelivered l c1) (set_outbound_data l d1 (set_lane_messages l m1 s))) u"
        "logged u = logged (set_outbound_data l d1 (set_lane_messages l m1 s))"
        using confirmation_payments_keep [of _ l "relayers idata" a "(dm_begin c1, dm_end c1)"]
          confirmation_payments_log [of l "relayers idata" a "(dm_begin c1, dm_end c1)"] pay
        by (metis snd_conv, metis snd_conv logged_def logged_event)
      then have "same_pallet (set_outbound_data l d1 (set_lane_messages l m1 s)) (on_messages_delivered cfg l k u)"
        "logged (on_messages_delivered cfg l k u) = logged s" for k
        using same_pallet_event same_pallet_trans delivered_hook_keep
        by (blast, simp add: logged_def delivered_hook_log set_outbound_data_def set_lane_messages_def)
      then show ?thesis using res Some by (simp add: run pay)
    qed
  qed
qed

lemma receive_messages_delivery_proof_effect:
  assumes run: "receive_messages_delivery_proof cfg origin proof rs s = (Inr x, t)"
  obtains rd idata d res d1 m1 where
    "header_chain cfg (d_bridged_header_hash proof) (d_storage_proof proof) s = Inr rd"
    "read_inbound_lane rd (d_proof_lane proof) = Inr idata"
    "outbound_lanes s (d_proof_lane proof) = Some d"
    "confirm_delivery (total_unrewarded_messages idata) (last_delivered_nonce idata) (relayers idata)
       (d, lane_messages (d_proof_lane proof) s) = (Inr res, d1, m1)"
    "same_pallet (set_outbound_data (d_proof_lane proof) d1 (set_lane_messages (d_proof_lane proof) m1 s)) t"
    "logged t = logged s"
proof -
  let ?l = "d_proof_lane proof"
  from delivery_proof_checked [OF run] obtain a idata d where
    nh: "\<not> is_halted_mode (operating_mode s)" and a: "ensure_signed origin = Inr a"
    and v: "verify_messages_delivery_proof cfg proof s = Inr (?l, idata)" and rs: "rs = relayers_state_from idata"
    and d: "outbound_lanes s ?l = Some d" by blast
  obtain res d1 m1 where conf: "confirm_delivery (total_unrewarded_messages idata) (last_delivered_nonce idata)
    (relayers idata) (d, lane_messages ?l s) = (res, d1, m1)" by (metis prod.exhaust)
  from verify_messages_delivery_proof_Ok [OF v] obtain rd where
    "header_chain cfg (d_bridged_header_hash proof) (d_storage_proof proof) s = Inr rd"
    "read_inbound_lane rd ?l = Inr idata" by blast
  with that d conf run confirmation_effect [OF nh a v rs d conf] show thesis
    by (cases res) auto
qed

text \<open>The delivery of one message that the lane accepts succeeds.\<close>

lemma single_delivery_run:
  assumes nh: "\<not> is_halted_mode (operating_mode s)" and a: "ensure_signed origin = Inr a"
    and mu: "1 \<le> max_unconfirmed_messages cfg"
    and rd: "header_chain cfg h q s = Inr rd" "read_message rd (l, n) = Inr p" "read_outbound_lane rd l = Inr (Some out)"
      "no_unused_keys rd [Key_Message (l, n), Key_OutboundLane l] = Inr ()"
    and d: "inbound_lanes s l = Some d" "is_active (in_state d)" "dispatch_is_active cfg l s"
    and up: "update_lane_state l (Some out) d s = (d0, s1)"
    and acc: "accepts (max_unrewarded_relayers cfg) (max_unconfirmed_messages cfg) n d0"
    and pr: "proof = \<lparr>bridged_header_hash = h, storage_proof = q, proof_lane = l, nonces_start = n, nonces_end = n\<rparr>"
    and w: "w = dispatch_weight cfg (l, n) p s1"
  shows "\<exists>x t. receive_messages_proof cfg origin r proof 1 w s = (Inr x, t) \<and>
    received s l (note_relayer r n d0) [((l, n), p)] t"
proof -
  let ?pm = "\<lparr>lane_state = Some out, proved_messages = [((l, n), p)]\<rparr>"
  have len: "saturating_len n n = 1" by (simp add: saturating_len_def checked_sub_def saturating_add_def)
  have ns: "nonces n n = [n]" by (simp add: nonces_def)
  have v: "verify_messages_proof cfg proof 1 s = Inr (l, ?pm)"
    using rd by (simp add: verify_messages_proof_def pr Let_def len ns)
  have h: "ensure_not_halted s = (Inr (), s)" using nh by (simp add: ensure_not_halted_def)
  have lm: "lift_error (\<lambda>e. DE_Messages (LanesManager e)) (inbound_from_lane_id cfg l True) s = (Inr d, s)"
    using d by (simp add: lift_error_def inbound_from_lane_id_def)
  obtain res d1 s2 where rm: "receive_message cfg l r n p d0 s1 = (res, d1, s2)" by (metis prod.exhaust)
  have "\<exists>i j aw rs. receive_loop cfg l r [((l, n), p)] d0 0 0 w aw0 [] s1 = (Inr (i, j, aw, rs), s2)" for aw0
    using rm by (simp add: w Let_def weight_any_gt_def split: prod.split)
  then obtain i j aw rs where loop: "receive_loop cfg l r [((l, n), p)] d0 0 0 w
      (let aw = receive_messages_proof_weight cfg proof 1 w in aw\<lparr>proof_size :=
           saturating_sub (proof_size aw) (extra_proof_size_bytes cfg d)\<rparr>) [] s1 = (Inr (i, j, aw, rs), s2)" by blast
  have run: "receive_messages_proof cfg origin r proof 1 w s =
    (Inr aw, deposit_message_event (MessagesReceived l rs) (delivery_payments cfg a i j aw s2))"
    using loop mu
    by (simp add: receive_messages_proof_def Let_def bindE_step h lm monad a v up del: receive_loop.simps)
  have up: "received s l d0 [] s1" by (rule update_lane_state_effect [OF d(1) up])
  then have "inbound_lanes s1 l = Some d0" by (simp add: received_def same_pallet_def)
  from receive_message_effect [OF rm this] acc
  have "d1 = note_relayer r n d0" "received s1 l d1 [((l, n), p)] s2" by auto
  with received_trans [OF up] have "received s l (note_relayer r n d0) [((l, n), p)] s2" by fastforce
  with run received_paid show ?thesis by blast
qed

section \<open>The calls in their storage layers\<close>

lemma logged_level [simp]: "logged (s\<lparr>transaction_level := k\<rparr>) = logged s"
  by (simp add: logged_def)

lemma logged_back: "same_pallet (inside s) u \<Longrightarrow> transaction_level s < TRANSACTIONAL_LIMIT \<Longrightarrow> logged (dec_transaction_level u) = logged u"
  using level_back [of u s] by (simp add: same_pallet_def)

lemma received_layer:
  assumes "received (inside s) l d xs u" "transaction_level s < TRANSACTIONAL_LIMIT"
  shows "received s l d xs (dec_transaction_level u)"
proof -
  let ?s = "s\<lparr>inbound_lanes := (inbound_lanes s)(l \<mapsto> d)\<rparr>"
  have "same_pallet (inside ?s) u" using assms(1) by (simp add: received_def same_pallet_def)
  with assms(2) same_pallet_back [of ?s u] logged_back [of ?s u] assms(1) show ?thesis by (simp add: received_def)
qed

lemma call_error: "dispatch_messages_call cfg origin c s = (Inl e, t) \<Longrightarrow> t = s"
  unfolding dispatch_messages_call_def by (rule storage_layer_error)

lemma delivery_call:
  assumes "dispatch_messages_call cfg origin (Receive_messages_proof r proof n w) s = (Inr x, t)"
  obtains rd st ms d d1 acc where
    "header_chain cfg (bridged_header_hash proof) (storage_proof proof) (inside s) = Inr rd"
    "read_outbound_lane rd (proof_lane proof) = Inr st"
    "\<forall>(k, p) \<in> set ms. fst k = proof_lane proof \<and> read_message rd k = Inr p"
    "inbound_lanes s (proof_lane proof) = Some d"
    "accept (max_unrewarded_relayers cfg) (max_unconfirmed_messages cfg) (proof_lane proof) r ms
       (case st of None \<Rightarrow> d | Some out \<Rightarrow> snd (receive_state_update out d)) = (d1, acc)"
    "received s (proof_lane proof) d1 acc t"
proof -
  obtain u where lim: "transaction_level s < TRANSACTIONAL_LIMIT" and t: "t = dec_transaction_level u"
    and "messages_call_body cfg origin (Receive_messages_proof r proof n w) (inside s) = (Inr x, u)"
    using assms unfolding dispatch_messages_call_def by (rule storage_layer_Ok)
  then obtain y where "receive_messages_proof cfg origin r proof n w (inside s) = (Inr y, u)"
    by (auto simp: bindE_eq_Inr ret_def)
  then show thesis
  proof (rule receive_messages_proof_effect)
    fix rd st ms d d1 acc
    assume "received (inside s) (proof_lane proof) d1 acc u"
    then have "received s (proof_lane proof) d1 acc t" unfolding t using lim by (rule received_layer)
    moreover assume "inbound_lanes (inside s) (proof_lane proof) = Some d"
    then have "inbound_lanes s (proof_lane proof) = Some d" by simp
    moreover assume "header_chain cfg (bridged_header_hash proof) (storage_proof proof) (inside s) = Inr rd"
    "read_outbound_lane rd (proof_lane proof) = Inr st"
    "\<forall>(k, p) \<in> set ms. fst k = proof_lane proof \<and> read_message rd k = Inr p"
    "accept (max_unrewarded_relayers cfg) (max_unconfirmed_messages cfg) (proof_lane proof) r ms
       (case st of None \<Rightarrow> d | Some out \<Rightarrow> snd (receive_state_update out d)) = (d1, acc)"
    ultimately show thesis using that by blast
  qed
qed

lemma confirmation_call:
  assumes "dispatch_messages_call cfg origin (Receive_messages_delivery_proof proof rs) s = (Inr x, t)"
  obtains rd idata d res d1 m1 where
    "header_chain cfg (d_bridged_header_hash proof) (d_storage_proof proof) (inside s) = Inr rd"
    "read_inbound_lane rd (d_proof_lane proof) = Inr idata"
    "outbound_lanes s (d_proof_lane proof) = Some d"
    "confirm_delivery (total_unrewarded_messages idata) (last_delivered_nonce idata) (relayers idata)
       (d, lane_messages (d_proof_lane proof) s) = (Inr res, d1, m1)"
    "same_pallet (set_outbound_data (d_proof_lane proof) d1 (set_lane_messages (d_proof_lane proof) m1 s)) t"
    "logged t = logged s"
proof -
  obtain u where lim: "transaction_level s < TRANSACTIONAL_LIMIT" and t: "t = dec_transaction_level u"
    and "messages_call_body cfg origin (Receive_messages_delivery_proof proof rs) (inside s) = (Inr x, u)"
    using assms unfolding dispatch_messages_call_def by (rule storage_layer_Ok)
  then obtain y where "receive_messages_delivery_proof cfg origin proof rs (inside s) = (Inr y, u)"
    by (auto simp: bindE_eq_Inr ret_def)
  then show thesis
  proof (rule receive_messages_delivery_proof_effect)
    let ?l = "d_proof_lane proof"
    fix rd idata d res d1 m1
    let ?s = "set_outbound_data ?l d1 (set_lane_messages ?l m1 s)"
    assume "same_pallet (set_outbound_data ?l d1 (set_lane_messages ?l m1 (inside s))) u"
    then have p: "same_pallet (inside ?s) u"
      by (simp add: same_pallet_def set_outbound_data_def set_lane_messages_def
          cong del: prod.case_cong_weak cong: if_cong)
    have lim: "transaction_level ?s < TRANSACTIONAL_LIMIT"
      using lim by (simp add: set_outbound_data_def set_lane_messages_def)
    have "same_pallet ?s t" "logged t = logged u"
      unfolding t by (rule same_pallet_back [OF p lim], rule logged_back [OF p lim])
    moreover assume "header_chain cfg (d_bridged_header_hash proof) (d_storage_proof proof) (inside s) = Inr rd"
      "read_inbound_lane rd ?l = Inr idata" "outbound_lanes (inside s) ?l = Some d" "logged u = logged (inside s)"
      "confirm_delivery (total_unrewarded_messages idata) (last_delivered_nonce idata) (relayers idata)
       (d, lane_messages ?l (inside s)) = (Inr res, d1, m1)"
    ultimately show thesis using that by (simp add: lane_messages_def)
  qed
qed

lemma admin_call:
  assumes run: "dispatch_messages_call cfg origin c s = (Inr x, t)"
    and c: "c = Set_owner owner \<or> c = Set_operating_mode mode"
  shows "same_lanes s t \<and> logged t = logged s"
proof -
  obtain u where lim: "transaction_level s < TRANSACTIONAL_LIMIT" and t: "t = dec_transaction_level u"
    and "messages_call_body cfg origin c (inside s) = (Inr x, u)"
    using run unfolding dispatch_messages_call_def by (rule storage_layer_Ok)
  then have u: "u = (inside s)\<lparr>pallet_owner := owner\<rparr> \<or> u = (inside s)\<lparr>operating_mode := mode\<rparr>"
    using c by (auto simp: bindE_eq_Inr returns set_owner_def set_operating_mode_def ensure_owner_or_root_def
        split: raw_origin.splits if_splits)
  then have "transaction_level u = transaction_level s + 1" by (elim disjE) simp_all
  with lim t have t: "t = u\<lparr>transaction_level := transaction_level s\<rparr>" by (simp add: level_back [of u s])
  from u show ?thesis unfolding t by (elim disjE) (simp_all add: same_lanes_def logged_def)
qed

text \<open>What any call does to one outbound lane, and to one inbound lane and what was delivered on it.\<close>

lemma call_outbound:
  assumes run: "dispatch_messages_call cfg origin c s = (res, t)"
    and sound: "confirmations_sound cfg lane past (inside s)" and d: "outbound_lanes s lane = Some d"
  shows "transaction_level t = transaction_level s \<and> (\<exists>d1. outbound_lanes t lane = Some d1 \<and>
    ((d1, lane_messages lane t) = (d, lane_messages lane s) \<or>
     (\<exists>e \<in> set past. \<exists>res. confirm_delivery (total_unrewarded_messages e) (last_delivered_nonce e) (relayers e)
        (d, lane_messages lane s) = (Inr res, d1, lane_messages lane t))))"
proof (cases res)
  case (Inl e)
  have "t = s" by (rule call_error [OF run [unfolded Inl]])
  with d show ?thesis by simp
next
  case res: (Inr x)
  have same: ?thesis if "outbound_lanes t lane = outbound_lanes s lane" "lane_messages lane t = lane_messages lane s"
    "transaction_level t = transaction_level s"
    using that d by simp
  show ?thesis
  proof (cases c)
    case (Receive_messages_proof r pf n w)
    from run [unfolded res Receive_messages_proof] show ?thesis
      by (rule delivery_call) (rule same; simp add: received_def same_pallet_def lane_messages_def)
  next
    case (Receive_messages_delivery_proof pf rs)
    let ?l = "d_proof_lane pf"
    from run [unfolded res Receive_messages_delivery_proof] show ?thesis
    proof (rule confirmation_call)
      fix rd idata d0 res1 d1 m1
      assume rd: "header_chain cfg (d_bridged_header_hash pf) (d_storage_proof pf) (inside s) = Inr rd"
        "read_inbound_lane rd ?l = Inr idata" and d0: "outbound_lanes s ?l = Some d0"
        and conf: "confirm_delivery (total_unrewarded_messages idata) (last_delivered_nonce idata) (relayers idata)
          (d0, lane_messages ?l s) = (Inr res1, d1, m1)"
        and t: "same_pallet (set_outbound_data ?l d1 (set_lane_messages ?l m1 s)) t"
      show ?thesis
      proof (cases "?l = lane")
        case True
        then have "idata \<in> set past" using sound rd by (auto simp: confirmations_sound_def)
        moreover have "outbound_lanes t lane = Some d1" "lane_messages lane t = m1" "transaction_level t = transaction_level s"
          using t True by (simp_all add: same_pallet_def set_outbound_data_def set_lane_messages_def lane_messages_def)
        ultimately show ?thesis using conf d d0 True by auto
      next
        case False
        then show ?thesis
          using t by (intro same) (simp_all add: same_pallet_def set_outbound_data_def set_lane_messages_def lane_messages_def)
      qed
    qed
  next
    case (Set_owner owner)
    with admin_call [OF run [unfolded res], of owner "Basic Normal"] have "same_lanes s t" by simp
    then show ?thesis by (intro same) (simp_all add: same_lanes_def lane_messages_def)
  next
    case (Set_operating_mode mode)
    with admin_call [OF run [unfolded res], of None mode] have "same_lanes s t" by simp
    then show ?thesis by (intro same) (simp_all add: same_lanes_def lane_messages_def)
  qed
qed

lemma received_delivered:
  assumes "received s l d1 acc t" "accept me mu l r ms d = (d1, acc)"
  shows "delivered_on log lane t = delivered_on log lane s @ (if l = lane then map snd acc else [])"
proof -
  have "\<forall>x \<in> set acc. fst (fst x) = l" using accept_lane [of _ me mu l r ms d] assms(2) by simp
  then have "filter (\<lambda>x. fst (fst x) = lane) acc = (if l = lane then acc else [])" by (auto simp: filter_empty_conv)
  then show ?thesis using assms(1) by (simp add: delivered_on_def received_def logged_def)
qed

lemma delivery_call_inbound:
  assumes run: "dispatch_messages_call cfg origin (Receive_messages_proof r pf n w) s = (Inr x, t)"
    and sound: "deliveries_sound cfg lane past (inside s)" and d: "inbound_lanes s lane = Some d"
  shows "transaction_level t = transaction_level s \<and> (\<exists>d1. inbound_lanes t lane = Some d1 \<and>
    (d1 = d \<and> delivered_on log lane t = delivered_on log lane s \<or>
     (\<exists>acc. accepted_from past (max_unrewarded_relayers cfg) (max_unconfirmed_messages cfg) lane d d1 acc \<and>
        delivered_on log lane t = delivered_on log lane s @ map snd acc)))"
  using run
proof (rule delivery_call)
  let ?l = "proof_lane pf"
  fix rd st ms d0 d1 acc
  assume rd: "header_chain cfg (bridged_header_hash pf) (storage_proof pf) (inside s) = Inr rd"
    "read_outbound_lane rd ?l = Inr st" "\<forall>(k, p) \<in> set ms. fst k = ?l \<and> read_message rd k = Inr p"
    and d0: "inbound_lanes s ?l = Some d0"
    and acc: "accept (max_unrewarded_relayers cfg) (max_unconfirmed_messages cfg) ?l r ms
      (case st of None \<Rightarrow> d0 | Some out \<Rightarrow> snd (receive_state_update out d0)) = (d1, acc)"
    and rec: "received s ?l d1 acc t"
  have t: "inbound_lanes t lane = (if ?l = lane then Some d1 else Some d)" "transaction_level t = transaction_level s"
    using rec d by (simp_all add: received_def same_pallet_def)
  show ?thesis
  proof (cases "?l = lane")
    case True
    from sound rd(1) obtain out m where past: "(out, m) \<in> set past"
      "\<forall>n p. read_message rd (lane, n) = Inr p \<longrightarrow> m n = Some p"
      "\<forall>d1. read_outbound_lane rd lane = Inr (Some d1) \<longrightarrow> d1 = out"
      unfolding deliveries_sound_def by blast
    have "st = None \<or> st = Some out" using rd(2) past(3) True by (cases st) auto
    moreover have "\<forall>(k, p) \<in> set ms. fst k = lane \<and> m (snd k) = Some p" using rd(3) past(2) True by fastforce
    moreover have "d0 = d" using d d0 True by simp
    ultimately have "accepted_from past (max_unrewarded_relayers cfg) (max_unconfirmed_messages cfg) lane d d1 acc"
      using past(1) acc True unfolding accepted_from_def by blast
    then show ?thesis using t True received_delivered [OF rec acc, of lane] by auto
  next
    case False
    then show ?thesis using t received_delivered [OF rec acc, of lane] by simp
  qed
qed

lemma call_inbound:
  assumes run: "dispatch_messages_call cfg origin c s = (res, t)"
    and sound: "deliveries_sound cfg lane past (inside s)" and d: "inbound_lanes s lane = Some d"
  shows "transaction_level t = transaction_level s \<and> (\<exists>d1. inbound_lanes t lane = Some d1 \<and>
    (d1 = d \<and> delivered_on log lane t = delivered_on log lane s \<or>
     (\<exists>acc. accepted_from past (max_unrewarded_relayers cfg) (max_unconfirmed_messages cfg) lane d d1 acc \<and>
        delivered_on log lane t = delivered_on log lane s @ map snd acc)))"
proof (cases res)
  case (Inl e)
  have "t = s" by (rule call_error [OF run [unfolded Inl]])
  with d show ?thesis by simp
next
  case res: (Inr x)
  have same: ?thesis if "inbound_lanes t lane = inbound_lanes s lane" "delivered_on log lane t = delivered_on log lane s"
    "transaction_level t = transaction_level s"
    using that d by simp
  have admin: ?thesis if "same_lanes s t \<and> logged t = logged s"
    using that by (intro same) (simp_all add: same_lanes_def delivered_on_def logged_def)
  show ?thesis
  proof (cases c)
    case (Receive_messages_proof r pf n w)
    show ?thesis
      using run [unfolded res Receive_messages_proof] sound d by (rule delivery_call_inbound)
  next
    case (Receive_messages_delivery_proof pf rs)
    from run [unfolded res Receive_messages_delivery_proof] show ?thesis
      by (rule confirmation_call)
        (rule same; simp add: same_pallet_def set_outbound_data_def set_lane_messages_def delivered_on_def logged_def)
  next
    case (Set_owner owner)
    with admin_call [OF run [unfolded res], of owner "Basic Normal"] show ?thesis by (intro admin) simp
  next
    case (Set_operating_mode mode)
    with admin_call [OF run [unfolded res], of None mode] show ?thesis by (intro admin) simp
  qed
qed

text \<open>The same two calls when nothing stands in their way.\<close>

lemma delivery_call_run:
  assumes lim: "transaction_level s < TRANSACTIONAL_LIMIT" and nh: "\<not> is_halted_mode (operating_mode s)"
    and mu: "1 \<le> max_unconfirmed_messages cfg"
    and rd: "header_chain cfg h q (inside s) = Inr rd" "read_message rd (l, n) = Inr p"
      "read_outbound_lane rd l = Inr (Some out)" "no_unused_keys rd [Key_Message (l, n), Key_OutboundLane l] = Inr ()"
    and d: "inbound_lanes s l = Some d" "is_active (in_state d)" "dispatch_is_active cfg l (inside s)"
    and acc: "accepts (max_unrewarded_relayers cfg) (max_unconfirmed_messages cfg) n (snd (receive_state_update out d))"
  shows "\<exists>c x t. dispatch_messages_call cfg (Signed a) c s = (Inr x, t) \<and>
    received s l (note_relayer r n (snd (receive_state_update out d))) [((l, n), p)] t"
proof -
  let ?pf = "\<lparr>bridged_header_hash = h, storage_proof = q, proof_lane = l, nonces_start = n, nonces_end = n\<rparr>"
  obtain d0 s1 where up: "update_lane_state l (Some out) d (inside s) = (d0, s1)" by (metis prod.exhaust)
  have d': "inbound_lanes (inside s) l = Some d" using d(1) by simp
  have d0: "d0 = snd (receive_state_update out d)" using update_lane_state_effect(1) [OF d' up] by simp
  have "\<not> is_halted_mode (operating_mode (inside s))" using nh by simp
  from single_delivery_run [OF this ensure_signed.simps(1) [of a] mu rd d' d(2,3) up acc [folded d0] refl refl]
  obtain x u where run: "receive_messages_proof cfg (Signed a) r ?pf 1 (dispatch_weight cfg (l, n) p s1) (inside s) = (Inr x, u)"
    and rec: "received (inside s) l (note_relayer r n d0) [((l, n), p)] u" by blast
  let ?c = "Receive_messages_proof r ?pf 1 (dispatch_weight cfg (l, n) p s1)"
  have "messages_call_body cfg (Signed a) ?c (inside s) = (Inr (Some x), u)"
    using run by (simp add: bindE_step ret_def)
  from storage_layer_run [of "messages_call_body cfg (Signed a) ?c", OF this lim] received_layer [OF rec lim] show ?thesis
    unfolding dispatch_messages_call_def d0 by blast
qed

lemma confirmation_call_run:
  assumes lim: "transaction_level s < TRANSACTIONAL_LIMIT" and nh: "\<not> is_halted_mode (operating_mode s)"
    and rd: "header_chain cfg h q (inside s) = Inr rd" "read_inbound_lane rd l = Inr idata"
      "no_unused_keys rd [Key_InboundLane l] = Inr ()"
    and d: "outbound_lanes s l = Some d"
    and conf: "confirm_delivery (total_unrewarded_messages idata) (last_delivered_nonce idata) (relayers idata)
       (d, lane_messages l s) = (Inr res, d1, m1)"
  shows "\<exists>c x t. dispatch_messages_call cfg (Signed a) c s = (Inr x, t) \<and>
    same_pallet (set_outbound_data l d1 (set_lane_messages l m1 s)) t"
proof -
  let ?pf = "\<lparr>d_bridged_header_hash = h, d_storage_proof = q, d_proof_lane = l\<rparr>"
  let ?c = "Receive_messages_delivery_proof ?pf (relayers_state_from idata)"
  let ?s = "set_outbound_data l d1 (set_lane_messages l m1 s)"
  have v: "verify_messages_delivery_proof cfg ?pf (inside s) = Inr (l, idata)"
    using rd by (simp add: verify_messages_delivery_proof_def)
  have "\<not> is_halted_mode (operating_mode (inside s))" "outbound_lanes (inside s) l = Some d"
    "confirm_delivery (total_unrewarded_messages idata) (last_delivered_nonce idata) (relayers idata)
       (d, lane_messages l (inside s)) = (Inr res, d1, m1)"
    using nh d conf by (simp_all add: lane_messages_def)
  from confirmation_effect [OF this(1) ensure_signed.simps(1) [of a] v refl this(2,3)]
  obtain x u where run: "receive_messages_delivery_proof cfg (Signed a) ?pf (relayers_state_from idata) (inside s) = (Inr x, u)"
    and u: "same_pallet (set_outbound_data l d1 (set_lane_messages l m1 (inside s))) u" by auto
  have body: "messages_call_body cfg (Signed a) ?c (inside s) = (Inr (Some x), u)"
    using run by (simp add: bindE_step ret_def)
  have "same_pallet (inside ?s) u" "transaction_level ?s < TRANSACTIONAL_LIMIT" using u lim
    by (simp_all add: same_pallet_def set_outbound_data_def set_lane_messages_def
          cong del: prod.case_cong_weak cong: if_cong)
  from same_pallet_back [OF this] storage_layer_run [of "messages_call_body cfg (Signed a) ?c", OF body lim] show ?thesis
    unfolding dispatch_messages_call_def by blast
qed

end

end
