(* ===== verification/Bridge.thy ===== *)
theory Bridge
  imports Delivery "HOL-Library.Sublist"
begin

text \<open>
  Two chains with the messages pallet and a lane between them, as a transition system: messages are
  sent on the source chain, anybody calls the pallets of the two chains in any order and with any
  arguments, lanes are closed and reopened, other pallets run, and blocks of either chain become
  known to the other. The calls are those of the pallet, so relayers may be late, repeat
  themselves, compete or lie; the light clients are assumed to accept only proofs of past states.

  The lemmas give an invariant of the two ends of the lane together with the past states of each
  chain, that every step keeps it, and that a step is a sequence of steps of a queue. The theorems
  that follow from it are in the next theory.
\<close>

section \<open>The transition system\<close>

text \<open>
  \<open>sent\<close> is the sequence of messages sent so far; the past states of a chain are what its
  light client on the other chain can have seen of the lane.

  A message is sent with the arguments that \<open>validate_message\<close> returned, now or in any earlier state
  \<open>s0\<close>, as long as the lane data in them is still that of the lane (a ticket that is not stale;
  sending a stale one is outside these steps, and \<open>stale_ticket_overwrites\<close> says what it does). On
  the other lanes any message may be sent. The pruning and purging of a lane when it is closed for
  good (\<open>remove_oldest_unpruned_message\<close>, \<open>purge\<close>), which drop undelivered messages on purpose, are no
  steps either: the system describes the life of a lane from its opening until then.
\<close>

record ('s, 't, 'a) bridge =
  source :: 's
  target :: 't
  sent :: "payload list"
  source_past :: "(outbound_lane_data \<times> payload stored_messages) list"
  target_past :: "'a inbound_lane_data list"

inductive bridge_step ::
  "('a, 'l, 'b, 'd, 'h, 'q, 'm) mcfg \<Rightarrow> ('b, 'l, 'a, 'e, 'i, 'p, 'n) mcfg \<Rightarrow>
   ('n \<Rightarrow> ('l message_key \<times> payload) list) \<Rightarrow> 'l \<Rightarrow>
   (('a, 'l, 'b, 'd, 'm) mstate, ('b, 'l, 'a, 'e, 'n) mstate, 'a) bridge \<Rightarrow>
   (('a, 'l, 'b, 'd, 'm) mstate, ('b, 'l, 'a, 'e, 'n) mstate, 'a) bridge \<Rightarrow> bool"
  for scfg tcfg log lane where
  send:
    "validate_message scfg lane p s0 = (Inr args, s1) \<Longrightarrow> outbound_lanes (source b) lane = Some (args_lane args) \<Longrightarrow>
     send_message args (source b) = (artifacts, s2) \<Longrightarrow> Suc (length (sent b)) < 2 ^ 64 - 1 \<Longrightarrow>
     bridge_step scfg tcfg log lane b (b\<lparr>source := s2, sent := sent b @ [p]\<rparr>)"
| send_elsewhere:
    "send_message args (source b) = (artifacts, s2) \<Longrightarrow> args_lane_id args \<noteq> lane \<Longrightarrow>
     bridge_step scfg tcfg log lane b (b\<lparr>source := s2\<rparr>)"
| source_call:
    "dispatch_messages_call scfg origin c (source b) = (res, s1) \<Longrightarrow>
     confirmations_sound scfg lane (target_past b) (inside (source b)) \<Longrightarrow>
     bridge_step scfg tcfg log lane b (b\<lparr>source := s1\<rparr>)"
| target_call:
    "dispatch_messages_call tcfg origin' c' (target b) = (res', t1) \<Longrightarrow>
     deliveries_sound tcfg lane (source_past b) (inside (target b)) \<Longrightarrow>
     bridge_step scfg tcfg log lane b (b\<lparr>target := t1\<rparr>)"
| source_lane_state:
    "outbound_from_lane_id lane False (source b) = (Inr d, s1) \<Longrightarrow> set_outbound_state lane st d s1 = (d1, s2) \<Longrightarrow>
     bridge_step scfg tcfg log lane b (b\<lparr>source := s2\<rparr>)"
| target_lane_state:
    "inbound_from_lane_id tcfg lane False (target b) = (Inr e, t1) \<Longrightarrow> set_inbound_state lane st e t1 = (e1, t2) \<Longrightarrow>
     bridge_step scfg tcfg log lane b (b\<lparr>target := t2\<rparr>)"
| source_other: "same_lanes (source b) s1 \<Longrightarrow> bridge_step scfg tcfg log lane b (b\<lparr>source := s1\<rparr>)"
| target_other:
    "same_lanes (target b) t1 \<Longrightarrow> log (messages_runtime.more t1) = log (messages_runtime.more (target b)) \<Longrightarrow>
     bridge_step scfg tcfg log lane b (b\<lparr>target := t1\<rparr>)"
| source_block:
    "outbound_lanes (source b) lane = Some d \<Longrightarrow>
     bridge_step scfg tcfg log lane b (b\<lparr>source_past := (d, lane_messages lane (source b)) # source_past b\<rparr>)"
| target_block:
    "inbound_lanes (target b) lane = Some e \<Longrightarrow>
     bridge_step scfg tcfg log lane b (b\<lparr>target_past := e # target_past b\<rparr>)"

text \<open>The lane has just been opened at both ends.\<close>

definition bridge_init ::
  "('n \<Rightarrow> ('l message_key \<times> payload) list) \<Rightarrow> 'l \<Rightarrow>
   (('a, 'l, 'b, 'd, 'm) mstate, ('b, 'l, 'a, 'e, 'n) mstate, 'a) bridge \<Rightarrow> bool" where
  "bridge_init log lane b \<longleftrightarrow>
     outbound_lanes (source b) lane = Some outbound_opened \<and> lane_messages lane (source b) = Map.empty \<and>
     inbound_lanes (target b) lane = Some inbound_opened \<and> delivered_on log lane (target b) = [] \<and>
     transaction_level (source b) = 0 \<and> transaction_level (target b) = 0 \<and>
     sent b = [] \<and> source_past b = [] \<and> target_past b = []"

section \<open>The invariant\<close>

definition honest :: "payload list \<Rightarrow> payload stored_messages \<Rightarrow> bool" where
  "honest ps m \<longleftrightarrow> (\<forall>n p. m n = Some p \<longrightarrow> 0 < unat n \<and> unat n \<le> length ps \<and> p = ps ! (unat n - 1))"

definition source_inv :: "payload list \<Rightarrow> outbound_lane_data \<Rightarrow> payload stored_messages \<Rightarrow> bool" where
  "source_inv ps d m \<longleftrightarrow> outbound_ok (d, m) \<and> unat (latest_generated_nonce d) = length ps \<and> honest ps m"

definition target_inv :: "payload list \<Rightarrow> payload list \<Rightarrow> 'a inbound_lane_data \<Rightarrow> bool" where
  "target_inv ps out e \<longleftrightarrow> inbound_ok e \<and> unat (last_delivered_nonce e) \<le> length ps \<and>
     out = take (unat (last_delivered_nonce e)) ps"

definition past_inv ::
  "payload list \<Rightarrow> outbound_lane_data \<Rightarrow> 'a inbound_lane_data \<Rightarrow>
   (outbound_lane_data \<times> payload stored_messages) list \<Rightarrow> 'a inbound_lane_data list \<Rightarrow> bool" where
  "past_inv ps d e dp ep \<longleftrightarrow>
     latest_received_nonce d \<le> last_delivered_nonce e \<and> last_confirmed_nonce e \<le> latest_received_nonce d \<and>
     (\<forall>(d1, m1) \<in> set dp. latest_received_nonce d1 \<le> latest_received_nonce d \<and> honest ps m1) \<and>
     (\<forall>e1 \<in> set ep. inbound_ok e1 \<and> last_delivered_nonce e1 \<le> last_delivered_nonce e \<and>
        last_confirmed_nonce e1 \<le> latest_received_nonce d)"

definition bridge_inv ::
  "('n \<Rightarrow> ('l message_key \<times> payload) list) \<Rightarrow> 'l \<Rightarrow>
   (('a, 'l, 'b, 'd, 'm) mstate, ('b, 'l, 'a, 'e, 'n) mstate, 'a) bridge \<Rightarrow>
   outbound_lane_data \<Rightarrow> 'a inbound_lane_data \<Rightarrow> bool" where
  "bridge_inv log lane b d e \<longleftrightarrow>
     outbound_lanes (source b) lane = Some d \<and> inbound_lanes (target b) lane = Some e \<and>
     transaction_level (source b) = 0 \<and> transaction_level (target b) = 0 \<and>
     source_inv (sent b) d (lane_messages lane (source b)) \<and>
     target_inv (sent b) (delivered_on log lane (target b)) e \<and>
     past_inv (sent b) d e (source_past b) (target_past b)"

lemma honest_snoc: "honest ps m \<Longrightarrow> honest (ps @ [p]) m"
  by (fastforce simp: honest_def nth_append)

lemma source_inv_send:
  assumes inv: "source_inv ps d m" and run: "send_message_lane p (d, m) = (n, d1, m1)"
    and room: "Suc (length ps) < 2 ^ 64 - 1"
  shows "source_inv (ps @ [p]) d1 m1" "latest_received_nonce d1 = latest_received_nonce d" "out_state d1 = out_state d"
proof -
  have inv: "outbound_ok (d, m)" "unat (latest_generated_nonce d) = length ps" "honest ps m"
    using inv by (simp_all add: source_inv_def)
  have "unat (latest_generated_nonce d) + 1 < 2 ^ 64 - 1" using inv(2) room by simp
  note s = send_message_ok [OF inv(1) this run]
  have "honest (ps @ [p]) m1"
    unfolding honest_def s(5) using honest_snoc [OF inv(3), of p] s(2) inv(2)
    by (auto simp: honest_def nth_append split: if_splits)
  then show "source_inv (ps @ [p]) d1 m1" using s inv(2) by (simp add: source_inv_def)
qed (use send_message_ok [OF _ _ run] inv room in \<open>simp_all add: source_inv_def\<close>)

lemma confirm_past:
  assumes inv: "source_inv ps d m" "target_inv ps out e" "past_inv ps d e dp ep" and e1: "e1 \<in> set ep"
  shows "confirm_delivery (total_unrewarded_messages e1) (last_delivered_nonce e1) (relayers e1) (d, m) =
    (if last_delivered_nonce e1 \<le> latest_received_nonce d then (Inr None, d, m)
     else (Inr (Some \<lparr>dm_begin = latest_received_nonce d + 1, dm_end = last_delivered_nonce e1\<rparr>),
       d\<lparr>latest_received_nonce := last_delivered_nonce e1, oldest_unpruned_nonce := last_delivered_nonce e1 + 1\<rparr>,
       (\<lambda>n. if latest_received_nonce d < n \<and> n \<le> last_delivered_nonce e1 then None else m n)))"
proof -
  have e1: "covers (unat (last_confirmed_nonce e1)) (relayers e1) (unat (last_delivered_nonce e1))"
    "last_delivered_nonce e1 \<le> last_delivered_nonce e" "last_confirmed_nonce e1 \<le> latest_received_nonce d"
    using inv(3) e1 by (simp_all add: past_inv_def inbound_ok_def)
  show ?thesis
  proof (rule confirm_delivery_run [OF _ e1(1)])
    show "outbound_ok (d, m)" using inv(1) by (simp add: source_inv_def)
    show "last_delivered_nonce e1 \<le> latest_generated_nonce d"
      using inv(1,2) e1(2) by (simp add: source_inv_def target_inv_def word_le_nat_alt)
    show "unat (last_delivered_nonce e1) - unat (latest_received_nonce d) \<le> unat (total_unrewarded_messages e1)"
      using total_unrewarded_covers [OF e1(1)] e1(3) by (simp add: word_le_nat_alt)
  qed
qed

lemma confirm_keeps:
  assumes inv: "source_inv ps d m" "target_inv ps out e" "past_inv ps d e dp ep" and e1: "e1 \<in> set ep"
    and run: "confirm_delivery (total_unrewarded_messages e1) (last_delivered_nonce e1) (relayers e1) (d, m) = (res, d1, m1)"
  shows "source_inv ps d1 m1" "past_inv ps d1 e dp ep" "out_state d1 = out_state d"
    "latest_received_nonce d1 = max (latest_received_nonce d) (last_delivered_nonce e1)"
proof -
  let ?r = "latest_received_nonce d" and ?n = "last_delivered_nonce e1"
  have e1: "?n \<le> last_delivered_nonce e" "last_delivered_nonce e \<le> latest_generated_nonce d"
    using inv e1 by (auto simp: past_inv_def source_inv_def target_inv_def word_le_nat_alt)
  have d: "unat (latest_generated_nonce d) < 2 ^ 64 - 1" "unat (latest_generated_nonce d) = length ps" "honest ps m"
    "outbound_ok (d, m)" using inv(1) by (simp_all add: source_inv_def outbound_ok_def)
  show "latest_received_nonce d1 = max ?r ?n" "out_state d1 = out_state d"
    using run confirm_past [OF inv assms(4)] by (auto simp: max_def split: if_splits)
  then show "past_inv ps d1 e dp ep" using inv(3) e1 by (auto simp: past_inv_def le_max_iff_disj)
  show "source_inv ps d1 m1"
  proof (cases "?n \<le> ?r")
    case True
    then show ?thesis using run confirm_past [OF inv assms(4)] inv(1) by simp
  next
    case False
    then have d1: "d1 = d\<lparr>latest_received_nonce := ?n, oldest_unpruned_nonce := ?n + 1\<rparr>"
      "m1 = (\<lambda>n. if ?r < n \<and> n \<le> ?n then None else m n)"
      using run confirm_past [OF inv assms(4)] by simp_all
    have "unat (?n + 1) = Suc (unat ?n)"
      using e1 d(1) by (intro unat_Suc64) (simp add: word_le_nat_alt)
    moreover have "m1 n \<noteq> None \<longleftrightarrow> ?n < n \<and> n \<le> latest_generated_nonce d" for n
      using d(4) False by (auto simp: d1 outbound_ok_def)
    ultimately have "outbound_ok (d1, m1)" using e1 d(1) by (simp add: outbound_ok_def d1)
    moreover have "honest ps m1" using d(3) by (auto simp: honest_def d1)
    ultimately show ?thesis using d(2) by (simp add: source_inv_def d1)
  qed
qed

lemma state_update_past:
  assumes "inbound_ok e" "last_confirmed_nonce e \<le> latest_received_nonce d"
    "st = None \<or> st = Some d1" "latest_received_nonce d1 \<le> latest_received_nonce d"
    and e0: "e0 = (case st of None \<Rightarrow> e | Some out \<Rightarrow> snd (receive_state_update out e))"
  shows "inbound_ok e0" "last_delivered_nonce e0 = last_delivered_nonce e" "in_state e0 = in_state e"
    "last_confirmed_nonce e0 \<le> latest_received_nonce d"
proof -
  obtain r e2 where run: "receive_state_update d1 e = (r, e2)" by (metis prod.exhaust)
  have "e0 = e \<or> e0 = e2" using assms(3) e0 run by auto
  with receive_state_update_ok [OF assms(1) run] assms(1,2,4)
  show "inbound_ok e0" "last_delivered_nonce e0 = last_delivered_nonce e" "in_state e0 = in_state e"
    "last_confirmed_nonce e0 \<le> latest_received_nonce d"
    by (auto simp: max_def split: if_splits)
qed

lemma accepted_keeps:
  assumes inv: "target_inv ps out e" "past_inv ps d e dp ep" and acc: "accepted_from dp me mu lane e e1 acc"
  shows "target_inv ps (out @ map snd acc) e1" "past_inv ps d e1 dp ep" "in_state e1 = in_state e"
proof -
  from acc obtain r ms st d1 m e0 where dm: "(d1, m) \<in> set dp"
    and ms: "\<forall>(k, p) \<in> set ms. fst k = lane \<and> m (snd k) = Some p" and st: "st = None \<or> st = Some d1"
    and e0: "e0 = (case st of None \<Rightarrow> e | Some out \<Rightarrow> snd (receive_state_update out e))"
    and run: "accept me mu lane r ms e0 = (e1, acc)" unfolding accepted_from_def by blast
  have e: "inbound_ok e" "last_confirmed_nonce e \<le> latest_received_nonce d"
    and d1: "latest_received_nonce d1 \<le> latest_received_nonce d" "honest ps m"
    and le: "unat (last_delivered_nonce e) \<le> length ps"
    using inv dm by (auto simp: target_inv_def past_inv_def)
  note up = state_update_past [OF e st d1(1) e0]
  have "authentic lane ps ms" using ms d1(2) by (fastforce simp: authentic_def honest_def)
  note ok = accept_ok [OF run up(1) this, unfolded up(2,3), OF le]
  then show "target_inv ps (out @ map snd acc) e1" "in_state e1 = in_state e"
    using inv(1) by (simp_all add: target_inv_def)
  have "last_delivered_nonce e \<le> last_delivered_nonce e1" "last_confirmed_nonce e1 \<le> latest_received_nonce d"
    using ok up(4) by (simp_all add: word_le_nat_alt)
  then show "past_inv ps d e1 dp ep" using inv(2) by (auto simp: past_inv_def)
qed

section \<open>Every step keeps the invariant\<close>

lemma validate_message_Ok:
  assumes "validate_message cfg l p s = (Inr args, t)"
  shows "t = s" "args_lane_id args = l" "args_payload args = p" "outbound_lanes s l = Some (args_lane args)"
  using assms
  by (auto simp: validate_message_def bindE_eq_Inr returns ensure_normal_operating_mode_def lift_error_Ok
      split: if_splits dest!: outbound_from_lane_id_Ok)

lemma send_message_state:
  assumes "send_message args s = (artifacts, t)"
    "send_message_lane (args_payload args) (args_lane args, lane_messages (args_lane_id args) s) = (n, d1, m1)"
  shows "same_pallet (set_outbound_data (args_lane_id args) d1 (set_lane_messages (args_lane_id args) m1 s)) t"
    "messages_runtime.more t = messages_runtime.more s"
  using assms by (auto simp: send_message_def Let_def set_outbound_data_def set_lane_messages_def)

lemma bridge_inv_source:
  assumes inv: "bridge_inv log lane b d e" and s: "outbound_lanes s lane = Some d" "lane_messages lane s = lane_messages lane (source b)"
    "transaction_level s = transaction_level (source b)"
  shows "bridge_inv log lane (b\<lparr>source := s\<rparr>) d e"
  using assms by (simp add: bridge_inv_def)

lemma bridge_inv_send:
  assumes inv: "bridge_inv log lane b d e" and v: "validate_message cfg lane p s0 = (Inr args, s1)"
    and fresh: "outbound_lanes (source b) lane = Some (args_lane args)"
    and run: "send_message args (source b) = (artifacts, s2)" and room: "Suc (length (sent b)) < 2 ^ 64 - 1"
  shows "\<exists>d1. bridge_inv log lane (b\<lparr>source := s2, sent := sent b @ [p]\<rparr>) d1 e"
proof -
  note v = validate_message_Ok [OF v]
  have d: "args_lane args = d" using fresh inv by (simp add: bridge_inv_def)
  obtain n d1 m1 where lane: "send_message_lane p (d, lane_messages lane (source b)) = (n, d1, m1)"
    by (metis prod.exhaust)
  have "send_message_lane (args_payload args) (args_lane args, lane_messages (args_lane_id args) (source b)) = (n, d1, m1)"
    using lane v(2,3) d by simp
  from send_message_state(1) [OF run this] have s2: "outbound_lanes s2 lane = Some d1" "lane_messages lane s2 = m1"
    "transaction_level s2 = transaction_level (source b)"
    using v(2) by (simp_all add: same_pallet_def set_outbound_data_def set_lane_messages_def lane_messages_def)
  have "source_inv (sent b) d (lane_messages lane (source b))" using inv by (simp add: bridge_inv_def)
  note s = source_inv_send [OF this lane room]
  have "target_inv (sent b @ [p]) (delivered_on log lane (target b)) e"
    using inv by (simp add: bridge_inv_def target_inv_def)
  moreover have "past_inv (sent b @ [p]) d1 e (source_past b) (target_past b)"
    using inv honest_snoc by (auto simp: bridge_inv_def past_inv_def s(2))
  ultimately show ?thesis using s(1) s2 inv by (auto simp: bridge_inv_def)
qed

lemma bridge_inv_send_elsewhere:
  assumes inv: "bridge_inv log lane b d e" and run: "send_message args (source b) = (artifacts, s2)"
    and l: "args_lane_id args \<noteq> lane"
  shows "bridge_inv log lane (b\<lparr>source := s2\<rparr>) d e"
proof -
  obtain n d1 m1 where
    "send_message_lane (args_payload args) (args_lane args, lane_messages (args_lane_id args) (source b)) = (n, d1, m1)"
    by (metis prod.exhaust)
  from send_message_state(1) [OF run this] show ?thesis
    using l inv by (intro bridge_inv_source)
      (simp_all add: bridge_inv_def same_pallet_def set_outbound_data_def set_lane_messages_def lane_messages_def)
qed

lemma bridge_inv_lane_states:
  assumes inv: "bridge_inv log lane b d e"
  shows "set_outbound_state lane st d (source b) = (d1, s2) \<Longrightarrow> bridge_inv log lane (b\<lparr>source := s2\<rparr>) d1 e"
    and "set_inbound_state lane st e (target b) = (e1, t2) \<Longrightarrow> bridge_inv log lane (b\<lparr>target := t2\<rparr>) d e1"
  using inv
  by (auto simp: bridge_inv_def set_outbound_state_def set_inbound_state_def set_outbound_data_def set_inbound_data_def
      Let_def source_inv_def target_inv_def past_inv_def outbound_ok_def inbound_ok_def last_delivered_nonce_def
      lane_messages_def delivered_on_def)

lemma bridge_inv_blocks:
  assumes inv: "bridge_inv log lane b d e"
  shows "bridge_inv log lane (b\<lparr>source_past := (d, lane_messages lane (source b)) # source_past b\<rparr>) d e"
    and "bridge_inv log lane (b\<lparr>target_past := e # target_past b\<rparr>) d e"
  using inv by (auto simp: bridge_inv_def past_inv_def source_inv_def target_inv_def)

lemma bridge_init_inv: "bridge_init log lane b \<Longrightarrow> bridge_inv log lane b outbound_opened inbound_opened"
  using outbound_opened_ok
  by (simp add: bridge_init_def bridge_inv_def source_inv_def target_inv_def past_inv_def honest_def
      inbound_ok_def inbound_opened_def inbound_default_def outbound_opened_def outbound_default_def last_delivered_nonce_def)

lemma bridge_inv_split: "bridge_inv log lane b d e \<Longrightarrow> \<exists>q. sent b = delivered_on log lane (target b) @ q"
  by (simp add: bridge_inv_def target_inv_def) (metis append_take_drop_id)

text \<open>The queue the bridge implements: what waits, and what came out of it.\<close>

inductive fifo_step :: "payload list \<times> payload list \<Rightarrow> payload list \<times> payload list \<Rightarrow> bool" where
  enqueue: "fifo_step (q, out) (q @ [p], out)"
| dequeue: "fifo_step (p # q, out) (q, out @ [p])"

definition queue_of ::
  "('n \<Rightarrow> ('l message_key \<times> payload) list) \<Rightarrow> 'l \<Rightarrow>
   (('a, 'l, 'b, 'd, 'm) mstate, ('b, 'l, 'a, 'e, 'n) mstate, 'a) bridge \<Rightarrow> payload list \<times> payload list" where
  "queue_of log lane b =
     (drop (length (delivered_on log lane (target b))) (sent b), delivered_on log lane (target b))"

lemma fifo_dequeues: "fifo_step\<^sup>*\<^sup>* (xs @ q, out) (q, out @ xs)"
proof (induction xs arbitrary: out)
  case (Cons p xs)
  have "fifo_step ((p # xs) @ q, out) (xs @ q, out @ [p])" using fifo_step.dequeue by simp
  with Cons [of "out @ [p]"] show ?case by (simp add: converse_rtranclp_into_rtranclp)
qed simp

locale bridge_chains =
  sc: messages_hooks scfg slog + tc: messages_hooks tcfg tlog
  for scfg :: "('a, 'l, 'b, 'd, 'h, 'q, 'm) mcfg" and slog :: "'m \<Rightarrow> ('l message_key \<times> payload) list"
    and tcfg :: "('b, 'l, 'a, 'e, 'i, 'p, 'n) mcfg" and tlog :: "'n \<Rightarrow> ('l message_key \<times> payload) list"
begin

lemma bridge_inv_source_call:
  assumes inv: "bridge_inv tlog lane b d e" and run: "dispatch_messages_call scfg origin c (source b) = (res, s1)"
    and sound: "confirmations_sound scfg lane (target_past b) (inside (source b))"
  shows "\<exists>d1. bridge_inv tlog lane (b\<lparr>source := s1\<rparr>) d1 e"
proof -
  have d: "outbound_lanes (source b) lane = Some d"
    and ok: "source_inv (sent b) d (lane_messages lane (source b))"
      "target_inv (sent b) (delivered_on tlog lane (target b)) e" "past_inv (sent b) d e (source_past b) (target_past b)"
    using inv by (simp_all add: bridge_inv_def)
  from sc.call_outbound [OF run sound d] obtain d1 where
    s1: "outbound_lanes s1 lane = Some d1" "transaction_level s1 = transaction_level (source b)"
    and "(d1, lane_messages lane s1) = (d, lane_messages lane (source b)) \<or>
     (\<exists>e \<in> set (target_past b). \<exists>res. confirm_delivery (total_unrewarded_messages e) (last_delivered_nonce e)
        (relayers e) (d, lane_messages lane (source b)) = (Inr res, d1, lane_messages lane s1))" by blast
  then have "source_inv (sent b) d1 (lane_messages lane s1) \<and> past_inv (sent b) d1 e (source_past b) (target_past b)"
    using ok confirm_keeps(1,2) [OF ok] by auto
  with s1 inv show ?thesis by (auto simp: bridge_inv_def)
qed

lemma bridge_inv_target_call:
  assumes inv: "bridge_inv tlog lane b d e" and run: "dispatch_messages_call tcfg origin c (target b) = (res, t1)"
    and sound: "deliveries_sound tcfg lane (source_past b) (inside (target b))"
  shows "\<exists>e1. bridge_inv tlog lane (b\<lparr>target := t1\<rparr>) d e1 \<and>
    prefix (delivered_on tlog lane (target b)) (delivered_on tlog lane t1)"
proof -
  have e: "inbound_lanes (target b) lane = Some e"
    and ok: "target_inv (sent b) (delivered_on tlog lane (target b)) e" "past_inv (sent b) d e (source_past b) (target_past b)"
    using inv by (simp_all add: bridge_inv_def)
  from tc.call_inbound [OF run sound e] obtain e1 where
    t1: "inbound_lanes t1 lane = Some e1" "transaction_level t1 = transaction_level (target b)"
    and "e1 = e \<and> delivered_on tlog lane t1 = delivered_on tlog lane (target b) \<or>
     (\<exists>acc. accepted_from (source_past b) (max_unrewarded_relayers tcfg) (max_unconfirmed_messages tcfg) lane e e1 acc \<and>
        delivered_on tlog lane t1 = delivered_on tlog lane (target b) @ map snd acc)" by blast
  then have "target_inv (sent b) (delivered_on tlog lane t1) e1 \<and> past_inv (sent b) d e1 (source_past b) (target_past b) \<and>
    prefix (delivered_on tlog lane (target b)) (delivered_on tlog lane t1)"
    using ok accepted_keeps(1,2) [OF ok] by auto
  with t1 inv show ?thesis by (auto simp: bridge_inv_def)
qed

lemma step_inv:
  assumes step: "bridge_step scfg tcfg tlog lane b b1" and inv: "bridge_inv tlog lane b d e"
  shows "\<exists>d1 e1. bridge_inv tlog lane b1 d1 e1 \<and> (sent b1 = sent b \<or> (\<exists>p. sent b1 = sent b @ [p])) \<and>
    prefix (delivered_on tlog lane (target b)) (delivered_on tlog lane (target b1))"
  using step
proof cases
  case (send p s0 args s1 artifacts s2)
  then show ?thesis using bridge_inv_send [OF inv send(2-5)] by auto
next
  case (send_elsewhere args artifacts s2)
  then show ?thesis using bridge_inv_send_elsewhere [OF inv send_elsewhere(2,3)] by auto
next
  case (source_call origin c res s1)
  then show ?thesis using bridge_inv_source_call [OF inv source_call(2,3)] by auto
next
  case (target_call origin c res t1)
  then show ?thesis using bridge_inv_target_call [OF inv target_call(2,3)] by auto
next
  case (source_lane_state d0 s1 st d1 s2)
  moreover from this have "s1 = source b" "d0 = d"
    using inv outbound_from_lane_id_Ok [OF source_lane_state(2)] by (simp_all add: bridge_inv_def)
  ultimately have "bridge_inv tlog lane b1 d1 e" using bridge_inv_lane_states(1) [OF inv] by simp
  with source_lane_state show ?thesis by auto
next
  case (target_lane_state e0 t1 st e1 t2)
  moreover from this have "t1 = target b" "e0 = e"
    using inv inbound_from_lane_id_Ok [OF target_lane_state(2)] by (simp_all add: bridge_inv_def)
  moreover have "delivered_on tlog lane t2 = delivered_on tlog lane t1"
    using target_lane_state(3) by (auto simp: set_inbound_state_def Let_def set_inbound_data_def delivered_on_def)
  ultimately have "bridge_inv tlog lane b1 d e1" "delivered_on tlog lane (target b1) = delivered_on tlog lane (target b)"
    using bridge_inv_lane_states(2) [OF inv] by simp_all
  with target_lane_state show ?thesis by auto
next
  case (source_other s1)
  then have "bridge_inv tlog lane b1 d e"
    using inv by (auto intro!: bridge_inv_source simp: same_lanes_def bridge_inv_def lane_messages_def)
  with source_other show ?thesis by auto
next
  case (target_other t1)
  then have "bridge_inv tlog lane b1 d e" using inv by (auto simp: same_lanes_def bridge_inv_def delivered_on_def)
  with target_other show ?thesis by (auto simp: delivered_on_def)
next
  case (source_block d0)
  moreover from this have "d0 = d" using inv by (simp add: bridge_inv_def)
  ultimately have "bridge_inv tlog lane b1 d e" using bridge_inv_blocks(1) [OF inv] by simp
  with source_block show ?thesis by auto
next
  case (target_block e0)
  moreover from this have "e0 = e" using inv by (simp add: bridge_inv_def)
  ultimately have "bridge_inv tlog lane b1 d e" using bridge_inv_blocks(2) [OF inv] by simp
  with target_block show ?thesis by auto
qed

lemma reach_inv:
  assumes "(bridge_step scfg tcfg tlog lane)\<^sup>*\<^sup>* b0 b" "bridge_init tlog lane b0"
  shows "\<exists>d e. bridge_inv tlog lane b d e"
  using assms
proof (induction rule: rtranclp_induct)
  case base
  show ?case by (intro exI) (rule bridge_init_inv [OF base])
next
  case (step b b1)
  then show ?case using step_inv [OF step.hyps(2)] by blast
qed

lemma step_fifo:
  assumes "bridge_step scfg tcfg tlog lane b b1" and inv: "bridge_inv tlog lane b d e"
  shows "fifo_step\<^sup>*\<^sup>* (queue_of tlog lane b) (queue_of tlog lane b1)"
proof -
  from step_inv [OF assms] obtain d1 e1 xs where inv1: "bridge_inv tlog lane b1 d1 e1"
    and sent: "sent b1 = sent b \<or> (\<exists>p. sent b1 = sent b @ [p])"
    and out: "delivered_on tlog lane (target b1) = delivered_on tlog lane (target b) @ xs"
    by (auto simp: prefix_def)
  from bridge_inv_split [OF inv] bridge_inv_split [OF inv1] obtain q q1
    where q: "sent b = delivered_on tlog lane (target b) @ q" "sent b1 = delivered_on tlog lane (target b1) @ q1" by blast
  show ?thesis
  proof (cases "sent b1 = sent b")
    case True
    then have "q = xs @ q1" using q out by simp
    then show ?thesis using q out fifo_dequeues by (simp add: queue_of_def)
  next
    case False
    then obtain p where p: "sent b1 = sent b @ [p]" using sent by blast
    then have "q @ [p] = xs @ q1" using q out by simp
    then show ?thesis
      using q out fifo_dequeues [of xs q1] fifo_step.enqueue
      by (simp add: queue_of_def) (metis converse_rtranclp_into_rtranclp)
  qed
qed

end

end
