(* ===== verification/Messages_Mock.thy ===== *)
theory Messages_Mock
  imports Delivery
begin

text \<open>
  The configuration of the messages pallet in its mock runtime (\<open>tests/mock.rs\<close>): a dispatcher that
  counts the messages it has enqueued and stops at the limit, payments that mark who was paid, a
  notification that stores its arguments, and a header chain whose imported headers are put in
  storage. It satisfies the interface \<open>messages_hooks\<close>.

  The state of the other parts of the mock runtime is the module part of the state. The log of the
  dispatcher is not in the mock runtime: it records the messages the dispatcher is given. An
  imported header is what its state root commits to, the values that proofs against it can show.
  Decoding a payload and the weights of the calls are parameters; of a payload, the fields that only
  identify it or make it longer are left out.
\<close>

definition HARD_MESSAGE_SIZE_LIMIT :: u32 where
  "HARD_MESSAGE_SIZE_LIMIT = 64 * 1024"

definition maximal_incoming_size :: "u32 \<Rightarrow> u32" where
  "maximal_incoming_size max_extrinsic_size = min (max_extrinsic_size div 3 * 2) HARD_MESSAGE_SIZE_LIMIT"

record test_payload =
  declared_weight :: weight
  payload_dispatch_result :: "unit message_dispatch_result"

record ('a, 'l) mock_storage =
  dispatched :: "'l \<Rightarrow> message_nonce"
  delivery_relayer_reward :: "'a \<Rightarrow> bool"
  relayer_reward :: "'a \<times> message_nonce \<Rightarrow> bool"
  delivered_arguments :: "('l \<times> message_nonce) option"
  imported_headers :: "nat \<Rightarrow> ('l, 'a) proof_reader option"
  dispatch_log :: "('l message_key \<times> payload) list"

type_synonym ('a, 'l, 'r) mock_state = "('a, 'l, 'r, unit, ('a, 'l) mock_storage) mstate"

abbreviation mock_update ::
  "(('a, 'l) mock_storage \<Rightarrow> ('a, 'l) mock_storage) \<Rightarrow> ('a, 'l, 'r) mock_state \<Rightarrow> ('a, 'l, 'r) mock_state" where
  "mock_update f s \<equiv> s\<lparr>messages_runtime.more := f (messages_runtime.more s)\<rparr>"

definition MAX_UNREWARDED_RELAYERS_IN_CONFIRMATION_TX :: message_nonce where
  "MAX_UNREWARDED_RELAYERS_IN_CONFIRMATION_TX = 16"

definition MAX_UNCONFIRMED_MESSAGES_IN_CONFIRMATION_TX :: message_nonce where
  "MAX_UNCONFIRMED_MESSAGES_IN_CONFIRMATION_TX = 128"

definition pay_delivery_reward ::
  "'a \<Rightarrow> message_nonce \<Rightarrow> message_nonce \<Rightarrow> weight \<Rightarrow> ('a, 'l, 'r) mock_state \<Rightarrow> ('a, 'l, 'r) mock_state" where
  "pay_delivery_reward r total_count valid_count actual_weight =
     mock_update (\<lambda>m. m\<lparr>delivery_relayer_reward := (delivery_relayer_reward m)(r := True)\<rparr>)"

definition pay_confirmation_reward ::
  "'l \<Rightarrow> 'a unrewarded_relayer list \<Rightarrow> 'a \<Rightarrow> message_nonce \<times> message_nonce \<Rightarrow> ('a, 'l, 'r) mock_state \<Rightarrow>
   message_nonce \<times> ('a, 'l, 'r) mock_state" where
  "pay_confirmation_reward lane_id messages_relayers confirmation_relayer received_range s =
     (let relayers_rewards = calc_relayers_rewards messages_relayers (fst received_range) (snd received_range);
          rewarded_relayers = filter (\<lambda>r. relayers_rewards r \<noteq> None) (remdups (map relayer messages_relayers))
      in (of_nat (length rewarded_relayers),
          mock_update (\<lambda>m. m\<lparr>relayer_reward :=
            (\<lambda>(r, reward). relayers_rewards r = Some reward \<or> relayer_reward m (r, reward))\<rparr>) s))"

definition emulate_enqueued_message :: "'l \<Rightarrow> ('a, 'l, 'r) mock_state \<Rightarrow> ('a, 'l, 'r) mock_state" where
  "emulate_enqueued_message lane =
     mock_update (\<lambda>m. m\<lparr>dispatched := (dispatched m)(lane := dispatched m lane + 1)\<rparr>)"

definition dispatcher_is_active :: "'l \<Rightarrow> ('a, 'l, 'r) mock_state \<Rightarrow> bool" where
  "dispatcher_is_active lane s \<longleftrightarrow>
     dispatched (messages_runtime.more s) lane \<le> MAX_UNCONFIRMED_MESSAGES_IN_CONFIRMATION_TX"

definition test_dispatch_weight ::
  "(payload \<Rightarrow> test_payload option) \<Rightarrow> 'l message_key \<Rightarrow> payload \<Rightarrow> ('a, 'l, 'r) mock_state \<Rightarrow> weight" where
  "test_dispatch_weight decode key message_data s =
     (case decode message_data of
        Some p \<Rightarrow> declared_weight p | None \<Rightarrow> \<lparr>ref_time = 0, proof_size = 0\<rparr>)"

definition test_dispatch ::
  "(payload \<Rightarrow> test_payload option) \<Rightarrow> 'l message_key \<Rightarrow> payload \<Rightarrow> ('a, 'l, 'r) mock_state \<Rightarrow>
   unit message_dispatch_result \<times> ('a, 'l, 'r) mock_state" where
  "test_dispatch decode key message_data s =
     (let s1 = mock_update (\<lambda>m. m\<lparr>dispatch_log := dispatch_log m @ [(key, message_data)]\<rparr>) s
      in case decode message_data of
           Some p \<Rightarrow> (payload_dispatch_result p, emulate_enqueued_message (fst key) s1)
         | None \<Rightarrow> (\<lparr>unspent_weight = \<lparr>ref_time = 0, proof_size = 0\<rparr>, dispatch_level_result = ()\<rparr>, s1))"

definition note_messages_delivered :: "'l \<Rightarrow> message_nonce \<Rightarrow> ('a, 'l, 'r) mock_state \<Rightarrow> ('a, 'l, 'r) mock_state" where
  "note_messages_delivered lane n = mock_update (\<lambda>m. m\<lparr>delivered_arguments := Some (lane, n)\<rparr>)"

text \<open>\<open>verify_storage_proof\<close> of the header chain (\<open>primitives/header-chain/src/lib.rs\<close>).\<close>

definition verify_storage_proof ::
  "nat \<Rightarrow> unit \<Rightarrow> ('a, 'l, 'r) mock_state \<Rightarrow> header_chain_error + ('l, 'a) proof_reader" where
  "verify_storage_proof header_hash proof s =
     (case imported_headers (messages_runtime.more s) header_hash of
        None \<Rightarrow> Inl UnknownHeader | Some reader \<Rightarrow> Inr reader)"

definition mock_config ::
  "(payload \<Rightarrow> test_payload option) \<Rightarrow> ((nat, unit, 'l) messages_proof \<Rightarrow> u32 \<Rightarrow> weight \<Rightarrow> weight) \<Rightarrow>
   ((nat, unit, 'l) delivery_proof \<Rightarrow> unrewarded_relayers_state \<Rightarrow> weight) \<Rightarrow>
   ('a, 'l, 'r, unit, nat, unit, ('a, 'l) mock_storage) mcfg" where
  "mock_config decode w1 w2 =
     \<lparr>max_unrewarded_relayers = MAX_UNREWARDED_RELAYERS_IN_CONFIRMATION_TX,
      max_unconfirmed_messages = MAX_UNCONFIRMED_MESSAGES_IN_CONFIRMATION_TX,
      maximal_incoming_message_size = maximal_incoming_size 4096,
      relayer_max_encoded_len = 24,
      dispatch_is_active = dispatcher_is_active,
      dispatch_weight = test_dispatch_weight decode,
      dispatch = test_dispatch decode,
      delivery_payments = pay_delivery_reward,
      confirmation_payments = pay_confirmation_reward,
      on_messages_delivered = note_messages_delivered,
      receive_messages_proof_weight = w1,
      delivery_proof_weight = w2,
      header_chain = verify_storage_proof\<rparr>"

lemmas mock_defs = mock_config_def pay_delivery_reward_def pay_confirmation_reward_def note_messages_delivered_def
  test_dispatch_def emulate_enqueued_message_def verify_storage_proof_def dispatcher_is_active_def

interpretation mock: messages_hooks "mock_config decode w1 w2" dispatch_log
  by unfold_locales (simp_all add: mock_defs same_pallet_def Let_def split: option.split)

end
