(* ===== verification/Bridge_Liveness.thy ===== *)
theory Bridge_Liveness
  imports Bridge Messages_Mock
begin

text \<open>
  That a bridge never gets stuck: in every state that can be reached, as long as the pallets are not
  halted and the lane is open, relayers who can prove the finalised states of either chain can
  deliver everything that was sent and have it confirmed, one message and one confirmation at a
  time. The theory also instantiates the assumptions on a configuration after the mock runtime of
  the pallet (\<open>tests/mock.rs\<close>).
\<close>

section \<open>Relayers that can do their work\<close>

text \<open>
  A state the other chain has finalised can be proved: some other activity of the chain (the import
  of a header, a dispatcher that works off its queue) leads to a state in which the light client
  accepts a proof of it, and still accepts only proofs of past states.
\<close>

definition relays_confirmations :: "('a, 'l, 'r, 'd, 'h, 'q, 'm) mcfg \<Rightarrow> 'l \<Rightarrow> bool" where
  "relays_confirmations cfg lane \<longleftrightarrow>
     (\<forall>s past. \<forall>e \<in> set past. \<exists>t h q rd. same_pallet s t \<and> confirmations_sound cfg lane past (inside t) \<and>
        header_chain cfg h q (inside t) = Inr rd \<and> read_inbound_lane rd lane = Inr e \<and>
        no_unused_keys rd [Key_InboundLane lane] = Inr ())"

definition relays_messages ::
  "('a, 'l, 'r, 'd, 'h, 'q, 'm) mcfg \<Rightarrow> ('m \<Rightarrow> ('l message_key \<times> payload) list) \<Rightarrow> 'l \<Rightarrow> bool" where
  "relays_messages cfg log lane \<longleftrightarrow>
     (\<forall>s past. \<forall>(d, m) \<in> set past. \<forall>n p. m n = Some p \<longrightarrow>
        (\<exists>t h q rd. same_pallet s t \<and> log (messages_runtime.more t) = log (messages_runtime.more s) \<and>
           deliveries_sound cfg lane past (inside t) \<and> dispatch_is_active cfg lane (inside t) \<and>
           header_chain cfg h q (inside t) = Inr rd \<and> read_message rd (lane, n) = Inr p \<and>
           read_outbound_lane rd lane = Inr (Some d) \<and>
           no_unused_keys rd [Key_Message (lane, n), Key_OutboundLane lane] = Inr ()))"

text \<open>A lane that learns that all it received is confirmed has no entries of relayers left.\<close>

lemma caught_up:
  assumes e: "inbound_ok e" and conf: "last_confirmed_nonce e \<le> latest_received_nonce d"
    "latest_received_nonce d = last_delivered_nonce e"
    and e0: "e0 = snd (receive_state_update d e)"
  shows "relayers e0 = []" "last_confirmed_nonce e0 = last_delivered_nonce e"
    "last_delivered_nonce e0 = last_delivered_nonce e" "inbound_ok e0" "in_state e0 = in_state e"
proof -
  obtain r where "receive_state_update d e = (r, e0)" using e0 by (metis prod.collapse)
  note up = receive_state_update_ok [OF e this]
  then show "inbound_ok e0" "in_state e0 = in_state e" by blast+
  show n: "last_confirmed_nonce e0 = last_delivered_nonce e" "last_delivered_nonce e0 = last_delivered_nonce e"
    using up conf by (simp_all add: max_def)
  have "covers (unat (last_delivered_nonce e)) (relayers e0) (unat (last_delivered_nonce e))"
    using \<open>inbound_ok e0\<close> unfolding inbound_ok_def n .
  then show "relayers e0 = []" using covers_less by blast
qed

lemma caught_up_accepts:
  assumes "inbound_ok e" "last_confirmed_nonce e \<le> latest_received_nonce d"
    "latest_received_nonce d = last_delivered_nonce e" "unat n = Suc (unat (last_delivered_nonce e))"
    "0 < me" "1 \<le> mu"
  shows "accepts me mu n (snd (receive_state_update d e))"
proof -
  note e0 = caught_up [OF assms(1-3) refl]
  have "unat (n - last_delivered_nonce e) = 1"
    using assms(4) by (subst unat_sub) (simp_all add: word_le_nat_alt)
  then have "saturating_sub n (last_delivered_nonce e) \<le> mu"
    using assms(6) by (simp add: saturating_sub_def word_le_nat_alt)
  then have "(reject_message me mu n (snd (receive_state_update d e)) :: unit reception_result option) = None"
    using assms(4,5) by (simp add: reject_message_None e0)
  then show ?thesis by (simp add: accepts_def)
qed

text \<open>The message to deliver next is in the storage of the source chain.\<close>

lemma next_message:
  assumes inv: "bridge_inv log lane b d e" and conf: "latest_received_nonce d = last_delivered_nonce e"
    and more: "unat (last_delivered_nonce e) < length (sent b)"
  shows "unat (last_delivered_nonce e + 1) = Suc (unat (last_delivered_nonce e)) \<and>
    (\<exists>p. lane_messages lane (source b) (last_delivered_nonce e + 1) = Some p)"
proof -
  have b: "outbound_ok (d, lane_messages lane (source b))" "unat (latest_generated_nonce d) = length (sent b)"
    using inv by (simp_all add: bridge_inv_def source_inv_def)
  have n: "unat (last_delivered_nonce e + 1) = Suc (unat (last_delivered_nonce e))"
    using more b by (intro unat_Suc64) (simp add: outbound_ok_def)
  then have "latest_received_nonce d < last_delivered_nonce e + 1" "last_delivered_nonce e + 1 \<le> latest_generated_nonce d"
    using more b(2) conf by (simp_all add: word_less_nat_alt word_le_nat_alt)
  with n b(1) show ?thesis by (fastforce simp: outbound_ok_def)
qed

lemma relays_messagesI:
  assumes "\<And>s past d m n p. (d, m) \<in> set past \<Longrightarrow> m n = Some p \<Longrightarrow>
    \<exists>t h q rd. same_pallet s t \<and> log (messages_runtime.more t) = log (messages_runtime.more s) \<and>
      deliveries_sound cfg lane past (inside t) \<and> dispatch_is_active cfg lane (inside t) \<and>
      header_chain cfg h q (inside t) = Inr rd \<and> read_message rd (lane, n) = Inr p \<and>
      read_outbound_lane rd lane = Inr (Some d) \<and>
      no_unused_keys rd [Key_Message (lane, n), Key_OutboundLane lane] = Inr ()"
  shows "relays_messages cfg log lane"
  using assms unfolding relays_messages_def by blast

lemma relays_messages_at:
  assumes "relays_messages cfg log lane" "(d, m) \<in> set past" "m n = Some p"
  shows "\<exists>t h q rd. same_pallet s t \<and> log (messages_runtime.more t) = log (messages_runtime.more s) \<and>
    deliveries_sound cfg lane past (inside t) \<and> dispatch_is_active cfg lane (inside t) \<and>
    header_chain cfg h q (inside t) = Inr rd \<and> read_message rd (lane, n) = Inr p \<and>
    read_outbound_lane rd lane = Inr (Some d) \<and>
    no_unused_keys rd [Key_Message (lane, n), Key_OutboundLane lane] = Inr ()"
  using assms unfolding relays_messages_def by blast

context bridge_chains
begin

lemma confirm_round:
  assumes inv: "bridge_inv tlog lane b d e" and live: "relays_confirmations scfg lane"
    and nh: "\<not> is_halted_mode (operating_mode (source b))"
  shows "\<exists>s1 d1 ep. (bridge_step scfg tcfg tlog lane)\<^sup>*\<^sup>* b (b\<lparr>target_past := ep, source := s1\<rparr>) \<and>
    bridge_inv tlog lane (b\<lparr>target_past := ep, source := s1\<rparr>) d1 e \<and>
    latest_received_nonce d1 = last_delivered_nonce e \<and> operating_mode s1 = operating_mode (source b)"
proof -
  let ?ep = "e # target_past b"
  let ?b1 = "b\<lparr>target_past := ?ep\<rparr>"
  have e: "inbound_lanes (target b) lane = Some e" using inv by (simp add: bridge_inv_def)
  have step1: "bridge_step scfg tcfg tlog lane b ?b1" by (rule bridge_step.target_block [OF e])
  from live obtain t h q rd where t: "same_pallet (source b) t" "confirmations_sound scfg lane ?ep (inside t)"
    and rd: "header_chain scfg h q (inside t) = Inr rd" "read_inbound_lane rd lane = Inr e"
      "no_unused_keys rd [Key_InboundLane lane] = Inr ()"
    unfolding relays_confirmations_def by (metis list.set_intros(1))
  let ?b2 = "?b1\<lparr>source := t\<rparr>"
  have step2: "bridge_step scfg tcfg tlog lane ?b1 ?b2"
    using t(1) by (intro bridge_step.source_other) (simp add: same_pallet_lanes)
  have inv2: "bridge_inv tlog lane ?b2 d e"
    using t(1) inv by (intro bridge_inv_source [OF bridge_inv_blocks(2) [OF inv]])
      (simp_all add: same_pallet_def bridge_inv_def lane_messages_def)
  then have ok: "source_inv (sent b) d (lane_messages lane t)" "target_inv (sent b) (delivered_on tlog lane (target b)) e"
    "past_inv (sent b) d e (source_past b) ?ep" and d: "outbound_lanes t lane = Some d" "transaction_level t = 0"
    by (simp_all add: bridge_inv_def)
  obtain res d1 m1 where conf: "confirm_delivery (total_unrewarded_messages e) (last_delivered_nonce e) (relayers e)
    (d, lane_messages lane t) = (Inr res, d1, m1)"
    using confirm_past [OF ok, of e] by (auto split: if_splits)
  have lim: "transaction_level t < TRANSACTIONAL_LIMIT" using d(2) by (simp add: TRANSACTIONAL_LIMIT_def)
  have nh': "\<not> is_halted_mode (operating_mode t)" using nh t(1) by (simp add: same_pallet_def)
  from sc.confirmation_call_run [OF lim nh' rd d(1) conf, of undefined] obtain c x u where
    run: "dispatch_messages_call scfg (Signed undefined) c t = (Inr x, u)"
    and u: "same_pallet (set_outbound_data lane d1 (set_lane_messages lane m1 t)) u" by blast
  let ?b3 = "?b2\<lparr>source := u\<rparr>"
  have step3: "bridge_step scfg tcfg tlog lane ?b2 ?b3"
    using run t(2) by (intro bridge_step.source_call) simp_all
  have u': "outbound_lanes u lane = Some d1" "lane_messages lane u = m1" "transaction_level u = 0"
    "operating_mode u = operating_mode (source b)"
    using u d(2) t(1) by (simp_all add: same_pallet_def set_outbound_data_def set_lane_messages_def lane_messages_def)
  note keeps = confirm_keeps [OF ok _ conf]
  have "bridge_inv tlog lane ?b3 d1 e" using inv2 keeps(1,2) u' by (simp add: bridge_inv_def)
  moreover have "latest_received_nonce d1 = last_delivered_nonce e"
    using keeps(4) ok(3) by (simp add: past_inv_def max_def)
  moreover have "(bridge_step scfg tcfg tlog lane)\<^sup>*\<^sup>* b ?b3" using step1 step2 step3 by force
  ultimately show ?thesis using u'(4) by auto
qed

lemma deliver_round:
  assumes inv: "bridge_inv tlog lane b d e" and live: "relays_messages tcfg tlog lane"
    and nh: "\<not> is_halted_mode (operating_mode (target b))" and active: "in_state e = Opened"
    and room: "0 < max_unrewarded_relayers tcfg" "0 < max_unconfirmed_messages tcfg"
    and conf: "latest_received_nonce d = last_delivered_nonce e" and more: "unat (last_delivered_nonce e) < length (sent b)"
  shows "\<exists>t1 e1 dp. (bridge_step scfg tcfg tlog lane)\<^sup>*\<^sup>* b (b\<lparr>source_past := dp, target := t1\<rparr>) \<and>
    bridge_inv tlog lane (b\<lparr>source_past := dp, target := t1\<rparr>) d e1 \<and>
    unat (last_delivered_nonce e1) = Suc (unat (last_delivered_nonce e)) \<and>
    operating_mode t1 = operating_mode (target b) \<and> in_state e1 = Opened"
proof -
  let ?m = "lane_messages lane (source b)" and ?n = "last_delivered_nonce e + 1"
  let ?dp = "(d, ?m) # source_past b"
  let ?b1 = "b\<lparr>source_past := ?dp\<rparr>"
  have b: "outbound_lanes (source b) lane = Some d" "inbound_lanes (target b) lane = Some e" "transaction_level (target b) = 0"
    "inbound_ok e" "last_confirmed_nonce e \<le> latest_received_nonce d"
    using inv by (simp_all add: bridge_inv_def target_inv_def past_inv_def)
  have step1: "bridge_step scfg tcfg tlog lane b ?b1" by (rule bridge_step.source_block [OF b(1)])
  from next_message [OF inv conf more] obtain p where
    n: "unat ?n = Suc (unat (last_delivered_nonce e))" and p: "?m ?n = Some p" by blast
  from relays_messages_at [of tcfg tlog lane d ?m ?dp, OF live list.set_intros(1) p, of "target b"] obtain t h q rd where t: "same_pallet (target b) t"
      "tlog (messages_runtime.more t) = tlog (messages_runtime.more (target b))" "deliveries_sound tcfg lane ?dp (inside t)"
      "dispatch_is_active tcfg lane (inside t)"
    and rd: "header_chain tcfg h q (inside t) = Inr rd" "read_message rd (lane, ?n) = Inr p"
      "read_outbound_lane rd lane = Inr (Some d)" "no_unused_keys rd [Key_Message (lane, ?n), Key_OutboundLane lane] = Inr ()"
    by blast
  let ?b2 = "?b1\<lparr>target := t\<rparr>" and ?e0 = "snd (receive_state_update d e)"
  have step2: "bridge_step scfg tcfg tlog lane ?b1 ?b2"
    using t(1,2) by (intro bridge_step.target_other) (simp_all add: same_pallet_lanes)
  have inv2: "bridge_inv tlog lane ?b2 d e"
    using t(1,2) bridge_inv_blocks(1) [OF inv] by (simp add: bridge_inv_def same_pallet_def delivered_on_def)
  have mu: "1 \<le> max_unconfirmed_messages tcfg" using room(2) by (simp add: word_le_nat_alt word_less_nat_alt)
  note e0 = caught_up [OF b(4,5) conf refl]
  note acc = caught_up_accepts [OF b(4,5) conf n room(1) mu]
  have lim: "transaction_level t < TRANSACTIONAL_LIMIT" and nh': "\<not> is_halted_mode (operating_mode t)"
    and e: "inbound_lanes t lane = Some e" "is_active (in_state e)"
    using t(1) b nh active by (simp_all add: same_pallet_def TRANSACTIONAL_LIMIT_def)
  let ?e1 = "note_relayer undefined ?n ?e0"
  from tc.delivery_call_run [OF lim nh' mu rd e t(4) acc, of undefined undefined] obtain c x u where
    run: "dispatch_messages_call tcfg (Signed undefined) c t = (Inr x, u)"
    and u: "tc.received t lane ?e1 [((lane, ?n), p)] u" by blast
  have step3: "bridge_step scfg tcfg tlog lane ?b2 (?b2\<lparr>target := u\<rparr>)"
    using run t(3) by (intro bridge_step.target_call) simp_all
  have e1: "last_delivered_nonce ?e1 = ?n" "in_state ?e1 = Opened"
    using note_relayer_ok [OF e0(4), of ?n undefined] n e0(3,5) active by simp_all
  have u': "inbound_lanes u lane = Some ?e1" "operating_mode u = operating_mode (target b)"
    using u t(1) by (simp_all add: tc.received_def same_pallet_def)
  from step_inv [OF step3 inv2] obtain d1 e1 where "bridge_inv tlog lane (?b2\<lparr>target := u\<rparr>) d1 e1" by blast
  moreover from this have "d1 = d" "e1 = ?e1" using b(1) u'(1) by (auto simp: bridge_inv_def)
  moreover have "(bridge_step scfg tcfg tlog lane)\<^sup>*\<^sup>* b (?b2\<lparr>target := u\<rparr>)" using step1 step2 step3 by force
  ultimately show ?thesis
    using e1 n u'(2) by (intro exI [of _ u] exI [of _ ?e1] exI [of _ ?dp]) simp
qed

lemma drain:
  assumes "bridge_inv tlog lane b d e" "relays_confirmations scfg lane" "relays_messages tcfg tlog lane"
    "\<not> is_halted_mode (operating_mode (source b))" "\<not> is_halted_mode (operating_mode (target b))" "in_state e = Opened"
    "0 < max_unrewarded_relayers tcfg" "0 < max_unconfirmed_messages tcfg"
  shows "\<exists>b1 d1 e1. (bridge_step scfg tcfg tlog lane)\<^sup>*\<^sup>* b b1 \<and> bridge_inv tlog lane b1 d1 e1 \<and> sent b1 = sent b \<and>
    unat (last_delivered_nonce e1) = length (sent b) \<and> latest_received_nonce d1 = last_delivered_nonce e1"
  using assms
proof (induction "length (sent b) - unat (last_delivered_nonce e)" arbitrary: b d e)
  case (0 b e d)
  have "unat (last_delivered_nonce e) = length (sent b)"
    using 0 by (simp add: bridge_inv_def target_inv_def)
  with confirm_round [OF "0.prems"(1,2,4)] show ?case by fastforce
next
  case (Suc k b e d)
  from confirm_round [OF Suc.prems(1,2,4)] obtain s1 d1 ep b1 where
    b1_eq: "b1 = b\<lparr>target_past := ep, source := s1\<rparr>" and run1: "(bridge_step scfg tcfg tlog lane)\<^sup>*\<^sup>* b b1"
    and b1: "bridge_inv tlog lane b1 d1 e" "latest_received_nonce d1 = last_delivered_nonce e"
      "operating_mode s1 = operating_mode (source b)" by blast
  have "\<not> is_halted_mode (operating_mode (target b1))" "unat (last_delivered_nonce e) < length (sent b1)"
    using Suc.prems(5) Suc.hyps(2) by (simp_all add: b1_eq)
  from deliver_round [OF b1(1) Suc.prems(3) this(1) Suc.prems(6-8) b1(2) this(2)] obtain t1 e1 dp b2 where
    b2_eq: "b2 = b1\<lparr>source_past := dp, target := t1\<rparr>" and run2: "(bridge_step scfg tcfg tlog lane)\<^sup>*\<^sup>* b1 b2"
    and b2: "bridge_inv tlog lane b2 d1 e1" "unat (last_delivered_nonce e1) = Suc (unat (last_delivered_nonce e))"
      "operating_mode t1 = operating_mode (target b1)" "in_state e1 = Opened" by blast
  have "k = length (sent b2) - unat (last_delivered_nonce e1)" "\<not> is_halted_mode (operating_mode (source b2))"
    "\<not> is_halted_mode (operating_mode (target b2))"
    using Suc.hyps(2) Suc.prems(4,5) b1(3) b2(2,3) by (simp_all add: b1_eq b2_eq)
  from Suc.hyps(1) [OF this(1) b2(1) Suc.prems(2,3) this(2,3) b2(4) Suc.prems(7,8)]
  obtain b3 d3 e3 where "(bridge_step scfg tcfg tlog lane)\<^sup>*\<^sup>* b2 b3" "bridge_inv tlog lane b3 d3 e3" "sent b3 = sent b"
    "unat (last_delivered_nonce e3) = length (sent b)" "latest_received_nonce d3 = last_delivered_nonce e3"
    by (auto simp: b1_eq b2_eq)
  with run1 run2 show ?case by (meson rtranclp_trans)
qed

end

section \<open>A bridge between two mock chains\<close>

text \<open>
  The lanes as the tests of the pallet set them up (\<open>run_test\<close>): lane 0 is open and lane 1 closed.
  Both chains use the mock configuration; no payload decodes, so the messages cost nothing.
\<close>

definition mock_runtime :: "(nat, nat, nat) mock_state" where
  "mock_runtime =
     \<lparr>account_map = Map.empty, block_number = 1, execution_phase = None, event_count = 0, events = [],
      transaction_level = 0, total_issuance = 0, inactive_issuance = 0, locks_map = Map.empty,
      reserves_map = Map.empty, holds_map = Map.empty, freezes_map = Map.empty,
      pallet_owner = None, operating_mode = Basic Normal,
      inbound_lanes = [0 \<mapsto> inbound_opened, 1 \<mapsto> inbound_default],
      outbound_lanes = [0 \<mapsto> outbound_opened, 1 \<mapsto> outbound_default],
      outbound_messages = Map.empty, message_events = [],
      dispatched = (\<lambda>_. 0), delivery_relayer_reward = (\<lambda>_. False), relayer_reward = (\<lambda>_. False),
      delivered_arguments = None, imported_headers = Map.empty, dispatch_log = []\<rparr>"

definition mock_chain :: "('a, 'l, 'r, unit, nat, unit, ('a, 'l) mock_storage) mcfg" where
  "mock_chain = mock_config (\<lambda>_. None) (\<lambda>_ _ w. w) (\<lambda>_ _. \<lparr>ref_time = 0, proof_size = 0\<rparr>)"

definition mock_bridge :: "((nat, nat, nat) mock_state, (nat, nat, nat) mock_state, nat) bridge" where
  "mock_bridge = \<lparr>source = mock_runtime, target = mock_runtime, sent = [], source_past = [], target_past = []\<rparr>"

lemma mock_chain_hooks: "messages_hooks mock_chain dispatch_log"
  unfolding mock_chain_def by (rule mock.messages_hooks_axioms)

interpretation mock_chains: bridge_chains mock_chain dispatch_log mock_chain dispatch_log
  by (intro bridge_chains.intro mock_chain_hooks)

lemma mock_bridge_init: "bridge_init dispatch_log 0 mock_bridge"
  by (simp add: bridge_init_def mock_bridge_def mock_runtime_def lane_messages_def delivered_on_def)

text \<open>Whatever was finalised can be relayed: a header that commits to it is imported.\<close>

definition confirmation_reader :: "'a inbound_lane_data \<Rightarrow> ('l, 'a) proof_reader" where
  "confirmation_reader e =
     \<lparr>read_message = (\<lambda>_. Inl UnavailableKey), read_outbound_lane = (\<lambda>_. Inl UnavailableKey),
      read_inbound_lane = (\<lambda>_. Inr e), no_unused_keys = (\<lambda>_. Inr ())\<rparr>"

lemma mock_relays_confirmations: "relays_confirmations (mock_chain :: ('a, 'l, 'r, unit, nat, unit, ('a, 'l) mock_storage) mcfg) lane"
  unfolding relays_confirmations_def
proof (intro allI ballI)
  fix s :: "('a, 'l, 'r) mock_state" and past and e :: "'a inbound_lane_data"
  assume e: "e \<in> set past"
  let ?rd = "confirmation_reader e :: ('l, 'a) proof_reader"
  let ?t = "mock_update (\<lambda>m. m\<lparr>imported_headers := [0 \<mapsto> ?rd]\<rparr>) s"
  have "same_pallet s ?t \<and> confirmations_sound mock_chain lane past (inside ?t) \<and>
    header_chain mock_chain 0 () (inside ?t) = Inr ?rd \<and> read_inbound_lane ?rd lane = Inr e \<and>
    no_unused_keys ?rd [Key_InboundLane lane] = Inr ()"
    using e by (auto simp: same_pallet_def confirmations_sound_def confirmation_reader_def mock_chain_def mock_defs
        split: option.splits if_splits)
  then show "\<exists>t h q rd. same_pallet s t \<and> confirmations_sound mock_chain lane past (inside t) \<and>
    header_chain mock_chain h q (inside t) = Inr rd \<and> read_inbound_lane rd lane = Inr e \<and>
    no_unused_keys rd [Key_InboundLane lane] = Inr ()" by blast
qed

lemma mock_relays_messages: "relays_messages (mock_chain :: ('a, 'l, 'r, unit, nat, unit, ('a, 'l) mock_storage) mcfg) dispatch_log lane"
proof (rule relays_messagesI)
  fix s :: "('a, 'l, 'r) mock_state" and past :: "(outbound_lane_data \<times> payload stored_messages) list"
    and d and m :: "payload stored_messages" and n p
  assume dm: "(d, m) \<in> set past" and p: "m n = Some p"
  let ?rd = "\<lparr>read_message = (\<lambda>(l, k). case m k of Some p \<Rightarrow> Inr p | None \<Rightarrow> Inl UnavailableKey),
    read_outbound_lane = (\<lambda>_. Inr (Some d)), read_inbound_lane = (\<lambda>_. Inl UnavailableKey),
    no_unused_keys = (\<lambda>_. Inr ())\<rparr> :: ('l, 'a) proof_reader"
  let ?t = "mock_update (\<lambda>m. m\<lparr>imported_headers := [0 \<mapsto> ?rd], dispatched := (\<lambda>_. 0)\<rparr>) s"
  have "deliveries_sound mock_chain lane past (inside ?t)"
    using dm by (fastforce simp: deliveries_sound_def mock_chain_def mock_defs split: option.splits if_splits)
  moreover have "same_pallet s ?t \<and> dispatch_log (messages_runtime.more ?t) = dispatch_log (messages_runtime.more s) \<and>
    dispatch_is_active mock_chain lane (inside ?t) \<and> header_chain mock_chain 0 () (inside ?t) = Inr ?rd \<and>
    read_message ?rd (lane, n) = Inr p \<and> read_outbound_lane ?rd lane = Inr (Some d) \<and>
    no_unused_keys ?rd [Key_Message (lane, n), Key_OutboundLane lane] = Inr ()"
    using p by (simp add: same_pallet_def mock_chain_def mock_defs)
  ultimately show "\<exists>t h q rd. same_pallet s t \<and> dispatch_log (messages_runtime.more t) = dispatch_log (messages_runtime.more s) \<and>
    deliveries_sound mock_chain lane past (inside t) \<and> dispatch_is_active mock_chain lane (inside t) \<and>
    header_chain mock_chain h q (inside t) = Inr rd \<and> read_message rd (lane, n) = Inr p \<and>
    read_outbound_lane rd lane = Inr (Some d) \<and>
    no_unused_keys rd [Key_Message (lane, n), Key_OutboundLane lane] = Inr ()" by blast
qed

section \<open>What the bridge guarantees\<close>

lemma bridge_inv_kept:
  assumes inv: "bridge_inv log lane b d e" and i: "length (delivered_on log lane (target b)) \<le> i" "i < length (sent b)"
  shows "outbound_messages (source b) (lane, of_nat (Suc i)) = Some (sent b ! i)"
proof -
  let ?m = "lane_messages lane (source b)" and ?n = "of_nat (Suc i) :: message_nonce"
  have b: "outbound_ok (d, ?m)" "unat (latest_generated_nonce d) = length (sent b)" "honest (sent b) ?m"
    "latest_received_nonce d \<le> last_delivered_nonce e" "unat (last_delivered_nonce e) \<le> i"
    using inv i(1) by (simp_all add: bridge_inv_def source_inv_def target_inv_def past_inv_def)
  have "Suc i < 2 ^ 64" using b(1,2) i(2) by (simp add: outbound_ok_def)
  then have n: "unat ?n = Suc i" by (simp add: unat_of_nat del: of_nat_Suc)
  then have "latest_received_nonce d < ?n" "?n \<le> latest_generated_nonce d"
    using b(2,4,5) i(2) by (simp_all add: word_less_nat_alt word_le_nat_alt)
  then obtain p where p: "?m ?n = Some p" using b(1) by (fastforce simp: outbound_ok_def)
  then have "p = sent b ! (unat ?n - 1)" using b(3) unfolding honest_def by blast
  with p n show ?thesis by (simp add: lane_messages_def del: of_nat_Suc)
qed

lemma bridge_inv_empty:
  assumes "bridge_inv log lane b d e" "unat (latest_received_nonce d) = length (sent b)"
  shows "lane_messages lane (source b) = Map.empty"
proof (rule ext)
  fix n
  show "lane_messages lane (source b) n = None"
    using assms by (auto simp: bridge_inv_def source_inv_def outbound_ok_def word_less_nat_alt word_le_nat_alt)
qed

text \<open>The first message sent over the bridge of the mock chains.\<close>

definition mock_sent :: "((nat, nat, nat) mock_state, (nat, nat, nat) mock_state, nat) bridge" where
  "mock_sent = mock_bridge\<lparr>source := snd (send_message
     \<lparr>args_lane_id = 0, args_lane = outbound_opened, args_payload = [7]\<rparr> mock_runtime), sent := [[7]]\<rparr>"

lemma mock_validates:
  "validate_message mock_chain 0 [k] mock_runtime =
    (Inr \<lparr>args_lane_id = 0, args_lane = outbound_opened, args_payload = [k]\<rparr>, mock_runtime)"
  by (simp add: validate_message_def ensure_normal_operating_mode_def bindE_step monad lift_error_def
      outbound_from_lane_id_def mock_runtime_def outbound_opened_def mock_chain_def mock_config_def
      maximal_incoming_size_def HARD_MESSAGE_SIZE_LIMIT_def)

lemma mock_send: "bridge_step mock_chain mock_chain dispatch_log 0 mock_bridge mock_sent"
proof -
  from bridge_step.send [OF mock_validates [of 7] _ prod.collapse [symmetric], of mock_bridge] show ?thesis
    by (simp add: mock_sent_def) (simp add: mock_bridge_def mock_runtime_def)
qed

lemma mock_reach: "(bridge_step mock_chain mock_chain dispatch_log 0)\<^sup>*\<^sup>* mock_bridge mock_sent"
  by (rule r_into_rtranclp [of "bridge_step mock_chain mock_chain dispatch_log 0", OF mock_send])

text \<open>
  C2. What the target chain has dispatched on the lane is at every moment a prefix of what was sent
  on it: nothing is lost, repeated, reordered or made up, whatever the relayers do, as long as no
  message is sent with stale lane data and the lane is not purged.
\<close>

theorem delivered_in_order:
  assumes "messages_hooks scfg slog" "messages_hooks tcfg tlog" "bridge_init tlog lane b0"
    "(bridge_step scfg tcfg tlog lane)\<^sup>*\<^sup>* b0 b"
  shows "prefix (delivered_on tlog lane (target b)) (sent b)"
proof -
  from bridge_chains.reach_inv [OF bridge_chains.intro [OF assms(1,2)] assms(4,3)] obtain d e
    where "bridge_inv tlog lane b d e" by blast
  from bridge_inv_split [OF this] show ?thesis by (auto simp: prefix_def)
qed

theorem delivered_in_order_witness: "prefix (delivered_on dispatch_log 0 (target mock_sent)) [[7]]"
  using delivered_in_order [OF mock_chain_hooks mock_chain_hooks mock_bridge_init mock_reach] by (simp add: mock_sent_def)

text \<open>
  C6. The bridge implements a queue: every step of either chain is a sequence of steps of a queue to
  which messages are added at one end and from which they are taken at the other.
\<close>

theorem bridge_refines_queue:
  assumes "messages_hooks scfg slog" "messages_hooks tcfg tlog" "bridge_init tlog lane b0"
    "(bridge_step scfg tcfg tlog lane)\<^sup>*\<^sup>* b0 b" "bridge_step scfg tcfg tlog lane b b1"
  shows "fifo_step\<^sup>*\<^sup>* (queue_of tlog lane b) (queue_of tlog lane b1)"
proof -
  note chains = bridge_chains.intro [OF assms(1,2)]
  from bridge_chains.reach_inv [OF chains assms(4,3)] obtain d e where "bridge_inv tlog lane b d e" by blast
  with bridge_chains.step_fifo [OF chains assms(5)] show ?thesis by blast
qed

theorem bridge_refines_queue_witness:
  "fifo_step\<^sup>*\<^sup>* ([], []) (queue_of dispatch_log 0 mock_sent)"
  using bridge_refines_queue [OF mock_chain_hooks mock_chain_hooks mock_bridge_init rtranclp.rtrancl_refl mock_send]
  by (simp add: queue_of_def mock_bridge_def mock_runtime_def delivered_on_def)

text \<open>
  C7. In every state reached by the steps of the bridge, the source chain still stores, under its
  nonce, every message that was sent and is not dispatched yet, so that it can be proved to the
  target chain. Sending with stale lane data and pruning a lane that is being closed, which both
  remove undelivered messages, are no such steps.
\<close>

theorem undelivered_messages_kept:
  assumes "messages_hooks scfg slog" "messages_hooks tcfg tlog" "bridge_init tlog lane b0"
    "(bridge_step scfg tcfg tlog lane)\<^sup>*\<^sup>* b0 b"
    "length (delivered_on tlog lane (target b)) \<le> i" "i < length (sent b)"
  shows "outbound_messages (source b) (lane, of_nat (Suc i)) = Some (sent b ! i)"
proof -
  from bridge_chains.reach_inv [OF bridge_chains.intro [OF assms(1,2)] assms(4,3)] obtain d e
    where "bridge_inv tlog lane b d e" by blast
  from bridge_inv_kept [OF this assms(5,6)] show ?thesis .
qed

theorem undelivered_messages_kept_witness: "outbound_messages (source mock_sent) (0, 1) = Some [7]"
  using undelivered_messages_kept [OF mock_chain_hooks mock_chain_hooks mock_bridge_init mock_reach, of 0]
  by (simp add: mock_sent_def mock_bridge_def mock_runtime_def delivered_on_def)



text \<open>
  C5. A bridge never gets stuck: from every state that can be reached, if neither pallet is halted,
  the lane is open at the target chain, its limits of unrewarded relayers and unconfirmed messages
  are positive and finalised states of either chain can be proved to the other, there are steps
  after which everything that was sent is dispatched, in order, the source chain has confirmed
  every message it generated, and nothing is left in its storage.
\<close>

theorem lane_drains:
  assumes "messages_hooks scfg slog" "messages_hooks tcfg tlog" "bridge_init tlog lane b0"
    "(bridge_step scfg tcfg tlog lane)\<^sup>*\<^sup>* b0 b"
    "relays_confirmations scfg lane" "relays_messages tcfg tlog lane"
    "0 < max_unrewarded_relayers tcfg" "0 < max_unconfirmed_messages tcfg"
    "\<not> is_halted_mode (operating_mode (source b))" "\<not> is_halted_mode (operating_mode (target b))"
    "inbound_lanes (target b) lane = Some e" "in_state e = Opened"
  shows "\<exists>b1. (bridge_step scfg tcfg tlog lane)\<^sup>*\<^sup>* b b1 \<and> sent b1 = sent b \<and>
    delivered_on tlog lane (target b1) = sent b \<and> lane_messages lane (source b1) = Map.empty \<and>
    (\<exists>d1. outbound_lanes (source b1) lane = Some d1 \<and>
      latest_received_nonce d1 = latest_generated_nonce d1 \<and> unat (latest_generated_nonce d1) = length (sent b))"
proof -
  note chains = bridge_chains.intro [OF assms(1,2)]
  from bridge_chains.reach_inv [OF chains assms(4,3)] obtain d e' where "bridge_inv tlog lane b d e'" by blast
  then have inv: "bridge_inv tlog lane b d e" using assms(11) by (simp add: bridge_inv_def)
  from bridge_chains.drain [OF chains inv assms(5,6,9,10,12,7,8)] obtain b1 d1 e1
    where run: "(bridge_step scfg tcfg tlog lane)\<^sup>*\<^sup>* b b1" "sent b1 = sent b"
      and inv1: "bridge_inv tlog lane b1 d1 e1" and all: "unat (last_delivered_nonce e1) = length (sent b)"
        "latest_received_nonce d1 = last_delivered_nonce e1" by blast
  have "delivered_on tlog lane (target b1) = sent b" using inv1 all run(2) by (simp add: bridge_inv_def target_inv_def)
  moreover have "lane_messages lane (source b1) = Map.empty" by (rule bridge_inv_empty [OF inv1]) (simp add: all run(2))
  moreover have "outbound_lanes (source b1) lane = Some d1 \<and>
      latest_received_nonce d1 = latest_generated_nonce d1 \<and> unat (latest_generated_nonce d1) = length (sent b)"
    using inv1 all run(2) by (simp add: bridge_inv_def source_inv_def word_unat_eq_iff)
  ultimately show ?thesis using run by blast
qed

theorem lane_drains_witness:
  "\<exists>b1. (bridge_step mock_chain mock_chain dispatch_log 0)\<^sup>*\<^sup>* mock_sent b1 \<and> delivered_on dispatch_log 0 (target b1) = [[7]]"
proof -
  have s: "\<not> is_halted_mode (operating_mode (source mock_sent))" "sent mock_sent = [[7]]" by code_simp+
  have t: "\<not> is_halted_mode (operating_mode (target mock_sent))" "inbound_lanes (target mock_sent) 0 = Some inbound_opened"
    by (simp_all add: mock_sent_def mock_bridge_def mock_runtime_def)
  have o: "in_state (inbound_opened :: nat inbound_lane_data) = Opened" by (simp add: inbound_opened_def)
  have c: "0 < max_unrewarded_relayers (mock_chain :: (nat, nat, nat, unit, nat, unit, (nat, nat) mock_storage) mcfg)"
    "0 < max_unconfirmed_messages (mock_chain :: (nat, nat, nat, unit, nat, unit, (nat, nat) mock_storage) mcfg)"
    by (simp_all add: mock_chain_def mock_config_def MAX_UNREWARDED_RELAYERS_IN_CONFIRMATION_TX_def
        MAX_UNCONFIRMED_MESSAGES_IN_CONFIRMATION_TX_def)
  from lane_drains [OF mock_chain_hooks mock_chain_hooks mock_bridge_init mock_reach mock_relays_confirmations
      mock_relays_messages c s(1) t o] s(2)
  show ?thesis by auto
qed

text \<open>
  C9. Two messages that are validated before either is sent get the same nonce, and the second takes
  the place of the first: after both are sent, the lane stores the second where the first would be,
  and the first nowhere.
\<close>

theorem stale_ticket_overwrites:
  assumes "validate_message cfg lane p s = (Inr args1, s1)" "validate_message cfg lane p' s1 = (Inr args2, s2)"
    "send_message args1 s2 = (artifacts1, s3)" "send_message args2 s3 = (artifacts2, s4)"
  shows "lane_messages lane s4 = (lane_messages lane s)(artifact_nonce artifacts1 \<mapsto> p')"
proof -
  note v1 = validate_message_Ok [OF assms(1)] and v2 = validate_message_Ok [OF assms(2)]
  have same: "args_lane args1 = args_lane args2" using v1 v2 by simp
  obtain n d1 m1 where l1: "send_message_lane p (args_lane args1, lane_messages lane s) = (n, d1, m1)" by (metis prod.exhaust)
  obtain n' d2 m2 where l2: "send_message_lane p' (args_lane args2, lane_messages lane s3) = (n', d2, m2)" by (metis prod.exhaust)
  have s3: "lane_messages lane s3 = m1" "artifact_nonce artifacts1 = n"
    using send_message_state(1) [OF assms(3), of n d1 m1] assms(3) l1 v1 v2
    by (auto simp: same_pallet_def set_outbound_data_def set_lane_messages_def lane_messages_def send_message_def Let_def)
  have "lane_messages lane s4 = m2"
    using send_message_state(1) [OF assms(4), of n' d2 m2] l2 v1 v2
    by (auto simp: same_pallet_def set_outbound_data_def set_lane_messages_def lane_messages_def)
  moreover have "m1 = (lane_messages lane s)(n \<mapsto> p)" using l1 by (auto simp: send_message_lane_def Let_def)
  moreover have "m2 = m1(n \<mapsto> p')"
    using l1 l2 s3(1) same by (auto simp: send_message_lane_def Let_def)
  ultimately show ?thesis using s3(2) by simp
qed

theorem stale_ticket_overwrites_witness:
  "lane_messages 0 (snd (send_message \<lparr>args_lane_id = 0, args_lane = outbound_opened, args_payload = [8]\<rparr> (source mock_sent)))
     = (\<lambda>_. None)(1 \<mapsto> [8])"
proof -
  have v: "validate_message mock_chain 0 [k] mock_runtime =
    (Inr \<lparr>args_lane_id = 0, args_lane = outbound_opened, args_payload = [k]\<rparr>, mock_runtime)" for k
    by (rule mock_validates)
  have "artifact_nonce (fst (send_message \<lparr>args_lane_id = 0, args_lane = outbound_opened, args_payload = [7]\<rparr> mock_runtime)) = 1"
    by code_simp
  with stale_ticket_overwrites [OF v [of 7] v [of 8] prod.collapse [symmetric] prod.collapse [symmetric]]
  show ?thesis by (simp add: mock_sent_def lane_messages_def mock_runtime_def)
qed

end
