(* ===== verification/Spec2Isabelle.thy ===== *)
theory Spec2Isabelle
  imports Calls Rational Normalize Bridge_Liveness
begin

text \<open>
  \<^bold>\<open>A verification of three parts of the Polkadot SDK runtime\<close>

  The Polkadot SDK is a framework for blockchains. The state of a chain is a key-value storage; a
  runtime made of pallets changes it, one call at a time, each call in a storage layer that is
  rolled back when the call fails. This development models three parts of such a runtime, from the
  storage up to the calls, and proves what makes them correct:

  \<^item> the \<^bold>\<open>balances pallet\<close> (\<open>substrate/frame/balances\<close>) on the accounts of the system pallet
    (\<open>substrate/frame/system\<close>) and the token traits (\<open>substrate/frame/support/src/traits/tokens\<close>);

  \<^item> the \<^bold>\<open>arithmetic primitives\<close> (\<open>substrate/primitives/arithmetic\<close>), on which fees, rewards and
    elections are computed;

  \<^item> the \<^bold>\<open>bridge messages pallet\<close> (\<open>bridges/modules/messages\<close>, \<open>bridges/primitives/messages\<close>), and
    the protocol that two chains with this pallet run.

  \<^bold>\<open>How the code is modelled.\<close> A machine integer is a word of its width, with \<open>checked_\<close> and
  \<open>saturating_\<close> operations as in Rust. A struct is a record, an enum a datatype. A fallible function
  that changes state is a function from the state to a result and the state (\<open>comp\<close>, with \<open>bindE\<close> for
  the question mark); the error keeps the state as far as it got, and only a storage layer takes it
  back. The state is the extensible record \<open>runtime\<close>: the storage items of the two pallets, extended by
  the items of the messages pallet and by a part for the modules that are not modelled. Code of other
  crates is a field of a configuration record: hooks, dust handler, dispatcher, payments, weights,
  light client, account lookup.

  \<^bold>\<open>The theories.\<close>

  \<^item> \<open>Prelude\<close>: machine integers, the computation combinators and their rules, sums over maps.
    \<open>Storage\<close>: the access functions of a storage map; the locale \<open>storage_map\<close> has the laws of a map
    and is interpreted on each storage item. \<open>Tokens\<close> and \<open>Bridge_Errors\<close>: enumerations and errors.
    \<open>Runtime\<close>: the state, events, and storage layers (\<open>storage/transactional.rs\<close>).

  \<^item> \<open>Accounts\<close>: provider, consumer and sufficient references, creation and reaping of accounts
    (\<open>inc_providers\<close> and its relatives of \<open>frame/system/src/lib.rs\<close>); the locale \<open>account_hooks\<close> requires
    of the hooks for new and killed accounts that they change nothing but the event record.
    \<open>Balances_Core\<close>:
    \<open>try_mutate_account\<close>, through which every balance changes, and the invariant \<open>account_ok\<close> of
    accounts. \<open>Issuance\<close>: the invariant \<open>books\<close>: accounts are well formed, and the sum of all balances
    together with the outstanding imbalances is the total issuance; the locale \<open>books_cfg\<close> adds the
    law of the dust handler.

  \<^item> \<open>Fungible\<close>, \<open>Holds\<close> (\<open>impl_fungible.rs\<close> and the traits in \<open>tokens/fungible\<close>), \<open>Currency\<close>, \<open>Claims\<close>
    (\<open>impl_currency.rs\<close>): every operation of the token traits, each with what it does on success, when
    it fails, and that it keeps the books and the claims (holds, freezes, locks, reserves) on an
    account. \<open>Origins\<close> and \<open>Calls\<close>: origins, all dispatchables, genesis and state checks; from a
    genesis without development accounts on, every sequence of calls keeps the books, where of the
    calls of the root origin the adjustment of the issuance by hand is left out and a forced balance
    must fit (\<open>call_fits\<close>), and a signed call spends only its signer's balance.

  \<^item> \<open>Helpers128\<close>, \<open>Per_Things\<close>, \<open>BigUint\<close>, \<open>BigUint_Div\<close>, \<open>Rational\<close>, \<open>Normalize\<close>: each routine is
    proved equal to what it computes on natural or rational numbers: 256-bit products and
    quotients, square roots, the fractions for every accuracy (locale \<open>per_thing\<close>, interpreted on the
    five types of the source), limb arithmetic with Knuth's division, sums and order of fractions,
    normalisation to a target sum.

  \<^item> \<open>Lanes\<close>: the two ends of a lane (\<open>inbound_lane.rs\<close>, \<open>outbound_lane.rs\<close>), their invariants
    \<open>inbound_ok\<close> and \<open>outbound_ok\<close>, and rewards. \<open>Messages\<close>: the pallet, with \<open>lanes_manager.rs\<close>,
    \<open>proofs.rs\<close>, \<open>call_ext.rs\<close> and its calls. \<open>Delivery\<close>: what the calls do to the lanes, for every
    configuration that satisfies the interface \<open>messages_hooks\<close>. \<open>Messages_Mock\<close>: the configuration of
    the pallet's tests, which satisfies it. \<open>Bridge\<close>: two chains as a step relation, in which
    messages are sent with current lane data and anybody makes any call at any time, from the opening
    of a lane until it is pruned and purged, and its invariant. \<open>Bridge_Liveness\<close>:
    messages are delivered in order and once (a refinement of a queue), are kept until they are
    delivered, confirmations of past states succeed, and a lane can always be drained.

  \<^bold>\<open>What is assumed.\<close> The theorems on balances hold for configurations whose existential deposit is
  positive, whose account hooks change nothing of the state but the event record (neither the two
  pallets nor the part for other modules), and whose dust handler obeys the law of \<open>books_cfg\<close>; the
  default configuration of the source, with empty hooks and dust that is dropped, satisfies them. The theorems on the bridge assume that the hooks of the messages
  pallet leave its storage alone and that the light client accepts only proofs of past states of
  the other chain; the liveness theorem also assumes that a finalised state can be proved. A lane
  carries fewer than \<open>2 ^ 64 - 1\<close> messages.

  \<^bold>\<open>Termination.\<close> Loops over data are structural recursions; the loops of the arithmetic (greatest
  common divisor, square root, powers, quotients) have a measure. Two loops need not end for every
  argument, the correction of a quotient digit (\<open>test_loop\<close>) and the removal of a surplus
  (\<open>shrink_leftover\<close>): they are partial functions into an option, and the theorems on division and
  normalisation prove that they return. No fuel is used. An index out of range, a division by
  zero and a failed \<open>expect\<close> are the value \<open>None\<close> in the arithmetic, and the theorems say when they
  cannot happen.

  \<^bold>\<open>Findings.\<close> Some theorems state behaviour that the authors may not intend: a best-effort release
  that destroys funds, consumer references that leak for accounts in the old format, a
  withdrawal that is refused after its imbalance was made and so reduces the issuance, locks that are not enforced on accounts
  without a provider, development accounts that genesis does not count, messages that replace
  one another when they are validated before either is sent, and an empty input that
  normalisation accepts for every target.

  \<^bold>\<open>Not modelled.\<close> Of the modelled crates: weights and benchmarks, metadata, SCALE encoding, Debug
  and serde output, floating-point conversions, migrations, the base call filter, and the digests,
  upgrades and extrinsic data of the system pallet. Of the bridge: tries and signatures (the reader
  of a storage proof is a parameter), the finality and relayers pallets, relay processes. Of the
  repository: node client, networking, consensus and database, which are asynchronous I/O on
  external libraries; XCM, parachains and Cumulus; staking, governance, contracts and the remaining
  pallets, which are large state machines of their own that use the modelled interfaces.
\<close>

end
